(* ===== verification/Prelude.thy ===== *)
theory Prelude
  imports Main "HOL-Library.Word" "HOL-Library.Signed_Division"
begin

text \<open>
  Shared vocabulary of the development: the integer types of the C++ sources, the reading of a
  \<open>char\<close> as a signed byte, the value of a big-endian digit sequence, and the generic
  lemmas on lists and division that several components use.
\<close>

section \<open>Types\<close>

type_synonym u8 = "8 word"
type_synonym u32 = "32 word"
type_synonym u64 = "64 word"
type_synonym u128 = "128 word"

named_theorems oracle_simps \<open>defining equations of the oracles, for evaluation of closed instances\<close>
named_theorems ledger_simps \<open>how each fake changes the ledgers\<close>

section \<open>Characters\<close>

text \<open>\<open>char\<close> is a signed byte on the platform the suites are built for.\<close>

definition char_val :: "char \<Rightarrow> int" where
  "char_val c = (let n = int (of_char c) in if 128 \<le> n then n - 256 else n)"

text \<open>\<open>(char) x\<close> of an \<open>int\<close>: its low eight bits.\<close>

definition char_of_int :: "int \<Rightarrow> char" where
  "char_of_int x = char_of (nat (x mod 256))"

lemma char_val_char_of_int:
  assumes "0 \<le> x" "x < 128"
  shows "char_val (char_of_int x) = x"
proof -
  have "nat (x mod 256) = nat x" using assms by simp
  moreover have "of_char (char_of (nat x) :: char) = (nat x)"
    using assms by (simp add: of_char_of)
  ultimately show ?thesis
    using assms by (simp add: char_val_def char_of_int_def)
qed

lemma char_val_inj: "char_val c = char_val d \<Longrightarrow> c = d"
proof -
  assume h: "char_val c = char_val d"
  have "(of_char c :: nat) < 256" "(of_char d :: nat) < 256" by simp_all
  then have b: "int (of_char c) < 256" "int (of_char d) < 256" by linarith+
  have "int (of_char c) = int (of_char d)"
    using h b by (simp only: char_val_def Let_def split: if_splits)
  then show ?thesis by simp
qed

section \<open>Big-endian digit sequences\<close>

text \<open>The number a sequence of digits denotes in base \<open>b\<close>, most significant digit first.\<close>

definition be_num :: "nat \<Rightarrow> nat list \<Rightarrow> nat" where
  "be_num b ds = foldl (\<lambda>v d. b * v + d) 0 ds"

lemma foldl_be: "foldl (\<lambda>v d. b * v + d) v ds = v * b ^ length ds + foldl (\<lambda>v d. b * v + d) 0 ds"
  for b v :: nat
proof (induction ds arbitrary: v)
  case Nil
  then show ?case by simp
next
  case (Cons d ds)
  show ?case
    using Cons.IH [of "b * v + d"] Cons.IH [of d] by (simp add: algebra_simps)
qed

lemma be_num_Nil [simp]: "be_num b [] = 0"
  by (simp add: be_num_def)

lemma be_num_Cons [simp]: "be_num b (d # ds) = d * b ^ length ds + be_num b ds"
  using foldl_be [of b d ds] by (simp add: be_num_def)

lemma be_num_append: "be_num b (xs @ ys) = be_num b xs * b ^ length ys + be_num b ys"
  by (induction xs) (simp_all add: algebra_simps power_add)

lemma be_num_snoc [simp]: "be_num b (xs @ [d]) = b * be_num b xs + d"
  by (simp add: be_num_append)

lemma be_num_bound: "\<forall>d \<in> set ds. d < b \<Longrightarrow> be_num b ds < b ^ length ds"
proof (induction ds)
  case Nil
  then show ?case by simp
next
  case (Cons d ds)
  then have "be_num b ds < b ^ length ds" "Suc d \<le> b" by auto
  then have "d * b ^ length ds + be_num b ds < Suc d * b ^ length ds" by simp
  also have "\<dots> \<le> b * b ^ length ds" using \<open>Suc d \<le> b\<close> by (rule mult_le_mono1)
  finally show ?case by simp
qed

lemma be_num_replicate_0 [simp]: "be_num b (replicate n 0) = 0"
  by (induction n) simp_all

text \<open>Digit \<open>i\<close> from the right.\<close>

lemma be_num_digit:
  assumes "\<forall>d \<in> set ds. d < b" "i < length ds"
  shows "ds ! (length ds - 1 - i) = be_num b ds div b ^ i mod b"
  using assms
proof (induction ds arbitrary: i rule: rev_induct)
  case Nil
  then show ?case by simp
next
  case (snoc d ds)
  then have d: "d < b" by simp
  show ?case
  proof (cases i)
    case 0
    then show ?thesis using d by (simp add: nth_append)
  next
    case (Suc j)
    with snoc.prems have j: "j < length ds" by simp
    have "(b * be_num b ds + d) div b = be_num b ds" using d by simp
    then have q: "(b * be_num b ds + d) div (b * b ^ j) = be_num b ds div b ^ j"
      by (simp add: div_mult2_eq)
    have "length ds - Suc j < length ds" using j by simp
    then show ?thesis
      using Suc j q snoc.IH [OF _ j] snoc.prems(1) by (simp add: nth_append)
  qed
qed

lemma be_num_div_ge:
  assumes "\<forall>d \<in> set ds. d < b" "length ds \<le> i" "0 < b"
  shows "be_num b ds div b ^ i = 0"
proof -
  have "be_num b ds < b ^ length ds" by (rule be_num_bound [OF assms(1)])
  also have "\<dots> \<le> b ^ i" using assms by (simp add: power_increasing)
  finally show ?thesis by simp
qed

lemma div_power_Suc: "(n::nat) div b ^ Suc i = n div b ^ i div b"
  by (simp only: power_Suc2 div_mult2_eq)

text \<open>A prefix of the digits is the quotient by a power of the base, what follows it the rest.\<close>

lemma be_num_take:
  assumes "\<forall>d \<in> set ds. d < b" "k \<le> length ds"
  shows "be_num b (take (length ds - k) ds) = be_num b ds div b ^ k"
proof -
  let ?h = "take (length ds - k) ds" and ?t = "drop (length ds - k) ds"
  have len: "length ?t = k" using assms(2) by simp
  have t: "be_num b ?t < b ^ k"
    using be_num_bound [of ?t b] assms(1) len by (metis in_set_dropD)
  have "be_num b ds = be_num b ?h * b ^ k + be_num b ?t"
    using be_num_append [of b ?h ?t] len by simp
  then have "be_num b ds div b ^ k = (be_num b ?t + be_num b ?h * b ^ k) div b ^ k"
    by (simp only: add.commute)
  also have "\<dots> = be_num b ?h + be_num b ?t div b ^ k"
    using t by (subst div_mult_self1) linarith+
  finally show ?thesis using t by simp
qed

lemma be_num_drop:
  assumes "\<forall>d \<in> set ds. d < b" "k \<le> length ds"
  shows "be_num b (drop (length ds - k) ds) = be_num b ds mod b ^ k"
proof -
  let ?h = "take (length ds - k) ds" and ?t = "drop (length ds - k) ds"
  have len: "length ?t = k" using assms(2) by simp
  have t: "be_num b ?t < b ^ k"
    using be_num_bound [of ?t b] assms(1) len by (metis in_set_dropD)
  have "be_num b ds = be_num b ?h * b ^ k + be_num b ?t"
    using be_num_append [of b ?h ?t] len by simp
  then show ?thesis using t by (metis mod_less mod_mult_self3)
qed

lemma be_num_zero_iff: "0 < b \<Longrightarrow> be_num b ds = 0 \<longleftrightarrow> (\<forall>d \<in> set ds. d = 0)"
  by (induction ds) auto

lemma u8_bound [simp]: "unat (b :: u8) < 256"
  using unsigned_less [of b, where 'a = nat] by simp

section \<open>C's division by ten\<close>

lemma abs_sdiv10: "\<bar>x sdiv 10\<bar> = \<bar>x\<bar> div (10::int)"
proof (cases "x = 0")
  case True
  then show ?thesis by simp
next
  case False
  then have "\<bar>sgn x\<bar> = 1" by (simp add: sgn_if)
  then have "\<bar>sgn x * sgn 10 * (\<bar>x\<bar> div \<bar>10\<bar>)\<bar> = \<bar>x\<bar> div 10"
    unfolding abs_mult by simp
  then show ?thesis by (simp only: signed_divide_int_def)
qed

lemma abs_sdiv10_less: "x \<noteq> 0 \<Longrightarrow> \<bar>x sdiv 10\<bar> < \<bar>x :: int\<bar>"
  by (simp add: abs_sdiv10)

lemma sdiv10_nonneg: "0 \<le> x \<Longrightarrow> x sdiv 10 = x div (10::int)"
  by (cases "x = 0") (simp_all add: signed_divide_int_def)

lemma smod10_nonneg: "0 \<le> x \<Longrightarrow> x smod 10 = x mod (10::int)"
  by (cases "x = 0") (simp_all add: signed_modulo_int_def)

section \<open>Three-way comparisons\<close>

text \<open>
  The contract every comparison of the suites shares: on the values it is meant for, the answer is
  the sign of the difference of what the values stand for.
\<close>

locale three_way =
  fixes cmp :: "'a \<Rightarrow> 'a \<Rightarrow> int"
    and val :: "'a \<Rightarrow> 'b::linordered_idom"
    and ok :: "'a \<Rightarrow> bool"
  assumes cmp_less: "ok a \<Longrightarrow> ok b \<Longrightarrow> val a < val b \<Longrightarrow> cmp a b = - 1"
    and cmp_greater: "ok a \<Longrightarrow> ok b \<Longrightarrow> val b < val a \<Longrightarrow> cmp a b = 1"
    and cmp_equal: "ok a \<Longrightarrow> ok b \<Longrightarrow> val a = val b \<Longrightarrow> cmp a b = 0"
begin

lemma cmp_cases: "ok a \<Longrightarrow> ok b \<Longrightarrow> cmp a b = (if val a < val b then - 1 else if val a = val b then 0 else 1)"
  using cmp_less cmp_greater cmp_equal by (metis linorder_neqE_linordered_idom)

lemma cmp_lt_iff: "ok a \<Longrightarrow> ok b \<Longrightarrow> cmp a b < 0 \<longleftrightarrow> val a < val b"
  by (simp add: cmp_cases)

lemma cmp_ge_iff: "ok a \<Longrightarrow> ok b \<Longrightarrow> 0 \<le> cmp a b \<longleftrightarrow> val b \<le> val a"
  by (auto simp: cmp_cases)

lemma cmp_eq_iff: "ok a \<Longrightarrow> ok b \<Longrightarrow> cmp a b = 0 \<longleftrightarrow> val a = val b"
  by (simp add: cmp_cases)

lemma cmp_antisym: "ok a \<Longrightarrow> ok b \<Longrightarrow> cmp b a = - cmp a b"
  by (auto simp: cmp_cases)

lemma cmp_trans: "ok a \<Longrightarrow> ok b \<Longrightarrow> ok c \<Longrightarrow> cmp a b \<le> 0 \<Longrightarrow> cmp b c \<le> 0 \<Longrightarrow> cmp a c \<le> 0"
  by (auto simp: cmp_cases split: if_splits)

end

section \<open>Loops that tally\<close>

text \<open>
  A loop body that adds one to a counter exactly at the elements a test marks: after the loop the
  counter has grown by the number of marked elements.
\<close>

locale tally =
  fixes step :: "'a \<Rightarrow> 's \<Rightarrow> 's"
    and counter :: "'s \<Rightarrow> nat"
    and marked :: "'a \<Rightarrow> bool"
  assumes counter_step: "counter (step x s) = counter s + (if marked x then 1 else 0)"
begin

lemma counter_fold: "counter (fold step xs s) = counter s + length (filter marked xs)"
  by (induction xs arbitrary: s) (simp_all add: counter_step)

lemma counter_zero: "counter (fold step xs s) = 0 \<longleftrightarrow> counter s = 0 \<and> (\<forall>x \<in> set xs. \<not> marked x)"
  by (simp add: counter_fold filter_empty_conv)

end

text \<open>A counter that each turn raises by what the element is worth.\<close>

lemma counter_sum:
  assumes "\<And>x s. counter (step x s) = counter s + (worth x :: nat)"
  shows "counter (fold step xs s) = counter s + sum_list (map worth xs)"
  by (induction xs arbitrary: s) (simp_all add: assms)

text \<open>A nested loop is a loop over the pairs.\<close>

definition pairs_of :: "('a \<Rightarrow> 'b list) \<Rightarrow> 'a list \<Rightarrow> ('a \<times> 'b) list" where
  "pairs_of ys xs = concat (map (\<lambda>x. map (Pair x) (ys x)) xs)"

lemma fold_pairs: "fold (\<lambda>x. fold (f x) (ys x)) xs s = fold (\<lambda>(x, y). f x y) (pairs_of ys xs) s"
proof (induction xs arbitrary: s)
  case (Cons x xs)
  have "fold (f x) (ys x) s = fold (\<lambda>(x, y). f x y) (map (Pair x) (ys x)) s"
    by (simp add: fold_map comp_def)
  then show ?case using Cons by (simp add: pairs_of_def)
qed (simp add: pairs_of_def)

lemma set_pairs_of [simp]: "set (pairs_of ys xs) = {(x, y). x \<in> set xs \<and> y \<in> set (ys x)}"
  by (auto simp: pairs_of_def)

lemma length_pairs_of: "length (pairs_of (\<lambda>_. ys) xs) = length xs * length ys"
  by (induction xs) (simp_all add: pairs_of_def)

section \<open>Reading to the end\<close>

text \<open>
  A reader of a source: \<open>pull\<close> hands out some elements, leaves a state and says whether to call again. The
  reader calls until told not to; \<open>None\<close> when it is cut off.
\<close>

fun drain :: "('s \<Rightarrow> 'a list \<times> 's \<times> bool) \<Rightarrow> nat \<Rightarrow> 's \<Rightarrow> ('a list \<times> 's) option" where
  "drain pull 0 s = None"
| "drain pull (Suc n) s =
     (case pull s of (xs, s', more) \<Rightarrow>
        if more then map_option (\<lambda>(ys, t). (xs @ ys, t)) (drain pull n s') else Some (xs, s'))"

text \<open>
  The contract of such a source: what is left in a state, which states may be read, which it stops in. A call
  that is not the last one hands out something.
\<close>

locale chunked =
  fixes pull :: "'s \<Rightarrow> 'a list \<times> 's \<times> bool"
    and left :: "'s \<Rightarrow> 'a list"
    and readable :: "'s \<Rightarrow> bool"
    and finished :: "'s \<Rightarrow> bool"
  assumes pull_more: "readable s \<Longrightarrow> pull s = (xs, s', True) \<Longrightarrow> xs \<noteq> [] \<and> left s = xs @ left s' \<and> readable s'"
    and pull_done: "readable s \<Longrightarrow> pull s = (xs, s', False) \<Longrightarrow> left s = xs \<and> finished s'"
begin

text \<open>The reader ends and has met what was left, whatever the sizes of the chunks.\<close>

lemma drain_left: "readable s \<Longrightarrow> length (left s) < n \<Longrightarrow> \<exists>t. drain pull n s = Some (left s, t) \<and> finished t"
proof (induction n arbitrary: s)
  case (Suc n)
  obtain xs s' more where p: "pull s = (xs, s', more)" by (cases "pull s") auto
  show ?case
  proof (cases more)
    case True
    then have m: "xs \<noteq> []" "left s = xs @ left s'" "readable s'" using pull_more [OF Suc.prems(1)] p by auto
    then have "length (left s') < n" using Suc.prems(2) by (cases xs) auto
    from Suc.IH [OF m(3) this] show ?thesis using p True m(2) by auto
  qed (use pull_done [OF Suc.prems(1)] p in auto)
qed simp

end

text \<open>A source that hands out one element a call.\<close>

definition one_by_one :: "('s \<Rightarrow> 'a option \<times> 's) \<Rightarrow> 's \<Rightarrow> 'a list \<times> 's \<times> bool" where
  "one_by_one get s = (case get s of (None, s') \<Rightarrow> ([], s', False) | (Some x, s') \<Rightarrow> ([x], s', True))"

locale cursor =
  fixes get :: "'s \<Rightarrow> 'a option \<times> 's"
    and left :: "'s \<Rightarrow> 'a list"
    and readable :: "'s \<Rightarrow> bool"
    and finished :: "'s \<Rightarrow> bool"
  assumes get_Some: "readable s \<Longrightarrow> get s = (Some x, s') \<Longrightarrow> left s = x # left s' \<and> readable s'"
    and get_None: "readable s \<Longrightarrow> get s = (None, s') \<Longrightarrow> left s = [] \<and> finished s'"

sublocale cursor \<subseteq> chunked "one_by_one get" left readable finished
  by unfold_locales (auto simp: one_by_one_def dest: get_Some get_None split: prod.split_asm option.split_asm)

section \<open>Bounded reports\<close>

text \<open>The report the cases collect: every mismatch counts, the first ones are kept as text.\<close>

record mismatches =
  mm_count :: nat
  mm_first :: string

definition mm_limit :: nat where "mm_limit = 12"

definition mm_none :: mismatches where "mm_none = \<lparr>mm_count = 0, mm_first = ''''\<rparr>"

definition mm_add :: "string \<Rightarrow> mismatches \<Rightarrow> mismatches" where
  "mm_add what m =
     m\<lparr>mm_count := Suc (mm_count m),
       mm_first := (if mm_count m < mm_limit then mm_first m @ what @ [CHR 0x0A] else mm_first m)\<rparr>"

lemma mm_simps [simp]: "mm_count mm_none = 0" "mm_count (mm_add w m) = Suc (mm_count m)"
  by (simp_all add: mm_none_def mm_add_def)

end
