(* ===== verification/Decimal.thy ===== *)
theory Decimal
  imports Prelude
begin

text \<open>
  The decimal arithmetic of the NUMERIC oracle
  (\<^verbatim>\<open>unit/query/numeric_opfunc.exact_paths/test.cpp\<close>, "decimal arithmetic of the
  oracle"): magnitudes are strings of decimal digits, added, subtracted, shifted and compared digit
  by digit, and converted to and from the 17-byte big-endian buffer of a NUMERIC. The lemmas show
  that every operation computes on the numbers the strings denote.
\<close>

section \<open>Digits and the number a string denotes\<close>

definition digit :: "char \<Rightarrow> int" where
  "digit c = char_val c - 48"

definition is_digit :: "char \<Rightarrow> bool" where
  "is_digit c \<longleftrightarrow> 0 \<le> digit c \<and> digit c \<le> 9"

definition is_dec :: "string \<Rightarrow> bool" where
  "is_dec d \<longleftrightarrow> list_all is_digit d"

definition dec_num :: "string \<Rightarrow> nat" where
  "dec_num d = be_num 10 (map (\<lambda>c. nat (digit c)) d)"

text \<open>A canonical decimal: digits, at least one, no leading zero except in \<open>''0''\<close>.\<close>

definition canon :: "string \<Rightarrow> bool" where
  "canon d \<longleftrightarrow> is_dec d \<and> d \<noteq> [] \<and> (hd d = CHR ''0'' \<longrightarrow> d = ''0'')"

definition digit_char :: "int \<Rightarrow> char" where
  "digit_char x = char_of_int (48 + x)"

section \<open>The operations\<close>

text \<open>Leading zeros go while another character follows.\<close>

fun dec_strip :: "string \<Rightarrow> string" where
  "dec_strip [] = []"
| "dec_strip [c] = [c]"
| "dec_strip (c # c' # cs) = (if c = CHR ''0'' then dec_strip (c' # cs) else c # c' # cs)"

fun strip_trailing_len :: "string \<Rightarrow> nat \<Rightarrow> nat" where
  "strip_trailing_len d 0 = 0"
| "strip_trailing_len d (Suc n) =
     (if 0 < n \<and> d ! n = CHR ''0'' then strip_trailing_len d n else Suc n)"

definition dec_strip_trailing :: "string \<Rightarrow> string" where
  "dec_strip_trailing d = take (strip_trailing_len d (length d)) d"

text \<open>\<open>std::string::compare\<close>: the sign, bytes compared as unsigned characters.\<close>

fun str_compare :: "string \<Rightarrow> string \<Rightarrow> int" where
  "str_compare [] [] = 0"
| "str_compare [] (_ # _) = - 1"
| "str_compare (_ # _) [] = 1"
| "str_compare (a # as) (b # bs) =
     (if (of_char a :: nat) < of_char b then - 1
      else if (of_char b :: nat) < of_char a then 1 else str_compare as bs)"

definition dec_cmp :: "string \<Rightarrow> string \<Rightarrow> int" where
  "dec_cmp a b =
     (if length a \<noteq> length b then (if length a < length b then - 1 else 1)
      else (let c = str_compare a b in if c < 0 then - 1 else if 0 < c then 1 else 0))"

text \<open>
  The loop of \<open>dec_add\<close>: \<open>i\<close> counts digits from the right, \<open>r\<close> is the result
  so far, least significant digit first. \<open>sdiv\<close> and \<open>smod\<close> are C's division, which
  truncates towards zero.
\<close>

function dec_add_loop :: "string \<Rightarrow> string \<Rightarrow> nat \<Rightarrow> int \<Rightarrow> string \<Rightarrow> string" where
  "dec_add_loop a b i carry r =
     (if i < max (length a) (length b) \<or> carry \<noteq> 0
      then
        (let s = carry + (if i < length a then digit (a ! (length a - 1 - i)) else 0)
                   + (if i < length b then digit (b ! (length b - 1 - i)) else 0)
         in dec_add_loop a b (Suc i) (s sdiv 10) (r @ [digit_char (s smod 10)]))
      else r)"
  by pat_completeness auto
termination
proof (relation "measures [\<lambda>(a, b, i, carry, r). max (length a) (length b) - i,
    \<lambda>(a, b, i, carry, r). nat \<bar>carry\<bar>]", goal_cases)
  case 1
  show ?case by simp
next
  case (2 a b i carry r s)
  show ?case
  proof (cases "i < max (length a) (length b)")
    case True
    then show ?thesis by auto
  next
    case False
    then have s: "s = carry" "carry \<noteq> 0" using 2 by auto
    have "\<bar>carry sdiv 10\<bar> < \<bar>carry\<bar>" using s by (intro abs_sdiv10_less)
    then show ?thesis using False s by auto
  qed
qed

declare dec_add_loop.simps [simp del]

definition dec_add :: "string \<Rightarrow> string \<Rightarrow> string" where
  "dec_add a b = dec_strip (rev (dec_add_loop a b 0 0 []))"

text \<open>\<open>a - b\<close>, for \<open>a\<close> at least \<open>b\<close>.\<close>

function dec_sub_loop :: "string \<Rightarrow> string \<Rightarrow> nat \<Rightarrow> int \<Rightarrow> string \<Rightarrow> string" where
  "dec_sub_loop a b i borrow r =
     (if i < length a
      then
        (let s = digit (a ! (length a - 1 - i)) - borrow
                   - (if i < length b then digit (b ! (length b - 1 - i)) else 0)
         in dec_sub_loop a b (Suc i) (if s < 0 then 1 else 0) (r @ [digit_char ((s + 10) smod 10)]))
      else r)"
  by pat_completeness auto
termination
  by (relation "measure (\<lambda>(a, b, i, borrow, r). length a - i)") auto

declare dec_sub_loop.simps [simp del]

definition dec_sub :: "string \<Rightarrow> string \<Rightarrow> string" where
  "dec_sub a b = dec_strip (rev (dec_sub_loop a b 0 0 []))"

definition dec_pow10 :: "nat \<Rightarrow> string" where
  "dec_pow10 k = ''1'' @ replicate k (CHR ''0'')"

definition dec_shift :: "string \<Rightarrow> nat \<Rightarrow> string" where
  "dec_shift d k = (if d = ''0'' then d else d @ replicate k (CHR ''0''))"

text \<open>\<open>std::to_string\<close> of an unsigned integer.\<close>

fun dec_of_nat :: "nat \<Rightarrow> string" where
  "dec_of_nat n =
     (if n < 10 then [digit_char (int n)] else dec_of_nat (n div 10) @ [digit_char (int (n mod 10))])"

declare dec_of_nat.simps [simp del]

definition dec_of_u64 :: "u64 \<Rightarrow> string" where
  "dec_of_u64 u = dec_of_nat (unat u)"

definition to_string :: "int \<Rightarrow> string" where
  "to_string i = (if i < 0 then ''-'' @ dec_of_nat (nat (- i)) else dec_of_nat (nat i))"

section \<open>The 17-byte buffer\<close>

definition DB_NUMERIC_BUF_SIZE :: nat where
  "DB_NUMERIC_BUF_SIZE = 17"

text \<open>
  One pass over the bytes from the last to the first: \<open>x = buf[i] * 10 + carry\<close>, the low byte
  stays, the rest is carried. The result is the new bytes and the carry out of the first one.
\<close>

fun buf_mul10_add :: "u8 list \<Rightarrow> int \<Rightarrow> u8 list \<times> int" where
  "buf_mul10_add [] carry = ([], carry)"
| "buf_mul10_add (b # bs) carry =
     (let (bs', c) = buf_mul10_add bs carry; x = uint b * 10 + c
      in (word_of_int x # bs', x div 256))"

fun dec_to_buf_loop :: "string \<Rightarrow> u8 list \<Rightarrow> bool \<times> u8 list" where
  "dec_to_buf_loop [] buf = (True, buf)"
| "dec_to_buf_loop (ch # d) buf =
     (let (buf', carry) = buf_mul10_add buf (digit ch)
      in if carry \<noteq> 0 then (False, buf') else dec_to_buf_loop d buf')"

definition dec_to_buf :: "string \<Rightarrow> bool \<times> u8 list" where
  "dec_to_buf d = dec_to_buf_loop d (replicate DB_NUMERIC_BUF_SIZE 0)"

text \<open>One division of the buffer by ten, from the first byte: the quotient and the remainder.\<close>

fun buf_divmod10 :: "u8 list \<Rightarrow> nat \<Rightarrow> u8 list \<times> nat" where
  "buf_divmod10 [] rem = ([], rem)"
| "buf_divmod10 (b # bs) rem =
     (let x = rem * 256 + unat b; (bs', r) = buf_divmod10 bs (x mod 10)
      in (word_of_nat (x div 10) # bs', r))"

definition buf_num :: "u8 list \<Rightarrow> nat" where
  "buf_num bs = be_num 256 (map unat bs)"

definition buf_zero :: "u8 list \<Rightarrow> bool" where
  "buf_zero bs \<longleftrightarrow> list_all (\<lambda>b. b = 0) bs"

lemma length_buf_divmod10 [simp]: "length (fst (buf_divmod10 bs r)) = length bs"
  by (induction bs arbitrary: r) (auto simp: Let_def split_beta)

lemma buf_divmod10_num:
  "r < 10 \<Longrightarrow> snd (buf_divmod10 bs r) < 10 \<and>
     10 * buf_num (fst (buf_divmod10 bs r)) + snd (buf_divmod10 bs r) = r * 256 ^ length bs + buf_num bs"
proof (induction bs arbitrary: r)
  case Nil
  then show ?case by (simp add: buf_num_def)
next
  case (Cons b bs)
  let ?x = "r * 256 + unat b"
  let ?q = "buf_divmod10 bs (?x mod 10)"
  have IH: "snd ?q < 10" "10 * buf_num (fst ?q) + snd ?q = (?x mod 10) * 256 ^ length bs + buf_num bs"
    using Cons.IH [of "?x mod 10"] by auto
  have b: "unat b < 256" by (rule u8_bound)
  have "?x div 10 < 256" using Cons.prems b by linarith
  then have u: "unat (word_of_nat (?x div 10) :: u8) = ?x div 10"
    by (simp add: unat_of_nat take_bit_eq_mod)
  have "10 * (?x div 10 * 256 ^ length bs) + (?x mod 10) * 256 ^ length bs
      = (10 * (?x div 10) + ?x mod 10) * 256 ^ length bs"
    by (simp only: distrib_right mult.assoc)
  also have "\<dots> = ?x * 256 ^ length bs" by (simp only: mult_div_mod_eq)
  also have "\<dots> = r * 256 ^ length (b # bs) + unat b * 256 ^ length bs"
    by (simp add: distrib_right)
  finally have "10 * (?x div 10 * 256 ^ length bs + buf_num (fst ?q)) + snd ?q
      = r * 256 ^ length (b # bs) + (unat b * 256 ^ length bs + buf_num bs)"
    using IH(2) unfolding distrib_left by linarith
  moreover have "buf_num (fst (buf_divmod10 (b # bs) r)) = ?x div 10 * 256 ^ length bs + buf_num (fst ?q)"
    using u by (simp add: Let_def split_beta buf_num_def)
  ultimately show ?case
    using IH(1) by (simp add: Let_def split_beta buf_num_def)
qed

lemma buf_num_bound: "buf_num bs < 256 ^ length bs"
  using be_num_bound [of "map unat bs" 256] by (simp add: buf_num_def u8_bound)

lemma buf_zero_iff: "buf_zero bs \<longleftrightarrow> buf_num bs = 0"
  by (auto simp: buf_zero_def buf_num_def be_num_zero_iff list_all_iff unat_eq_0)

text \<open>
  The \<open>do\<close> loop: a digit per division, until the quotient is zero. The digits arrive least
  significant first and are reversed at the end.
\<close>

function buf_to_dec_loop :: "u8 list \<Rightarrow> string \<Rightarrow> string" where
  "buf_to_dec_loop b r =
     (let (b', rem) = buf_divmod10 b 0; r' = r @ [digit_char (int rem)]
      in if buf_zero b' then r' else buf_to_dec_loop b' r')"
  by pat_completeness auto
termination
proof (relation "measure (\<lambda>(b, r). buf_num b)", goal_cases)
  case 1
  show ?case by simp
next
  case (2 b r p b' rem r')
  then have "buf_divmod10 b 0 = (b', rem)" "buf_num b' \<noteq> 0" by (auto simp: buf_zero_iff)
  then have "10 * buf_num b' + rem = buf_num b" "buf_num b' \<noteq> 0"
    using buf_divmod10_num [of 0 b] by auto
  then show ?case by simp
qed

declare buf_to_dec_loop.simps [simp del]

definition buf_to_dec :: "u8 list \<Rightarrow> string" where
  "buf_to_dec src = dec_strip (rev (buf_to_dec_loop src []))"

section \<open>Boundaries\<close>

definition TWO64 :: string where "TWO64 = ''18446744073709551616''"
definition TWO127 :: string where "TWO127 = ''170141183460469231731687303715884105728''"
definition TWO128 :: string where "TWO128 = ''340282366920938463463374607431768211456''"

definition below_2_128 :: "string \<Rightarrow> bool" where
  "below_2_128 mag \<longleftrightarrow> dec_cmp mag TWO128 < 0"

section \<open>Facts about digits\<close>

lemma digit_digit_char: "0 \<le> x \<Longrightarrow> x \<le> 9 \<Longrightarrow> digit (digit_char x) = x"
  by (simp add: digit_def digit_char_def char_val_char_of_int)

lemma digit_char_digit [simp]: "is_digit c \<Longrightarrow> digit_char (digit c) = c"
  by (rule char_val_inj) (simp add: digit_digit_char is_digit_def digit_def digit_char_def char_val_char_of_int)

lemma is_digit_digit_char: "0 \<le> x \<Longrightarrow> x \<le> 9 \<Longrightarrow> is_digit (digit_char x)"
  by (simp add: is_digit_def digit_digit_char)

lemma digit_inj: "digit c = digit d \<Longrightarrow> c = d"
  by (rule char_val_inj) (simp add: digit_def)

lemma digit_0 [simp]: "digit (CHR ''0'') = 0"
  by (simp add: digit_def char_val_def)

lemma digit_eq_0 [simp]: "digit c = 0 \<longleftrightarrow> c = CHR ''0''"
  using digit_inj [of c "CHR ''0''"] by auto

lemma digit_1 [simp]: "digit (CHR ''1'') = 1"
  by (simp add: digit_def char_val_def)

lemma is_digit_01 [simp]: "is_digit (CHR ''0'')" "is_digit (CHR ''1'')"
  by (simp_all add: is_digit_def)

lemma digit_bounds: "is_digit c \<Longrightarrow> 0 \<le> digit c" "is_digit c \<Longrightarrow> digit c \<le> 9"
  by (simp_all add: is_digit_def)

lemma is_dec_simps [simp]:
  "is_dec []" "is_dec (c # d) \<longleftrightarrow> is_digit c \<and> is_dec d" "is_dec (d @ e) \<longleftrightarrow> is_dec d \<and> is_dec e"
  "is_dec (rev d) \<longleftrightarrow> is_dec d" "is_dec (replicate k (CHR ''0''))"
  by (auto simp: is_dec_def list_all_iff)

lemma is_dec_take [intro]: "is_dec d \<Longrightarrow> is_dec (take n d)"
  by (auto simp: is_dec_def list_all_iff dest: in_set_takeD)

lemma is_dec_nth: "is_dec d \<Longrightarrow> i < length d \<Longrightarrow> is_digit (d ! i)"
  by (simp add: is_dec_def list_all_length)

lemma dec_digits_bound: "is_dec d \<Longrightarrow> \<forall>x \<in> set (map (\<lambda>c. nat (digit c)) d). x < 10"
  by (auto simp: is_dec_def list_all_iff is_digit_def)

lemma dec_num_simps [simp]:
  "dec_num [] = 0" "dec_num (c # d) = nat (digit c) * 10 ^ length d + dec_num d"
  "dec_num (d @ e) = dec_num d * 10 ^ length e + dec_num e"
  "dec_num (replicate k (CHR ''0'')) = 0"
  by (simp_all add: dec_num_def be_num_append map_replicate)

lemma dec_num_bound: "is_dec d \<Longrightarrow> dec_num d < 10 ^ length d"
  using be_num_bound [OF dec_digits_bound, of d] by (simp add: dec_num_def)

text \<open>The digit the loops read at distance \<open>i\<close> from the right, zero past the left end.\<close>

lemma digit_at:
  assumes "is_dec d"
  shows "(if i < length d then digit (d ! (length d - 1 - i)) else 0) = int (dec_num d div 10 ^ i mod 10)"
proof (cases "i < length d")
  case True
  then have "nat (digit (d ! (length d - 1 - i))) = dec_num d div 10 ^ i mod 10"
    using be_num_digit [OF dec_digits_bound [OF assms], of i] by (simp add: dec_num_def)
  moreover have "0 \<le> digit (d ! (length d - 1 - i))"
    using True by (intro digit_bounds is_dec_nth [OF assms]) simp
  ultimately show ?thesis using True by (simp add: nat_eq_iff)
next
  case False
  then show ?thesis
    using be_num_div_ge [OF dec_digits_bound [OF assms], of i] by (simp add: dec_num_def)
qed

lemma dec_num_div_ge: "is_dec d \<Longrightarrow> length d \<le> i \<Longrightarrow> dec_num d div 10 ^ i = 0"
  using be_num_div_ge [OF dec_digits_bound, of d i] by (simp add: dec_num_def)

lemma dec_num_take: "is_dec d \<Longrightarrow> k \<le> length d \<Longrightarrow> dec_num (take (length d - k) d) = dec_num d div 10 ^ k"
  using be_num_take [OF dec_digits_bound, of d k] by (simp add: dec_num_def take_map)

section \<open>Stripping zeros\<close>

lemma dec_strip_num [simp]: "dec_num (dec_strip d) = dec_num d"
  by (induction d rule: dec_strip.induct) simp_all

lemma dec_strip_is_dec [simp]: "is_dec d \<Longrightarrow> is_dec (dec_strip d)"
  by (induction d rule: dec_strip.induct) simp_all

lemma dec_strip_Nil [simp]: "dec_strip d = [] \<longleftrightarrow> d = []"
  by (induction d rule: dec_strip.induct) simp_all

lemma dec_strip_canon: "is_dec d \<Longrightarrow> d \<noteq> [] \<Longrightarrow> canon (dec_strip d)"
  by (induction d rule: dec_strip.induct) (simp_all add: canon_def)

lemma dec_strip_id: "canon d \<Longrightarrow> dec_strip d = d"
  by (cases d rule: dec_strip.cases) (auto simp: canon_def)

text \<open>A canonical decimal has as many digits as its number needs.\<close>

lemma canon_lower:
  assumes "canon d" "d \<noteq> ''0''"
  shows "10 ^ (length d - 1) \<le> dec_num d"
proof -
  obtain c e where d: "d = c # e" using assms(1) by (cases d) (auto simp: canon_def)
  with assms have "is_digit c" "c \<noteq> CHR ''0''" by (auto simp: canon_def)
  then have "0 \<le> digit c" "digit c \<noteq> 0" using digit_bounds(1) [of c] by simp_all
  then have "1 \<le> nat (digit c)" by linarith
  then have "1 * 10 ^ length e \<le> nat (digit c) * 10 ^ length e" by (rule mult_le_mono1)
  then have "10 ^ length e \<le> nat (digit c) * 10 ^ length e + dec_num e" by linarith
  then show ?thesis using d by simp
qed

lemma canon_0 [simp]: "canon ''0''"
  by (simp add: canon_def)

lemma canon_zero_iff: "canon d \<Longrightarrow> dec_num d = 0 \<longleftrightarrow> d = ''0''"
proof (cases "d = ''0''")
  case False
  assume "canon d"
  then have "10 ^ (length d - 1) \<le> dec_num d" using False by (rule canon_lower)
  moreover have "(0::nat) < 10 ^ (length d - 1)" by simp
  ultimately show ?thesis using False by linarith
qed simp

lemma canon_length:
  assumes "canon a" "canon b" "length a < length b"
  shows "dec_num a < dec_num b"
proof -
  have "a \<noteq> []" using assms(1) by (simp add: canon_def)
  then have b0: "b \<noteq> ''0''" using assms(3) by auto
  have "dec_num a < 10 ^ length a" using assms(1) by (simp add: canon_def dec_num_bound)
  also have "\<dots> \<le> 10 ^ (length b - 1)" using assms(3) by simp
  also have "\<dots> \<le> dec_num b" by (rule canon_lower [OF assms(2) b0])
  finally show ?thesis .
qed

lemma is_dec_inj: "is_dec a \<Longrightarrow> is_dec b \<Longrightarrow> length a = length b \<Longrightarrow> dec_num a = dec_num b \<Longrightarrow> a = b"
proof (induction a arbitrary: b)
  case Nil
  then show ?case by simp
next
  case (Cons c a)
  obtain c' b' where b: "b = c' # b'" using Cons.prems(3) by (cases b) auto
  have len: "length b' = length a" using Cons.prems(3) b by simp
  have dec: "is_dec a" "is_dec b'" "is_digit c" "is_digit c'" using Cons.prems(1,2) b by simp_all
  have lt: "dec_num a < 10 ^ length a" "dec_num b' < 10 ^ length a"
    using dec_num_bound [OF dec(1)] dec_num_bound [OF dec(2)] unfolding len .
  have eq: "nat (digit c) * 10 ^ length a + dec_num a = nat (digit c') * 10 ^ length a + dec_num b'"
    using Cons.prems(4) unfolding b dec_num_simps len .
  have "(nat (digit c) * 10 ^ length a + dec_num a) div 10 ^ length a = nat (digit c)"
    using lt(1) by simp
  moreover have "(nat (digit c') * 10 ^ length a + dec_num b') div 10 ^ length a = nat (digit c')"
    using lt(2) by simp
  ultimately have n: "nat (digit c) = nat (digit c')" by (simp only: eq)
  have "digit c = digit c'" using n dec(3,4) digit_bounds(1) [of c] digit_bounds(1) [of c'] by linarith
  then have "c = c'" by (rule digit_inj)
  moreover have "dec_num a = dec_num b'" using eq by (simp only: n add_left_cancel)
  then have "a = b'" using dec len by (intro Cons.IH) simp_all
  ultimately show ?case using b by simp
qed

lemma canon_inj:
  assumes "canon a" "canon b" "dec_num a = dec_num b"
  shows "a = b"
proof -
  have "length a = length b"
    using canon_length [OF assms(1,2)] canon_length [OF assms(2,1)] assms(3) by (metis linorder_neqE_nat less_irrefl)
  then show ?thesis using assms is_dec_inj by (simp add: canon_def)
qed

section \<open>Comparison\<close>

lemma digit_of_char:
  assumes "is_digit a"
  shows "digit a = int (of_char a) - 48"
proof -
  have n: "int (of_char a) < 256" by simp
  show ?thesis
  proof (cases "128 \<le> int (of_char a)")
    case True
    then have "digit a = int (of_char a) - 256 - 48" by (simp add: digit_def char_val_def Let_def)
    then show ?thesis using n assms unfolding is_digit_def by linarith
  next
    case False
    then show ?thesis by (simp add: digit_def char_val_def Let_def)
  qed
qed

lemma char_digit_less: "is_digit a \<Longrightarrow> is_digit b \<Longrightarrow> (of_char a :: nat) < of_char b \<longleftrightarrow> digit a < digit b"
  by (simp add: digit_of_char)

text \<open>On digit strings of one length the byte order is the order of the numbers.\<close>

lemma str_compare_num:
  "is_dec a \<Longrightarrow> is_dec b \<Longrightarrow> length a = length b \<Longrightarrow>
     str_compare a b = (if dec_num a < dec_num b then - 1 else if dec_num b < dec_num a then 1 else 0)"
proof (induction a b rule: str_compare.induct)
  case (4 c a d b)
  have dec: "is_digit c" "is_digit d" "is_dec a" "is_dec b" and len: "length b = length a" using 4 by simp_all
  have lt: "dec_num a < 10 ^ length a" "dec_num b < 10 ^ length a"
    using dec_num_bound [OF dec(3)] dec_num_bound [OF dec(4)] unfolding len .
  have step: "digit x < digit y \<Longrightarrow> is_digit x \<Longrightarrow> m < 10 ^ length a \<Longrightarrow>
      nat (digit x) * 10 ^ length a + m < nat (digit y) * 10 ^ length a + n" for x y and m n :: nat
  proof -
    assume h: "digit x < digit y" "is_digit x" "m < 10 ^ length a"
    then have "Suc (nat (digit x)) \<le> nat (digit y)" using digit_bounds(1) [of x] by linarith
    then have "Suc (nat (digit x)) * 10 ^ length a \<le> nat (digit y) * 10 ^ length a" by (rule mult_le_mono1)
    then show ?thesis using h(3) by simp
  qed
  consider "digit c < digit d" | "digit d < digit c" | "c = d" using digit_inj by (metis linorder_neqE_linordered_idom)
  then show ?case
  proof cases
    case 1
    then show ?thesis
      using step [OF 1 dec(1) lt(1), of "dec_num b"] dec by (simp add: char_digit_less len)
  next
    case 2
    then show ?thesis
      using step [OF 2 dec(2) lt(2), of "dec_num a"] dec by (simp add: char_digit_less len)
  next
    case 3
    then show ?thesis using "4.IH" dec len by simp
  qed
qed simp_all

theorem dec_cmp_sign:
  "canon a \<Longrightarrow> canon b \<Longrightarrow>
     dec_cmp a b = (if dec_num a < dec_num b then - 1 else if dec_num b < dec_num a then 1 else 0)"
  using canon_length [of a b] canon_length [of b a] str_compare_num [of a b]
  by (auto simp: dec_cmp_def canon_def Let_def)

interpretation decimal: three_way dec_cmp "\<lambda>d. int (dec_num d)" canon
  by unfold_locales (simp_all add: dec_cmp_sign)

lemma TWO128_num: "dec_num TWO128 = 2 ^ 128" "canon TWO128"
  by (simp_all add: TWO128_def canon_def is_digit_def digit_def char_val_def)

lemma below_2_128_num: "canon m \<Longrightarrow> below_2_128 m \<longleftrightarrow> dec_num m < 2 ^ 128"
  using decimal.cmp_lt_iff [of m TWO128] by (simp add: below_2_128_def TWO128_num)

section \<open>Addition and subtraction\<close>

lemma sum_step_aux:
  "x = 10 * qx + rx \<Longrightarrow> y = 10 * qy + ry \<Longrightarrow> c + rx + ry = 10 * q + r \<Longrightarrow>
     c + x + y = 10 * (q + qx + qy) + (r :: nat)"
  by simp

lemma digit_sum_step:
  fixes A B c :: nat
  assumes "x = A div 10 ^ i" "y = B div 10 ^ i"
  shows "c + x + y = 10 * ((c + x mod 10 + y mod 10) div 10 + A div 10 ^ Suc i + B div 10 ^ Suc i)
           + (c + x mod 10 + y mod 10) mod 10"
proof -
  have "A div 10 ^ Suc i = x div 10" "B div 10 ^ Suc i = y div 10"
    using assms by (simp_all only: div_power_Suc)
  then show ?thesis
    using sum_step_aux [of x "x div 10" "x mod 10" y "y div 10" "y mod 10" c
        "(c + x mod 10 + y mod 10) div 10" "(c + x mod 10 + y mod 10) mod 10"]
    by (simp only: mult_div_mod_eq)
qed

lemma dec_add_loop_num:
  assumes "is_dec a" "is_dec b" "0 \<le> c" "is_dec r" "i = length r"
  shows "is_dec (dec_add_loop a b i c r) \<and>
    dec_num (rev (dec_add_loop a b i c r))
      = dec_num (rev r) + 10 ^ i * (nat c + dec_num a div 10 ^ i + dec_num b div 10 ^ i)"
  using assms
proof (induction a b i c r rule: dec_add_loop.induct)
  case (1 a b i c r)
  obtain x y where x: "x = dec_num a div 10 ^ i" and y: "y = dec_num b div 10 ^ i" by blast
  obtain s where s: "s = c + (if i < length a then digit (a ! (length a - 1 - i)) else 0)
              + (if i < length b then digit (b ! (length b - 1 - i)) else 0)" by blast
  have loop: "dec_add_loop a b i c r =
      (if i < max (length a) (length b) \<or> c \<noteq> 0
       then dec_add_loop a b (Suc i) (s sdiv 10) (r @ [digit_char (s smod 10)]) else r)"
    unfolding s by (subst dec_add_loop.simps) (simp only: Let_def)
  show ?case
  proof (cases "i < max (length a) (length b) \<or> c \<noteq> 0")
    case False
    then have "dec_num a div 10 ^ i = 0" "dec_num b div 10 ^ i = 0"
      using "1.prems" by (auto intro: dec_num_div_ge)
    then show ?thesis using False "1.prems"(3,4) loop by simp
  next
    case True
    obtain S where S: "S = nat c + x mod 10 + y mod 10" by blast
    have "s = c + int (x mod 10) + int (y mod 10)"
      unfolding s x y by (simp only: digit_at [OF "1.prems"(1)] digit_at [OF "1.prems"(2)])
    then have sS: "s = int S" using "1.prems"(3) S by simp
    have m: "s smod 10 = int (S mod 10)" and d: "s sdiv 10 = int (S div 10)"
      unfolding sS by (simp_all add: smod10_nonneg sdiv10_nonneg zmod_int zdiv_int)
    have dg: "digit (digit_char (s smod 10)) = int (S mod 10)" "is_digit (digit_char (s smod 10))"
      unfolding m by (rule digit_digit_char is_digit_digit_char; simp)+
    let ?r = "r @ [digit_char (s smod 10)]"
    have r: "is_dec ?r" "Suc i = length ?r" using "1.prems"(4,5) dg by simp_all
    have IH: "is_dec (dec_add_loop a b (Suc i) (s sdiv 10) ?r) \<and>
      dec_num (rev (dec_add_loop a b (Suc i) (s sdiv 10) ?r))
        = dec_num (rev ?r) + 10 ^ Suc i * (nat (s sdiv 10) + dec_num a div 10 ^ Suc i + dec_num b div 10 ^ Suc i)"
      by (rule "1.IH" [OF True s "1.prems"(1,2) _ r]) (simp add: d)
    have "nat c + x + y = 10 * (S div 10 + dec_num a div 10 ^ Suc i + dec_num b div 10 ^ Suc i) + S mod 10"
      unfolding S by (rule digit_sum_step [OF x y])
    then have e1: "10 ^ i * (nat c + x + y)
        = 10 ^ Suc i * (S div 10 + dec_num a div 10 ^ Suc i + dec_num b div 10 ^ Suc i) + 10 ^ i * (S mod 10)"
      by (simp only: distrib_left power_Suc2 mult.assoc)
    have e2: "dec_num (rev ?r) = 10 ^ i * (S mod 10) + dec_num (rev r)"
      using dg(1) "1.prems"(5) by (simp add: mult.commute)
    have e4: "nat (s sdiv 10) = S div 10" by (simp only: d nat_int)
    show ?thesis
      using IH True unfolding loop e2 e4 x [symmetric] y [symmetric] e1
      by (simp only: if_True add.commute add.left_commute add.assoc)
  qed
qed

lemma dec_add_loop_length: "length r \<le> length (dec_add_loop a b i c r)"
proof (induction a b i c r rule: dec_add_loop.induct)
  case (1 a b i c r)
  then show ?case
    by (subst dec_add_loop.simps) (fastforce simp: Let_def)
qed

lemma dec_add_loop_Nil: "a \<noteq> [] \<Longrightarrow> dec_add_loop a b 0 0 [] \<noteq> []"
proof -
  assume "a \<noteq> []"
  then have "dec_add_loop a b 0 0 [] = (let s = 0 + digit (a ! (length a - 1 - 0))
      + (if 0 < length b then digit (b ! (length b - 1 - 0)) else 0)
      in dec_add_loop a b (Suc 0) (s sdiv 10) ([] @ [digit_char (s smod 10)]))"
    by (subst dec_add_loop.simps) (simp add: Let_def)
  then show ?thesis
    using dec_add_loop_length [of "[digit_char _]" a b "Suc 0"] by (metis append_Nil length_0_conv length_Cons not_less_eq_eq le0)
qed

theorem dec_add_num:
  assumes "is_dec a" "is_dec b"
  shows "dec_num (dec_add a b) = dec_num a + dec_num b"
  using dec_add_loop_num [OF assms, of 0 "[]" 0] by (simp add: dec_add_def)

lemma dec_add_canon: "is_dec a \<Longrightarrow> is_dec b \<Longrightarrow> a \<noteq> [] \<Longrightarrow> canon (dec_add a b)"
  using dec_add_loop_num [of a b 0 "[]" 0] dec_add_loop_Nil [of a b]
  by (simp add: dec_add_def dec_strip_canon)

lemma sub_step_aux:
  "X = 10 * q1 + rx \<Longrightarrow> Y = 10 * q2 + ry \<Longrightarrow> t = s + 10 * w \<Longrightarrow> s = rx - c - ry \<Longrightarrow>
     X - Y - c = 10 * (q1 - q2 - w) + (t :: int)"
  by simp

lemma dec_sub_loop_num:
  assumes "is_dec a" "is_dec b" "c = 0 \<or> c = 1" "is_dec r" "i = length r" "i \<le> length a"
  shows "is_dec (dec_sub_loop a b i c r) \<and> length (dec_sub_loop a b i c r) = length a \<and>
    (\<exists>w \<in> {0, 1}. int (dec_num (rev (dec_sub_loop a b i c r))) - 10 ^ length a * w
      = int (dec_num (rev r))
        + 10 ^ i * (int (dec_num a div 10 ^ i) - int (dec_num b div 10 ^ i) - c)
        + 10 ^ length a * int (dec_num b div 10 ^ length a))"
  using assms
proof (induction a b i c r rule: dec_sub_loop.induct)
  case (1 a b i c r)
  obtain x y where x: "x = dec_num a div 10 ^ i" and y: "y = dec_num b div 10 ^ i" by blast
  obtain s where s: "s = digit (a ! (length a - 1 - i)) - c
              - (if i < length b then digit (b ! (length b - 1 - i)) else 0)" by blast
  have loop: "dec_sub_loop a b i c r =
      (if i < length a
       then dec_sub_loop a b (Suc i) (if s < 0 then 1 else 0) (r @ [digit_char ((s + 10) smod 10)]) else r)"
    unfolding s by (subst dec_sub_loop.simps) (simp only: Let_def)
  show ?case
  proof (cases "i < length a")
    case False
    then have i: "i = length a" using "1.prems"(6) by simp
    then have "dec_num a div 10 ^ i = 0" using "1.prems"(1) by (simp add: dec_num_div_ge)
    then show ?thesis using False "1.prems" loop i by (auto simp: algebra_simps)
  next
    case True
    let ?c = "if s < 0 then 1 else (0::int)"
    obtain t where t: "t = (s + 10) mod 10" by blast
    have "s = int (x mod 10) - c - int (y mod 10)"
      using True unfolding s x y
      by (simp only: digit_at [OF "1.prems"(1), symmetric] digit_at [OF "1.prems"(2), symmetric] if_True)
    moreover have "int (x mod 10) \<le> 9" "int (y mod 10) \<le> 9" by simp_all
    ultimately have sb: "- 10 \<le> s" "s \<le> 9" using "1.prems"(3) by linarith+
    have "t = s + 10 * ?c"
    proof (cases "s < 0")
      case True
      then show ?thesis using sb mod_pos_pos_trivial [of "s + 10" 10] t by (simp del: mod_add_self2)
    next
      case False
      then show ?thesis using sb t by simp
    qed
    then have st: "t = s + 10 * ?c" "0 \<le> t" "t \<le> 9" using sb by auto
    have m: "(s + 10) smod 10 = t" unfolding t using sb by (simp add: smod10_nonneg)
    have dg: "digit (digit_char ((s + 10) smod 10)) = t" "is_digit (digit_char ((s + 10) smod 10))"
      unfolding m using st by (simp_all add: digit_digit_char is_digit_digit_char)
    let ?r = "r @ [digit_char ((s + 10) smod 10)]"
    have r: "is_dec ?r" "Suc i = length ?r" "Suc i \<le> length a" using "1.prems"(4,5) dg True by simp_all
    note IH = "1.IH" [OF True s "1.prems"(1,2) _ r]
    have split: "int z = 10 * int (n div 10 ^ Suc i) + int (z mod 10)" if "z = n div 10 ^ i" for z n
    proof -
      have "z = 10 * (n div 10 ^ Suc i) + z mod 10"
        unfolding that by (simp only: div_power_Suc mult_div_mod_eq)
      from arg_cong [OF this, of int] show ?thesis by (simp only: of_nat_add of_nat_mult of_nat_numeral)
    qed
    note split [OF x] split [OF y]
    then have "int x - int y - c
        = 10 * (int (dec_num a div 10 ^ Suc i) - int (dec_num b div 10 ^ Suc i) - ?c) + t"
      using st(1) \<open>s = int (x mod 10) - c - int (y mod 10)\<close> by (rule sub_step_aux)
    then have e1: "10 ^ i * (int x - int y - c)
        = 10 ^ Suc i * (int (dec_num a div 10 ^ Suc i) - int (dec_num b div 10 ^ Suc i) - ?c) + 10 ^ i * t"
      by (simp only: distrib_left power_Suc2 mult.assoc)
    have e2: "int (dec_num (rev ?r)) = 10 ^ i * t + int (dec_num (rev r))"
      using dg(1) st(2) "1.prems"(5) by (simp add: mult.commute)
    show ?thesis
      using IH True unfolding loop e2 x [symmetric] y [symmetric] e1
      by (simp add: add.commute add.left_commute add.assoc)
  qed
qed

text \<open>Subtraction is exact where the source asks for it: the minuend is at least the subtrahend.\<close>

theorem dec_sub_num:
  assumes "is_dec a" "is_dec b" "dec_num b \<le> dec_num a"
  shows "dec_num (dec_sub a b) = dec_num a - dec_num b"
proof -
  let ?l = "dec_sub_loop a b 0 0 []"
  have a: "dec_num a < 10 ^ length a" by (rule dec_num_bound [OF assms(1)])
  then have "dec_num b div 10 ^ length a = 0" using assms(3) by simp
  then have "is_dec ?l \<and> length ?l = length a \<and> (\<exists>w \<in> {0, 1}. int (dec_num (rev ?l)) - 10 ^ length a * w
      = int (dec_num a) - int (dec_num b))"
    using dec_sub_loop_num [OF assms(1,2), of 0 "[]" 0] by simp
  then obtain w where w: "w \<in> {0, 1::int}" "is_dec ?l" "length ?l = length a"
      "int (dec_num (rev ?l)) - 10 ^ length a * w = int (dec_num a) - int (dec_num b)"
    by blast
  have "dec_num (rev ?l) < 10 ^ length a" using dec_num_bound [of "rev ?l"] w(2,3) by simp
  then have "int (dec_num (rev ?l)) < 10 ^ length a" by (metis of_nat_less_iff of_nat_numeral of_nat_power)
  moreover have "int (dec_num b) \<le> int (dec_num a)" using assms(3) by (simp only: of_nat_le_iff)
  ultimately have "w \<noteq> 1" using w(4) by (metis diff_ge_0_iff_ge diff_less_0_iff_less mult_1_right not_less)
  then have "w = 0" using w(1) by simp
  then show ?thesis using w(4) assms(3) by (simp add: dec_sub_def)
qed

lemma dec_sub_canon: "is_dec a \<Longrightarrow> is_dec b \<Longrightarrow> a \<noteq> [] \<Longrightarrow> canon (dec_sub a b)"
  using dec_sub_loop_num [of a b 0 "[]" 0] by (auto simp: dec_sub_def intro!: dec_strip_canon)

section \<open>Powers of ten, shifts, trailing zeros\<close>

lemma dec_pow10_num [simp]: "dec_num (dec_pow10 k) = 10 ^ k" "canon (dec_pow10 k)"
  by (simp_all add: dec_pow10_def canon_def)

lemma dec_shift_num [simp]: "dec_num (dec_shift d k) = dec_num d * 10 ^ k"
  by (simp add: dec_shift_def)

lemma dec_shift_canon [simp]: "canon d \<Longrightarrow> canon (dec_shift d k)"
  by (cases d) (auto simp: dec_shift_def canon_def)

lemma strip_trailing_len_le: "strip_trailing_len d n \<le> n"
  by (induction n) auto

lemma strip_trailing_len_pos: "0 < n \<Longrightarrow> 0 < strip_trailing_len d n"
  by (induction n) auto

lemma strip_trailing_zeros:
  "n \<le> length d \<Longrightarrow> take n d = take (strip_trailing_len d n) d @ replicate (n - strip_trailing_len d n) (CHR ''0'')"
proof (induction n)
  case 0
  then show ?case by simp
next
  case (Suc n)
  have le: "strip_trailing_len d n \<le> n" by (rule strip_trailing_len_le)
  then have "replicate (Suc n - strip_trailing_len d n) (CHR ''0'')
      = replicate (n - strip_trailing_len d n) (CHR ''0'') @ [CHR ''0'']"
    by (metis Suc_diff_le replicate_Suc replicate_append_same)
  then show ?case using Suc by (auto simp: take_Suc_conv_app_nth)
qed

lemma strip_trailing_last:
  "0 < n \<Longrightarrow> n \<le> length d \<Longrightarrow> 1 < strip_trailing_len d n \<Longrightarrow> d ! (strip_trailing_len d n - 1) \<noteq> CHR ''0''"
  by (induction n) (auto split: if_splits)

text \<open>Taking the trailing zeros off divides by the power of ten they stand for.\<close>

theorem dec_strip_trailing_num:
  "dec_num d = dec_num (dec_strip_trailing d) * 10 ^ (length d - length (dec_strip_trailing d))"
proof -
  have "dec_num d = dec_num (take (length d) d)" by simp
  also have "\<dots> = dec_num (take (strip_trailing_len d (length d)) d)
      * 10 ^ (length d - strip_trailing_len d (length d))"
    by (subst strip_trailing_zeros) simp_all
  finally show ?thesis
    using strip_trailing_len_le [of d "length d"] by (simp add: dec_strip_trailing_def)
qed

section \<open>Decimals of machine integers\<close>

lemma dec_of_nat_num: "dec_num (dec_of_nat n) = n \<and> canon (dec_of_nat n) \<and> (dec_of_nat n = ''0'' \<longleftrightarrow> n = 0)"
proof (induction n rule: dec_of_nat.induct)
  case (1 n)
  show ?case
  proof (cases "n < 10")
    case True
    then have n: "digit (digit_char (int n)) = int n" "is_digit (digit_char (int n))"
      by (simp_all add: digit_digit_char is_digit_digit_char)
    then have "digit_char (int n) = CHR ''0'' \<longleftrightarrow> n = 0" by (metis digit_eq_0 of_nat_eq_0_iff)
    moreover have "dec_of_nat n = [digit_char (int n)]" using True by (subst dec_of_nat.simps) simp
    ultimately show ?thesis using n by (cases "n = 0") (simp_all add: canon_def)
  next
    case False
    have n: "digit (digit_char (int (n mod 10))) = int (n mod 10)" "is_digit (digit_char (int (n mod 10)))"
      by (rule digit_digit_char is_digit_digit_char; simp)+
    have IH: "dec_num (dec_of_nat (n div 10)) = n div 10" "canon (dec_of_nat (n div 10))"
        "dec_of_nat (n div 10) \<noteq> ''0''"
      using "1.IH" [OF False] False by auto
    have eq: "dec_of_nat n = dec_of_nat (n div 10) @ [digit_char (int (n mod 10))]"
      using False by (subst dec_of_nat.simps) simp
    have "canon (dec_of_nat n)" unfolding eq using IH(2,3) n(2) by (cases "dec_of_nat (n div 10)") (auto simp: canon_def)
    moreover have "dec_num (dec_of_nat n) = n" unfolding eq using IH(1) n(1) by simp
    moreover have "dec_of_nat n \<noteq> ''0''" unfolding eq using IH(2) by (auto simp: canon_def)
    ultimately show ?thesis using False by simp
  qed
qed

section \<open>The buffer and the decimal are inverse\<close>

lemma length_buf_mul10_add [simp]: "length (fst (buf_mul10_add bs c)) = length bs"
  by (induction bs) (auto simp: Let_def split_beta)

lemma buf_num_simps [simp]:
  "buf_num [] = 0" "buf_num (b # bs) = unat b * 256 ^ length bs + buf_num bs"
  "buf_num (replicate n 0) = 0"
  by (simp_all add: buf_num_def map_replicate)

lemma buf_mul10_add_num:
  assumes "0 \<le> c" "c < 256"
  shows "0 \<le> snd (buf_mul10_add bs c) \<and> snd (buf_mul10_add bs c) < 256 \<and>
    snd (buf_mul10_add bs c) * 256 ^ length bs + int (buf_num (fst (buf_mul10_add bs c))) = 10 * int (buf_num bs) + c"
proof (induction bs)
  case Nil
  then show ?case using assms by simp
next
  case (Cons b bs)
  obtain r k where p: "buf_mul10_add bs c = (r, k)" by fastforce
  have k: "0 \<le> k" "k < 256" and IH: "k * 256 ^ length bs + int (buf_num r) = 10 * int (buf_num bs) + c"
    and len: "length r = length bs"
    using Cons p length_buf_mul10_add [of bs c] by simp_all
  obtain x where x: "x = uint b * 10 + k" by blast
  have b: "0 \<le> uint b" "uint b < 256" using unsigned_less [of b, where 'a = int] by simp_all
  have xb: "0 \<le> x" "x < 256 * 256" unfolding x using b k by linarith+
  have u: "uint (word_of_int x :: u8) = x mod 256"
    by (simp add: uint_word_of_int)
  have "x div 256 * 256 + x mod 256 = uint b * 10 + k" unfolding x by simp
  then have "(x div 256 * 256 + x mod 256) * 256 ^ length bs = uint b * 10 * 256 ^ length bs + k * 256 ^ length bs"
    by (simp only: distrib_right)
  then have e: "x div 256 * (256 * 256 ^ length bs) + (x mod 256 * 256 ^ length bs + int (buf_num r))
      = 10 * (uint b * 256 ^ length bs + int (buf_num bs)) + c"
    using IH by (simp only: distrib_right distrib_left mult.assoc mult.left_commute add.assoc)
  have "buf_mul10_add (b # bs) c = (word_of_int x # r, x div 256)"
    using p x by (simp add: Let_def)
  moreover have "0 \<le> x div 256" "x div 256 < 256" using xb by linarith+
  ultimately show ?case using e u len by simp
qed

lemma dec_to_buf_loop_num:
  assumes "is_dec d"
  shows "length (snd (dec_to_buf_loop d buf)) = length buf \<and>
    (fst (dec_to_buf_loop d buf) \<longleftrightarrow> buf_num buf * 10 ^ length d + dec_num d < 256 ^ length buf) \<and>
    (fst (dec_to_buf_loop d buf) \<longrightarrow>
       buf_num (snd (dec_to_buf_loop d buf)) = buf_num buf * 10 ^ length d + dec_num d)"
  using assms
proof (induction d arbitrary: buf)
  case Nil
  then show ?case using buf_num_bound [of buf] by simp
next
  case (Cons ch d)
  obtain r k where p: "buf_mul10_add buf (digit ch) = (r, k)" by fastforce
  have dig: "0 \<le> digit ch" "digit ch \<le> 9" using Cons.prems by (simp_all add: digit_bounds)
  have len: "length r = length buf" using p length_buf_mul10_add [of buf "digit ch"] by simp
  have k: "0 \<le> k" and e: "k * 256 ^ length buf + int (buf_num r) = 10 * int (buf_num buf) + digit ch"
    using buf_mul10_add_num [of "digit ch" buf] dig p by simp_all
  obtain n where n: "n = 10 * buf_num buf + nat (digit ch)" by blast
  have tot: "buf_num buf * 10 ^ length (ch # d) + dec_num (ch # d) = n * 10 ^ length d + dec_num d"
    unfolding n by (simp add: distrib_right)
  have en: "nat k * 256 ^ length buf + buf_num r = n"
  proof -
    have "int (nat k * 256 ^ length buf + buf_num r) = int n" unfolding n using e k dig by simp
    then show ?thesis by (simp only: of_nat_eq_iff)
  qed
  show ?case
  proof (cases "k = 0")
    case True
    then have "n = buf_num r" using en by simp
    then show ?thesis using Cons.IH [of r] Cons.prems p True len unfolding tot by simp
  next
    case False
    then have "1 \<le> nat k" using k by linarith
    then have "1 * 256 ^ length buf \<le> nat k * 256 ^ length buf" by (rule mult_le_mono1)
    then have "256 ^ length buf \<le> n" using en by linarith
    moreover have "n * 1 \<le> n * 10 ^ length d" by (rule mult_le_mono2) simp
    ultimately have "\<not> n * 10 ^ length d + dec_num d < 256 ^ length buf" by linarith
    then show ?thesis using p False len unfolding tot by simp
  qed
qed

text \<open>The conversion succeeds exactly below \<open>2 ^ 136\<close> and then holds the number.\<close>

theorem dec_to_buf_spec:
  assumes "is_dec d"
  shows "fst (dec_to_buf d) \<longleftrightarrow> dec_num d < 2 ^ 136"
    and "fst (dec_to_buf d) \<Longrightarrow> buf_num (snd (dec_to_buf d)) = dec_num d"
    and "length (snd (dec_to_buf d)) = DB_NUMERIC_BUF_SIZE"
  using dec_to_buf_loop_num [OF assms, of "replicate DB_NUMERIC_BUF_SIZE 0"]
  by (simp_all add: dec_to_buf_def DB_NUMERIC_BUF_SIZE_def)

lemma buf_to_dec_loop_num:
  "is_dec r \<Longrightarrow> is_dec (buf_to_dec_loop b r) \<and> buf_to_dec_loop b r \<noteq> [] \<and>
     dec_num (rev (buf_to_dec_loop b r)) = dec_num (rev r) + 10 ^ length r * buf_num b"
proof (induction b r rule: buf_to_dec_loop.induct)
  case (1 b r)
  obtain q m where p: "buf_divmod10 b 0 = (q, m)" by fastforce
  have m: "m < 10" and e: "10 * buf_num q + m = buf_num b"
    using buf_divmod10_num [of 0 b] p by simp_all
  have dg: "digit (digit_char (int m)) = int m" "is_digit (digit_char (int m))"
    using m by (simp_all add: digit_digit_char is_digit_digit_char)
  have step: "dec_num (rev (r @ [digit_char (int m)])) + 10 ^ length (r @ [digit_char (int m)]) * buf_num q
      = dec_num (rev r) + 10 ^ length r * buf_num b"
    using dg(1) e [symmetric] by (simp add: algebra_simps)
  have loop: "buf_to_dec_loop b r = (if buf_zero q then r @ [digit_char (int m)]
      else buf_to_dec_loop q (r @ [digit_char (int m)]))"
    by (subst buf_to_dec_loop.simps) (simp add: p Let_def)
  show ?case
  proof (cases "buf_zero q")
    case True
    then show ?thesis using loop step dg "1.prems" by (simp add: buf_zero_iff)
  next
    case False
    have "is_dec (r @ [digit_char (int m)])" using dg "1.prems" by simp
    then show ?thesis using "1.IH" [OF p [symmetric] refl refl False] loop False step by simp
  qed
qed

theorem buf_to_dec_num: "dec_num (buf_to_dec b) = buf_num b" "canon (buf_to_dec b)"
  using buf_to_dec_loop_num [of "[]" b] by (simp_all add: buf_to_dec_def dec_strip_canon)

lemma dec_to_buf_read_back:
  assumes "canon d" "dec_num d < 2 ^ 136"
  shows "fst (dec_to_buf d) \<and> buf_to_dec (snd (dec_to_buf d)) = d"
proof -
  have d: "is_dec d" using assms(1) by (simp add: canon_def)
  have "fst (dec_to_buf d)" using assms(2) dec_to_buf_spec(1) [OF d] by simp
  then have "dec_num (buf_to_dec (snd (dec_to_buf d))) = dec_num d"
    by (simp add: buf_to_dec_num dec_to_buf_spec(2) [OF d])
  then show ?thesis
    using \<open>fst (dec_to_buf d)\<close> canon_inj [OF buf_to_dec_num(2) assms(1)] by simp
qed

text \<open>C29. Reading a buffer back gives the decimal it was made from.\<close>

theorem decimal_buffer_roundtrip:
  assumes "canon d" "dec_num d < 2 ^ 136"
  shows "fst (dec_to_buf d) \<and> buf_to_dec (snd (dec_to_buf d)) = d"
  by (rule dec_to_buf_read_back [OF assms])

theorem decimal_buffer_roundtrip_witness:
  "buf_to_dec (snd (dec_to_buf ''340282366920938463463374607431768211456'')) = TWO128"
  using decimal_buffer_roundtrip [of TWO128] by (simp add: TWO128_num) (simp add: TWO128_def)

end
