(* ===== verification/NumericOracle.thy ===== *)
theory NumericOracle
  imports Decimal Complex_Main
begin

text \<open>
  The NUMERIC oracle of \<^verbatim>\<open>unit/query/numeric_opfunc.exact_paths/test.cpp\<close>: values
  made from decimal parts, their exact order, the model of the engine's old ROUND / TRUNC / FLOOR /
  CEIL, the inputs the fast paths promise to take, and the grids of values the cases run over. The
  engine's NUMERIC constructor and reader are parameters; its limits are the constants the source's
  comments state.
\<close>

section \<open>Constants of the engine\<close>

definition DB_MAX_NUMERIC_PRECISION :: nat where "DB_MAX_NUMERIC_PRECISION = 40"
definition DB_MIN_NUMERIC_SCALE :: int where "DB_MIN_NUMERIC_SCALE = - 214"

datatype er_id = NO_ERROR | ER_IT_DATA_OVERFLOW | ER_OTHER int

section \<open>Values\<close>

text \<open>\<open>'v\<close> is the engine's \<open>DB_VALUE\<close>.\<close>

record 'v numv =
  nv_name :: string
  nv_mag :: string
  nv_p :: int
  nv_s :: int
  nv_neg :: bool
  nv_is_float :: bool
  nv_v :: 'v
  nv_sign :: int
  nv_exp10 :: int
  nv_digits :: string

definition numv_name :: "string \<Rightarrow> int \<Rightarrow> int \<Rightarrow> bool \<Rightarrow> bool \<Rightarrow> string" where
  "numv_name mag p s neg is_float =
     (if neg then ''-'' else '''') @ mag @ ''e'' @ to_string (- s) @ '' (p'' @ to_string p
       @ (if is_float then '' float)'' else '' fixed)'')"

text \<open>
  \<open>mk\<close> is \<open>db_make_numeric\<close>: the return code, the error id afterwards and the value;
  \<open>rd\<close> is \<open>db_get_numeric_precision_and_scale\<close>. A failed \<open>REQUIRE\<close> aborts the
  case: \<open>None\<close>.
\<close>

definition make_num ::
    "(u8 list \<Rightarrow> int \<Rightarrow> int \<Rightarrow> bool \<Rightarrow> bool \<Rightarrow> er_id \<times> er_id \<times> 'v) \<Rightarrow> ('v \<Rightarrow> int \<times> int \<times> bool) \<Rightarrow>
     string \<Rightarrow> int \<Rightarrow> int \<Rightarrow> bool \<Rightarrow> bool \<Rightarrow> 'v numv option" where
  "make_num mk rd mag_in p s neg_in is_float =
     (let mag = dec_strip mag_in;
          neg = (neg_in \<and> mag \<noteq> ''0'');
          (ok, buf) = dec_to_buf mag
      in if \<not> ok then None
         else
           (let (rc, er, v) = mk buf p s neg is_float
            in if rc \<noteq> NO_ERROR \<or> er \<noteq> NO_ERROR \<or> rd v \<noteq> (p, s, is_float) then None
               else Some
                 \<lparr>nv_name = numv_name mag p s neg is_float, nv_mag = mag, nv_p = p, nv_s = s,
                  nv_neg = neg, nv_is_float = is_float, nv_v = v,
                  nv_sign = (if mag = ''0'' then 0 else if neg then - 1 else 1),
                  nv_exp10 = int (length mag) - s,
                  nv_digits = dec_strip_trailing mag\<rparr>))"

text \<open>What \<open>make_num\<close> establishes: the oracle's keys follow from the decimal parts.\<close>

definition numv_ok :: "'v numv \<Rightarrow> bool" where
  "numv_ok n \<longleftrightarrow> canon (nv_mag n) \<and> (nv_neg n \<longrightarrow> nv_mag n \<noteq> ''0'') \<and>
     nv_sign n = (if nv_mag n = ''0'' then 0 else if nv_neg n then - 1 else 1) \<and>
     nv_exp10 n = int (length (nv_mag n)) - nv_s n \<and>
     nv_digits n = dec_strip_trailing (nv_mag n)"

text \<open>The number a NUMERIC stands for.\<close>

definition num_value :: "bool \<Rightarrow> string \<Rightarrow> int \<Rightarrow> real" where
  "num_value neg mag s = (if neg then - 1 else 1) * real (dec_num mag) * 10 powi (- s)"

definition value_of :: "'v numv \<Rightarrow> real" where
  "value_of n = num_value (nv_neg n) (nv_mag n) (nv_s n)"

section \<open>The exact order\<close>

definition exact_order :: "'v numv \<Rightarrow> 'v numv \<Rightarrow> int" where
  "exact_order a b =
     (if nv_sign a \<noteq> nv_sign b then (if nv_sign a < nv_sign b then - 1 else 1)
      else if nv_sign a = 0 then 0
      else
        (let c = (if nv_exp10 a \<noteq> nv_exp10 b then (if nv_exp10 a < nv_exp10 b then - 1 else 1)
                  else (let x = str_compare (nv_digits a) (nv_digits b)
                        in if x < 0 then - 1 else if 0 < x then 1 else 0))
         in if nv_sign a < 0 then - c else c))"

section \<open>Results\<close>

datatype db_type = DB_TYPE_NUMERIC | DB_TYPE_OTHER int

record num_out =
  no_rc :: er_id
  no_er :: er_id
  no_type :: db_type
  no_is_null :: bool
  no_is_float :: bool
  no_neg :: bool
  no_p :: int
  no_s :: int
  no_mag :: string

definition num_out_zero :: num_out where
  "num_out_zero = \<lparr>no_rc = NO_ERROR, no_er = NO_ERROR, no_type = DB_TYPE_OTHER 0, no_is_null = False,
     no_is_float = False, no_neg = False, no_p = 0, no_s = 0, no_mag = ''''\<rparr>"

definition read_out ::
    "('v \<Rightarrow> db_type) \<Rightarrow> ('v \<Rightarrow> bool) \<Rightarrow> ('v \<Rightarrow> int \<times> int \<times> bool) \<Rightarrow> ('v \<Rightarrow> bool) \<Rightarrow> ('v \<Rightarrow> u8 list) \<Rightarrow>
     er_id \<Rightarrow> er_id \<Rightarrow> 'v \<Rightarrow> num_out" where
  "read_out type_of is_null prec_scale is_neg locate rc er r =
     (let o1 = num_out_zero\<lparr>no_rc := rc, no_er := er\<rparr>
      in if rc \<noteq> NO_ERROR then o1
         else
           (let o2 = o1\<lparr>no_type := type_of r, no_is_null := is_null r\<rparr>
            in if no_type o2 \<noteq> DB_TYPE_NUMERIC \<or> no_is_null o2 then o2
               else
                 (let (p, s, f) = prec_scale r
                  in o2\<lparr>no_p := p, no_s := s, no_is_float := f, no_neg := is_neg r,
                        no_mag := buf_to_dec (locate r)\<rparr>)))"

definition same_out :: "num_out \<Rightarrow> num_out \<Rightarrow> bool" where
  "same_out a b =
     (if no_rc a \<noteq> no_rc b \<or> no_er a \<noteq> no_er b then False
      else if no_rc a \<noteq> NO_ERROR then True
      else no_type a = no_type b \<and> no_is_null a = no_is_null b \<and> no_is_float a = no_is_float b \<and>
        no_neg a = no_neg b \<and> no_p a = no_p b \<and> no_s a = no_s b \<and> no_mag a = no_mag b)"

section \<open>The engine's old ROUND, TRUNC, FLOOR and CEIL\<close>

text \<open>\<open>twice\<close> is \<open>TWICE_NUM_MAX_PREC\<close>, the length of the engine's decimal string.\<close>

definition develop_round :: "nat \<Rightarrow> 'v numv \<Rightarrow> int \<Rightarrow> bool \<Rightarrow> num_out" where
  "develop_round twice n place half_up =
     (let o1 = num_out_zero\<lparr>no_type := DB_TYPE_NUMERIC\<rparr>
      in if nv_s n < place
         then o1\<lparr>no_is_float := nv_is_float n, no_p := nv_p n, no_s := nv_s n, no_neg := nv_neg n,
                 no_mag := nv_mag n\<rparr>
         else
           (let cleared = nv_s n - place;
                len_str = int twice + (if nv_neg n then 1 else 0);
                mag = nv_mag n;
                len = int (length mag);
                finish = (\<lambda>m p s. o1\<lparr>no_is_float := True, no_p := p, no_s := s,
                                      no_neg := (nv_neg n \<and> m \<noteq> ''0''), no_mag := m\<rparr>)
            in if len_str < cleared then finish ''0'' (nv_p n) (nv_s n)
               else if cleared = 0 then finish mag (nv_p n) (nv_s n)
               else
                 (let first = (if cleared \<le> len then digit (mag ! nat (len - cleared)) else 0);
                      m = (if cleared < len
                           then dec_strip (take (nat (len - cleared)) mag @ replicate (nat cleared) (CHR ''0''))
                           else ''0'')
                  in if half_up \<and> 5 \<le> first
                     then
                       (let m1 = dec_add m (dec_pow10 (nat cleared))
                        in if DB_MAX_NUMERIC_PRECISION < length m1
                           then
                             (let s = nv_s n - 1; m2 = take (length m1 - 1) m1
                              in if s < DB_MIN_NUMERIC_SCALE
                                 then o1\<lparr>no_rc := ER_IT_DATA_OVERFLOW, no_er := ER_IT_DATA_OVERFLOW\<rparr>
                                 else finish m2 (int DB_MAX_NUMERIC_PRECISION) s)
                           else finish m1 (nv_p n) (nv_s n))
                     else finish m (nv_p n) (nv_s n))))"

text \<open>The nines at the right end of the integral part, which a carry passes through.\<close>

fun count_nines :: "string \<Rightarrow> nat" where
  "count_nines [] = 0"
| "count_nines (c # cs) = (if c = CHR ''9'' then Suc (count_nines cs) else 0)"

definition develop_floor_ceil :: "'v numv \<Rightarrow> bool \<Rightarrow> num_out" where
  "develop_floor_ceil n is_floor =
     (let o1 = num_out_zero\<lparr>no_type := DB_TYPE_NUMERIC, no_is_float := True, no_p := nv_p n\<rparr>
      in if nv_s n \<le> 0
         then o1\<lparr>no_s := nv_s n, no_neg := nv_neg n, no_mag := nv_mag n\<rparr>
         else
           (let s0 = nv_s n;
                s_out = (if int DB_MAX_NUMERIC_PRECISION < s0 then int DB_MAX_NUMERIC_PRECISION - 1 else s0);
                mag = nv_mag n;
                len = int (length mag);
                integral = (if s0 < len then take (nat (len - s0)) mag else ''0'');
                fraction = list_ex (\<lambda>c. c \<noteq> CHR ''0'') (drop (nat (max 0 (len - s0))) mag);
                away = (fraction \<and> (if is_floor then nv_neg n else \<not> nv_neg n));
                d = s_out + int (count_nines (rev integral));
                p = (if away \<and> nv_p n \<le> d then min (d + 1) (int DB_MAX_NUMERIC_PRECISION) else nv_p n);
                m = (if away then dec_shift (dec_add integral ''1'') (nat s_out)
                     else if integral = ''0'' then ''0'' else dec_shift integral (nat s0))
            in o1\<lparr>no_p := p, no_s := s_out, no_neg := (nv_neg n \<and> m \<noteq> ''0''), no_mag := m\<rparr>))"

section \<open>The inputs the fast paths promise to take\<close>

definition round_taken :: "'v numv \<Rightarrow> int \<Rightarrow> bool \<Rightarrow> bool" where
  "round_taken n place half_up =
     (if \<not> below_2_128 (nv_mag n) \<or> nv_s n < 0 then False
      else if nv_s n < place \<or> place < nv_s n - 38 then True
      else
        (let cleared = nat (nv_s n - place); len = length (nv_mag n)
         in if \<not> half_up \<or> cleared = 0 \<or> len < cleared then True
            else
              (let first = digit (nv_mag n ! (len - cleared))
               in if first < 5 then True
                  else
                    (let trunc = (if cleared < len
                                  then dec_strip (take (len - cleared) (nv_mag n) @ replicate cleared (CHR ''0''))
                                  else ''0'')
                     in below_2_128 (dec_add trunc (dec_pow10 cleared))))))"

definition floor_ceil_taken :: "'v numv \<Rightarrow> bool \<Rightarrow> bool" where
  "floor_ceil_taken n is_floor =
     (if \<not> below_2_128 (nv_mag n) \<or> nv_s n < 1 \<or> 38 < nv_s n then False
      else below_2_128 (no_mag (develop_floor_ceil n is_floor)))"

section \<open>Forms and grids\<close>

text \<open>
  The forms the engine gives a coefficient at a scale; \<open>None\<close> when a \<open>REQUIRE\<close> of
  \<open>make_num\<close> fails. \<open>mkn\<close> is \<open>make_num\<close> with the engine's functions.
\<close>

type_synonym 'v maker = "string \<Rightarrow> int \<Rightarrow> int \<Rightarrow> bool \<Rightarrow> bool \<Rightarrow> 'v numv option"

definition push_num :: "'v numv option \<Rightarrow> 'v numv list option \<Rightarrow> 'v numv list option" where
  "push_num n out = (case out of None \<Rightarrow> None | Some xs \<Rightarrow> (case n of None \<Rightarrow> None | Some x \<Rightarrow> Some (xs @ [x])))"

definition add_forms_signed :: "'v maker \<Rightarrow> string \<Rightarrow> int \<Rightarrow> bool \<Rightarrow> 'v numv list option \<Rightarrow> 'v numv list option" where
  "add_forms_signed mkn mag s neg out0 =
     (let digits = int (length (dec_strip mag))
      in if neg \<and> dec_strip mag = ''0'' then out0
         else
           (let out1 = (if digits \<le> int DB_MAX_NUMERIC_PRECISION
                        then push_num (mkn mag (max 1 digits) s neg True) out0 else out0);
                p_min = max (max digits s) 1;
                out2 = (if 0 \<le> s \<and> p_min \<le> 38 then push_num (mkn mag p_min s neg False) out1 else out1)
            in if 0 \<le> s \<and> s \<le> 38 \<and> digits \<le> 38 \<and> p_min \<noteq> 38
               then push_num (mkn mag 38 s neg False) out2 else out2))"

definition add_forms :: "'v maker \<Rightarrow> 'v numv list option \<Rightarrow> string \<Rightarrow> int \<Rightarrow> bool \<Rightarrow> 'v numv list option" where
  "add_forms mkn out mag s both_signs =
     fold (add_forms_signed mkn mag s) (if both_signs then [False, True] else [False]) out"

section \<open>The exact order is the order of the numbers\<close>

text \<open>The fraction \<open>0.d1d2...\<close>\<close>

definition dec_frac :: "string \<Rightarrow> real" where
  "dec_frac d = real (dec_num d) / 10 ^ length d"

definition no_trailing_zero :: "string \<Rightarrow> bool" where
  "no_trailing_zero d \<longleftrightarrow> (d \<noteq> [] \<longrightarrow> last d \<noteq> CHR ''0'')"

lemma dec_frac_Cons: "is_digit c \<Longrightarrow> dec_frac (c # d) = (real_of_int (digit c) + dec_frac d) / 10"
  by (simp add: dec_frac_def field_simps is_digit_def)

lemma dec_frac_bounds: "is_dec d \<Longrightarrow> 0 \<le> dec_frac d \<and> dec_frac d < 1"
proof -
  assume "is_dec d"
  then have "dec_num d < 10 ^ length d" by (rule dec_num_bound)
  then have "real (dec_num d) < real (10 ^ length d)" by (simp only: of_nat_less_iff)
  then show ?thesis by (simp add: dec_frac_def)
qed

lemma dec_frac_pos: "is_dec d \<Longrightarrow> no_trailing_zero d \<Longrightarrow> d \<noteq> [] \<Longrightarrow> 0 < dec_frac d"
proof (induction d)
  case Nil
  then show ?case by simp
next
  case (Cons c d)
  have c: "is_digit c" "0 \<le> digit c" using Cons.prems(1) by (auto simp: digit_bounds)
  show ?case
  proof (cases "d = []")
    case True
    then have "digit c \<noteq> 0" using Cons.prems(2) by (simp add: no_trailing_zero_def)
    then have "0 < digit c" using c(2) by linarith
    then show ?thesis using True c by (simp add: dec_frac_Cons dec_frac_def [of "[]"])
  next
    case False
    then have "0 < dec_frac d" using Cons by (simp add: no_trailing_zero_def)
    then show ?thesis using c by (simp add: dec_frac_Cons)
  qed
qed

lemma str_compare_frac:
  "is_dec x \<Longrightarrow> is_dec y \<Longrightarrow> no_trailing_zero x \<Longrightarrow> no_trailing_zero y \<Longrightarrow>
     str_compare x y = (if dec_frac x < dec_frac y then - 1 else if dec_frac y < dec_frac x then 1 else 0)"
proof (induction x y rule: str_compare.induct)
  case 1
  then show ?case by simp
next
  case (2 d y)
  then show ?case using dec_frac_pos [of "d # y"] by (simp add: dec_frac_def [of "[]"])
next
  case (3 c x)
  then show ?case using dec_frac_pos [of "c # x"] by (simp add: dec_frac_def [of "[]"])
next
  case (4 c x d y)
  have dec: "is_digit c" "is_digit d" "is_dec x" "is_dec y" using "4.prems" by simp_all
  note fx = dec_frac_bounds [OF dec(3)] and fy = dec_frac_bounds [OF dec(4)]
  have tz: "no_trailing_zero x" "no_trailing_zero y" using "4.prems" by (auto simp: no_trailing_zero_def)
  consider "digit c < digit d" | "digit d < digit c" | "c = d"
    using digit_inj by (metis linorder_neqE_linordered_idom)
  then show ?case
  proof cases
    case 1
    then have "real_of_int (digit c) + 1 \<le> real_of_int (digit d)" by simp
    then show ?thesis using 1 dec fx fy by (simp add: char_digit_less dec_frac_Cons)
  next
    case 2
    then have "real_of_int (digit d) + 1 \<le> real_of_int (digit c)" by simp
    then show ?thesis using 2 dec fx fy by (simp add: char_digit_less dec_frac_Cons)
  next
    case 3
    then show ?thesis using "4.IH" dec tz by (simp add: dec_frac_Cons)
  qed
qed

lemma strip_trailing_no_zero:
  assumes "canon m" "m \<noteq> ''0''"
  shows "no_trailing_zero (dec_strip_trailing m) \<and> is_dec (dec_strip_trailing m) \<and> hd (dec_strip_trailing m) = hd m
    \<and> dec_strip_trailing m \<noteq> []"
proof -
  let ?n = "strip_trailing_len m (length m)"
  have m: "m \<noteq> []" "is_dec m" "hd m \<noteq> CHR ''0''" using assms by (auto simp: canon_def)
  then have n: "0 < ?n" "?n \<le> length m" by (simp_all add: strip_trailing_len_pos strip_trailing_len_le)
  then have ne: "dec_strip_trailing m \<noteq> []" using m by (simp add: dec_strip_trailing_def)
  have "last (dec_strip_trailing m) = m ! (?n - 1)"
    using n ne by (simp add: dec_strip_trailing_def last_conv_nth)
  also have "\<dots> \<noteq> CHR ''0''"
  proof (cases "1 < ?n")
    case True
    then show ?thesis using strip_trailing_last [of "length m" m] m(1) by simp
  next
    case False
    then have "?n - 1 = 0" by simp
    then show ?thesis using m by (simp add: hd_conv_nth)
  qed
  finally show ?thesis
    using ne m n by (auto simp: no_trailing_zero_def dec_strip_trailing_def hd_take)
qed

text \<open>The magnitude of a value is its fraction scaled by its decimal exponent.\<close>

lemma magnitude_frac:
  assumes "numv_ok n"
  shows "real (dec_num (nv_mag n)) * 10 powi (- nv_s n) = dec_frac (nv_digits n) * 10 powi (nv_exp10 n)"
proof -
  let ?m = "nv_mag n" and ?d = "nv_digits n"
  have d: "?d = dec_strip_trailing ?m" and e: "nv_exp10 n = int (length ?m) - nv_s n"
    using assms by (simp_all add: numv_ok_def)
  have len: "length ?d \<le> length ?m"
    using strip_trailing_len_le [of ?m "length ?m"] by (simp add: d dec_strip_trailing_def)
  have "real (dec_num ?m) = real (dec_num ?d) * 10 ^ (length ?m - length ?d)"
    by (subst dec_strip_trailing_num) (simp add: d)
  also have "\<dots> = dec_frac ?d * (10 ^ length ?d * 10 ^ (length ?m - length ?d))"
    by (simp add: dec_frac_def)
  also have "\<dots> = dec_frac ?d * 10 ^ length ?m"
    using len by (simp add: power_add [symmetric])
  finally have "real (dec_num ?m) * 10 powi (- nv_s n) = dec_frac ?d * (10 powi (int (length ?m)) * 10 powi (- nv_s n))"
    by simp
  also have "\<dots> = dec_frac ?d * 10 powi (nv_exp10 n)"
    unfolding e by (simp add: power_int_add [symmetric] del: power_int_of_nat)
  finally show ?thesis .
qed

lemma frac_tenth:
  assumes "canon m" "m \<noteq> ''0''"
  shows "1 / 10 \<le> dec_frac (dec_strip_trailing m)"
proof -
  let ?d = "dec_strip_trailing m"
  have d: "is_dec ?d" "?d \<noteq> []" "hd ?d \<noteq> CHR ''0''"
    using strip_trailing_no_zero [OF assms] assms by (auto simp: canon_def)
  then obtain c e where ce: "?d = c # e" by (cases ?d) auto
  have c: "is_digit c" "is_dec e" "digit c \<noteq> 0" using d unfolding ce by simp_all
  then have "1 \<le> digit c" using digit_bounds(1) [OF c(1)] by linarith
  then have "1 \<le> real_of_int (digit c)" by simp
  then show ?thesis unfolding ce using c(1) dec_frac_bounds [OF c(2)] by (simp add: dec_frac_Cons)
qed

lemma magnitude_less:
  assumes "numv_ok a" "numv_ok b" "nv_mag a \<noteq> ''0''" "nv_mag b \<noteq> ''0''" "nv_exp10 a < nv_exp10 b"
  shows "real (dec_num (nv_mag a)) * 10 powi (- nv_s a) < real (dec_num (nv_mag b)) * 10 powi (- nv_s b)"
proof -
  have a: "canon (nv_mag a)" "nv_digits a = dec_strip_trailing (nv_mag a)"
    and b: "canon (nv_mag b)" "nv_digits b = dec_strip_trailing (nv_mag b)"
    using assms(1,2) by (simp_all add: numv_ok_def)
  have "dec_frac (nv_digits a) < 1"
    using dec_frac_bounds strip_trailing_no_zero [OF a(1) assms(3)] a(2) by simp
  then have "dec_frac (nv_digits a) * 10 powi nv_exp10 a < 1 * 10 powi nv_exp10 a" by simp
  also have "\<dots> \<le> 1 * 10 powi (nv_exp10 b - 1)" using assms(5) by (simp add: power_int_increasing)
  also have "\<dots> = (1 / 10) * 10 powi nv_exp10 b" by (simp add: power_int_diff)
  also have "\<dots> \<le> dec_frac (nv_digits b) * 10 powi nv_exp10 b"
    using frac_tenth [OF b(1) assms(4)] b(2) by (intro mult_right_mono) auto
  finally show ?thesis by (simp add: magnitude_frac [OF assms(1)] magnitude_frac [OF assms(2)])
qed

definition magnitude :: "'v numv \<Rightarrow> real" where
  "magnitude n = real (dec_num (nv_mag n)) * 10 powi (- nv_s n)"

lemma magnitude_order:
  assumes "numv_ok a" "numv_ok b" "nv_mag a \<noteq> ''0''" "nv_mag b \<noteq> ''0''"
  shows "(if nv_exp10 a \<noteq> nv_exp10 b then (if nv_exp10 a < nv_exp10 b then - 1 else 1)
          else (let x = str_compare (nv_digits a) (nv_digits b) in if x < 0 then - 1 else if 0 < x then 1 else 0))
       = (if magnitude a < magnitude b then - 1 else if magnitude a = magnitude b then 0 else (1::int))"
proof (cases "nv_exp10 a = nv_exp10 b")
  case False
  then show ?thesis
    using magnitude_less [of a b] magnitude_less [of b a] assms unfolding magnitude_def
    by (cases "nv_exp10 a < nv_exp10 b") auto
next
  case True
  have "nv_digits a = dec_strip_trailing (nv_mag a)" "nv_digits b = dec_strip_trailing (nv_mag b)"
    "canon (nv_mag a)" "canon (nv_mag b)" using assms(1,2) by (simp_all add: numv_ok_def)
  then have "str_compare (nv_digits a) (nv_digits b)
      = (if dec_frac (nv_digits a) < dec_frac (nv_digits b) then - 1
         else if dec_frac (nv_digits b) < dec_frac (nv_digits a) then 1 else 0)"
    using assms(3,4) strip_trailing_no_zero by (intro str_compare_frac) auto
  then show ?thesis
    using True unfolding magnitude_def magnitude_frac [OF assms(1)] magnitude_frac [OF assms(2)]
    by (auto simp: Let_def)
qed

lemma magnitude_pos: "numv_ok n \<Longrightarrow> nv_mag n \<noteq> ''0'' \<Longrightarrow> 0 < magnitude n"
  using canon_zero_iff [of "nv_mag n"] by (simp add: numv_ok_def magnitude_def zero_less_mult_iff)

lemma value_of_magnitude: "value_of n = (if nv_neg n then - magnitude n else magnitude n)"
  by (simp add: value_of_def num_value_def magnitude_def)

lemma exact_order_sign:
  assumes "numv_ok a" "numv_ok b"
  shows "exact_order a b = (if value_of a < value_of b then - 1 else if value_of a = value_of b then 0 else 1)"
proof -
  have z: "magnitude n = 0" if "numv_ok n" "nv_mag n = ''0''" for n :: "'a numv"
    using that by (simp add: magnitude_def)
  show ?thesis
    using assms z [of a] z [of b] magnitude_pos [of a] magnitude_pos [of b] magnitude_order [of a b]
    unfolding exact_order_def value_of_magnitude
    by (cases "nv_mag a = ''0''"; cases "nv_mag b = ''0''"; cases "nv_neg a"; cases "nv_neg b")
      (simp_all add: numv_ok_def Let_def)
qed

interpretation exact: three_way exact_order value_of numv_ok
  by unfold_locales (simp_all add: exact_order_sign)

lemma make_num_ok: "make_num mk rd m p s neg fl = Some n \<Longrightarrow> is_dec m \<Longrightarrow> m \<noteq> [] \<Longrightarrow> numv_ok n"
  by (auto simp: make_num_def numv_ok_def Let_def split_beta dec_strip_canon split: if_splits prod.splits)

section \<open>Rounding\<close>

lemma dec_num_digit_first:
  assumes "is_dec m" "0 < k" "k \<le> length m"
  shows "digit (m ! (length m - k)) = int (dec_num m div 10 ^ (k - 1) mod 10)"
  using digit_at [OF assms(1), of "k - 1"] assms(2,3) by (simp split: if_splits)

text \<open>Clearing the lowest \<open>k\<close> digits.\<close>

lemma cleared_num:
  assumes "canon m" "0 < k" "k < length m"
  shows "dec_num (dec_strip (take (length m - k) m @ replicate k (CHR ''0''))) = dec_num m div 10 ^ k * 10 ^ k"
    and "canon (dec_strip (take (length m - k) m @ replicate k (CHR ''0'')))"
proof -
  have m: "is_dec m" "m \<noteq> []" using assms(1) by (simp_all add: canon_def)
  show "dec_num (dec_strip (take (length m - k) m @ replicate k (CHR ''0''))) = dec_num m div 10 ^ k * 10 ^ k"
    using m assms dec_num_take [of m k] by simp
  show "canon (dec_strip (take (length m - k) m @ replicate k (CHR ''0'')))"
    using m assms by (intro dec_strip_canon) auto
qed

text \<open>Half up: the first cleared digit decides.\<close>

lemma half_up_digit:
  assumes "0 < k"
  shows "5 \<le> (M div 10 ^ (k - 1) mod 10 :: nat) \<longleftrightarrow> 5 * 10 ^ (k - 1) \<le> M mod 10 ^ k"
proof -
  obtain j where k: "k = Suc j" using assms by (cases k) auto
  have e: "M mod 10 ^ k = M div 10 ^ j mod 10 * 10 ^ j + M mod 10 ^ j"
    unfolding k power_Suc2 mod_mult2_eq by (simp only: mult.commute)
  moreover have "M mod 10 ^ j < 10 ^ j" by simp
  ultimately show ?thesis
  proof (cases "5 \<le> M div 10 ^ j mod 10")
    case True
    then have "5 * 10 ^ j \<le> M div 10 ^ j mod 10 * 10 ^ j" by (rule mult_le_mono1)
    then have "5 * 10 ^ j \<le> M mod 10 ^ k" unfolding e by (rule trans_le_add1)
    then show ?thesis using True k by simp
  next
    case False
    then have "Suc (M div 10 ^ j mod 10) \<le> 5" by simp
    then have "Suc (M div 10 ^ j mod 10) * 10 ^ j \<le> 5 * 10 ^ j" by (rule mult_le_mono1)
    then have "M div 10 ^ j mod 10 * 10 ^ j + 10 ^ j \<le> 5 * 10 ^ j" by (simp only: mult_Suc add.commute)
    then have "M mod 10 ^ k < 5 * 10 ^ j" using e \<open>M mod 10 ^ j < 10 ^ j\<close> by linarith
    then show ?thesis using False k by simp
  qed
qed

text \<open>The number the oracle's rounding aims at, in units of the last kept digit.\<close>

definition rounded :: "nat \<Rightarrow> nat \<Rightarrow> bool \<Rightarrow> nat" where
  "rounded M k half_up =
     (if half_up \<and> 0 < k then (M + 5 * 10 ^ (k - 1)) div 10 ^ k else M div 10 ^ k) * 10 ^ k"

lemma rounded_half:
  assumes "0 < k"
  shows "rounded M k True = M div 10 ^ k * 10 ^ k + (if 5 \<le> M div 10 ^ (k - 1) mod 10 then 10 ^ k else 0)"
proof -
  obtain j where k: "k = Suc j" using assms by (cases k) auto
  have lt: "M mod 10 ^ k < 10 ^ k" and j: "(10::nat) ^ k = 2 * (5 * 10 ^ j)" by (simp_all add: k)
  have "(M + 5 * 10 ^ j) div 10 ^ k = (M mod 10 ^ k + 5 * 10 ^ j + M div 10 ^ k * 10 ^ k) div 10 ^ k"
    by (metis add.assoc add.commute mod_div_mult_eq)
  also have "\<dots> = (M mod 10 ^ k + 5 * 10 ^ j) div 10 ^ k + M div 10 ^ k"
    by (subst div_mult_self1) simp_all
  also have "(M mod 10 ^ k + 5 * 10 ^ j) div 10 ^ k = (if 5 * 10 ^ j \<le> M mod 10 ^ k then 1 else 0)"
  proof (cases "5 * 10 ^ j \<le> M mod 10 ^ k")
    case True
    have "M mod 10 ^ k + 5 * 10 ^ j < 2 * 10 ^ k" using lt j by linarith
    moreover have "10 ^ k \<le> M mod 10 ^ k + 5 * 10 ^ j" using True j by linarith
    ultimately have "(M mod 10 ^ k + 5 * 10 ^ j) div 10 ^ k = 1"
      by (intro div_nat_eqI) simp_all
    then show ?thesis using True by simp
  next
    case False
    then have "M mod 10 ^ k + 5 * 10 ^ j < 10 ^ k" using j by linarith
    then show ?thesis using False by simp
  qed
  finally show ?thesis
    using half_up_digit [OF assms, of M] k by (simp add: rounded_def distrib_right)
qed

lemma rounded_zero:
  assumes "M < 10 ^ (k - 1)" "0 < k"
  shows "rounded M k h = 0"
proof -
  have "(10::nat) ^ (k - 1) \<le> 10 ^ k" by simp
  then have "M < 10 ^ k" using assms(1) by linarith
  then have "M div 10 ^ k = 0" "M div 10 ^ (k - 1) = 0" using assms(1) by simp_all
  then show ?thesis using rounded_half [OF assms(2), of M] by (cases h) (simp_all add: rounded_def)
qed

text \<open>Dropping the last digit of a canonical decimal that ends in zero.\<close>

lemma drop_last_zero:
  assumes "canon m" "10 dvd dec_num m" "1 < length m"
  shows "dec_num (take (length m - 1) m) * 10 = dec_num m" "canon (take (length m - 1) m)"
proof -
  have "dec_num (take (length m - 1) m) = dec_num m div 10 ^ 1"
    using assms by (intro dec_num_take) (simp_all add: canon_def)
  then show "dec_num (take (length m - 1) m) * 10 = dec_num m" using assms(2) by simp
  show "canon (take (length m - 1) m)"
    using assms(1,3) by (cases m) (auto simp: canon_def take_Cons')
qed

lemma ten_dvd_rounded: "0 < k \<Longrightarrow> 10 dvd rounded M k h"
  by (cases k) (simp_all add: rounded_def)

text \<open>The truncated coefficient, the digit that decides and the coefficient after a round up.\<close>

definition trunc_mag :: "string \<Rightarrow> nat \<Rightarrow> string" where
  "trunc_mag m k = (if k < length m then dec_strip (take (length m - k) m @ replicate k (CHR ''0'')) else ''0'')"

definition first_cleared :: "string \<Rightarrow> nat \<Rightarrow> int" where
  "first_cleared m k = (if k \<le> length m then digit (m ! (length m - k)) else 0)"

definition up_mag :: "string \<Rightarrow> nat \<Rightarrow> string" where
  "up_mag m k = dec_add (trunc_mag m k) (dec_pow10 k)"

lemma trunc_mag_num:
  assumes "canon m" "0 < k"
  shows "canon (trunc_mag m k) \<and> dec_num (trunc_mag m k) = dec_num m div 10 ^ k * 10 ^ k"
proof -
  have "dec_num m div 10 ^ k = 0" if "\<not> k < length m"
    using that dec_num_div_ge [of m k] assms(1) by (simp add: canon_def)
  then show ?thesis using cleared_num [OF assms] by (auto simp: trunc_mag_def)
qed

lemma first_cleared_num:
  assumes "canon m" "0 < k"
  shows "5 \<le> first_cleared m k \<longleftrightarrow> 5 \<le> dec_num m div 10 ^ (k - 1) mod 10"
proof (cases "k \<le> length m")
  case True
  then show ?thesis using dec_num_digit_first [of m k] assms by (simp add: first_cleared_def canon_def)
next
  case False
  then have "dec_num m div 10 ^ (k - 1) = 0" using assms(1) by (intro dec_num_div_ge) (simp_all add: canon_def)
  then show ?thesis using False by (simp add: first_cleared_def)
qed

lemma up_mag_num:
  assumes "canon m" "0 < k"
  shows "canon (up_mag m k) \<and> dec_num (up_mag m k) = dec_num (trunc_mag m k) + 10 ^ k"
proof -
  have "is_dec (trunc_mag m k)" "trunc_mag m k \<noteq> []" using trunc_mag_num [OF assms] by (simp_all add: canon_def)
  moreover have "is_dec (dec_pow10 k)" using dec_pow10_num(2) [of k] by (simp add: canon_def)
  ultimately show ?thesis by (simp add: up_mag_def dec_add_num dec_add_canon)
qed

lemma rounded_mag:
  assumes "canon m" "0 < k"
  shows "rounded (dec_num m) k h = dec_num (if h \<and> 5 \<le> first_cleared m k then up_mag m k else trunc_mag m k)"
  using trunc_mag_num [OF assms] up_mag_num [OF assms] first_cleared_num [OF assms] rounded_half [OF assms(2)]
  by (cases h) (auto simp: rounded_def)

definition finish_round :: "'v numv \<Rightarrow> string \<Rightarrow> int \<Rightarrow> int \<Rightarrow> num_out" where
  "finish_round n m p s = num_out_zero\<lparr>no_type := DB_TYPE_NUMERIC, no_is_float := True, no_p := p, no_s := s,
     no_neg := (nv_neg n \<and> m \<noteq> ''0''), no_mag := m\<rparr>"

text \<open>The branches of the rounding, by the number \<open>k\<close> of digits it clears.\<close>

lemma develop_round_far:
  assumes "place \<le> nv_s n" "int twice + (if nv_neg n then 1 else 0) < nv_s n - place"
  shows "develop_round twice n place h = finish_round n ''0'' (nv_p n) (nv_s n)"
  using assms by (simp add: develop_round_def finish_round_def Let_def)

lemma develop_round_same:
  assumes "\<not> int twice + (if nv_neg n then 1 else 0) < nv_s n - nv_s n"
  shows "develop_round twice n (nv_s n) h = finish_round n (nv_mag n) (nv_p n) (nv_s n)"
  using assms by (simp add: develop_round_def finish_round_def Let_def)

lemma develop_round_near:
  assumes "place < nv_s n" "\<not> int twice + (if nv_neg n then 1 else 0) < nv_s n - place"
    and k: "k = nat (nv_s n - place)"
  shows "develop_round twice n place h =
     (if h \<and> 5 \<le> first_cleared (nv_mag n) k
      then if DB_MAX_NUMERIC_PRECISION < length (up_mag (nv_mag n) k)
           then if nv_s n - 1 < DB_MIN_NUMERIC_SCALE
                then num_out_zero\<lparr>no_type := DB_TYPE_NUMERIC, no_rc := ER_IT_DATA_OVERFLOW, no_er := ER_IT_DATA_OVERFLOW\<rparr>
                else finish_round n (take (length (up_mag (nv_mag n) k) - 1) (up_mag (nv_mag n) k))
                       (int DB_MAX_NUMERIC_PRECISION) (nv_s n - 1)
           else finish_round n (up_mag (nv_mag n) k) (nv_p n) (nv_s n)
      else finish_round n (trunc_mag (nv_mag n) k) (nv_p n) (nv_s n))"
proof -
  have e: "nat (int (length (nv_mag n)) - (nv_s n - place)) = length (nv_mag n) - k" using assms(1) k by simp
  have c: "(nv_s n - place \<le> int (length (nv_mag n))) = (k \<le> length (nv_mag n))"
    "(nv_s n - place < int (length (nv_mag n))) = (k < length (nv_mag n))"
    "nv_s n - place \<noteq> 0" "\<not> nv_s n < place" using assms(1) k by auto
  show ?thesis
    using assms(2) c(3,4)
    unfolding develop_round_def Let_def finish_round_def up_mag_def trunc_mag_def first_cleared_def
    by (simp only: e c(1,2) k [symmetric] if_False)
qed

text \<open>What a finished rounding holds, also when the scale gives up its last digit.\<close>

definition rounds_to :: "'v numv \<Rightarrow> nat \<Rightarrow> num_out \<Rightarrow> bool" where
  "rounds_to n R r \<longleftrightarrow> canon (no_mag r) \<and> no_neg r = (nv_neg n \<and> no_mag r \<noteq> ''0'') \<and>
     (\<exists>j. no_s r = nv_s n - int j \<and> dec_num (no_mag r) * 10 ^ j = R)"

lemma rounds_to_finish: "canon m \<Longrightarrow> dec_num m * 10 ^ j = R \<Longrightarrow> s = nv_s n - int j \<Longrightarrow> rounds_to n R (finish_round n m p s)"
  by (auto simp: rounds_to_def finish_round_def)

lemma develop_round_num:
  assumes n: "numv_ok n" and place: "place \<le> nv_s n" and len: "length (nv_mag n) \<le> twice"
    and ok: "no_rc (develop_round twice n place h) = NO_ERROR"
  shows "rounds_to n (rounded (dec_num (nv_mag n)) (nat (nv_s n - place)) h) (develop_round twice n place h)"
proof -
  let ?m = "nv_mag n" and ?k = "nat (nv_s n - place)"
  have m: "canon ?m" "is_dec ?m" using n by (auto simp: numv_ok_def canon_def)
  consider "int twice + (if nv_neg n then 1 else 0) < nv_s n - place"
    | "place = nv_s n" "\<not> int twice + (if nv_neg n then 1 else 0) < nv_s n - place"
    | "place < nv_s n" "\<not> int twice + (if nv_neg n then 1 else 0) < nv_s n - place" using place by linarith
  then show ?thesis
  proof cases
    case 1
    then have "length ?m \<le> ?k - 1" "0 < ?k" using len by (auto split: if_splits)
    then have "rounded (dec_num ?m) ?k h = 0"
      using dec_num_bound [OF m(2)] power_increasing [of "length ?m" "?k - 1" "10::nat"]
      by (intro rounded_zero) linarith+
    then show ?thesis using develop_round_far [OF place 1] by (simp add: rounds_to_finish [of _ 0])
  next
    case 2
    then show ?thesis using develop_round_same [of twice n h] m by (simp add: rounds_to_finish [of _ 0] rounded_def)
  next
    case 3
    then have k: "0 < ?k" by simp
    note near = develop_round_near [OF 3 refl, of h] and R = rounded_mag [OF m(1) k, of h]
    note t = trunc_mag_num [OF m(1) k] and u = up_mag_num [OF m(1) k]
    show ?thesis
    proof (cases "h \<and> 5 \<le> first_cleared ?m ?k")
      case False
      then show ?thesis unfolding near R if_not_P [OF False] using t by (intro rounds_to_finish [of _ 0]) simp_all
    next
      case up: True
      have "10 dvd dec_num (up_mag ?m ?k)" using ten_dvd_rounded [OF k, of "dec_num ?m" h] unfolding R if_P [OF up] .
      note long = drop_last_zero [OF _ this]
      show ?thesis
        using ok u long unfolding near R if_P [OF up]
        by (auto simp: DB_MAX_NUMERIC_PRECISION_def intro: rounds_to_finish [of _ 0] rounds_to_finish [of _ 1] split: if_splits)
    qed
  qed
qed

lemma rounded_bounds:
  assumes "R = rounded M k True"
  shows "2 * M < 2 * R + 10 ^ k" "2 * R \<le> 2 * M + 10 ^ k" "10 ^ k dvd R"
proof -
  have "2 * M < 2 * R + 10 ^ k \<and> 2 * R \<le> 2 * M + 10 ^ k"
  proof (cases k)
    case 0
    then show ?thesis using assms by (simp add: rounded_def)
  next
    case (Suc j)
    then have k: "0 < k" "k - 1 = j" and ten: "(10::nat) ^ k = 2 * (5 * 10 ^ j)" by simp_all
    have M: "M = M div 10 ^ k * 10 ^ k + M mod 10 ^ k" "M mod 10 ^ k < 10 ^ k"
      by (simp_all only: div_mult_mod_eq) simp
    have "R = M div 10 ^ k * 10 ^ k + (if 5 * 10 ^ j \<le> M mod 10 ^ k then 10 ^ k else 0)"
      using half_up_digit [OF k(1), of M] unfolding assms rounded_half [OF k(1)] k(2) by simp
    then have "R = M div 10 ^ k * 10 ^ k + 10 ^ k \<and> 5 * 10 ^ j \<le> M mod 10 ^ k
        \<or> R = M div 10 ^ k * 10 ^ k \<and> M mod 10 ^ k < 5 * 10 ^ j" by auto
    then show ?thesis using M ten by linarith
  qed
  then show "2 * M < 2 * R + 10 ^ k" "2 * R \<le> 2 * M + 10 ^ k" by simp_all
  show "10 ^ k dvd R" by (simp add: assms rounded_def)
qed

lemma rounded_trunc_bounds:
  assumes "R = rounded M k False"
  shows "R \<le> M" "M < R + 10 ^ k" "10 ^ k dvd R"
proof -
  have M: "M = M div 10 ^ k * 10 ^ k + M mod 10 ^ k" "M mod 10 ^ k < 10 ^ k"
    by (simp_all only: div_mult_mod_eq) simp
  then show "R \<le> M" "M < R + 10 ^ k" "10 ^ k dvd R"
    unfolding assms rounded_def by (simp_all, metis add_less_cancel_left M)
qed

text \<open>The value of a result, and of a result that rounds to \<open>R\<close> units of the value's last digit.\<close>

definition out_value :: "num_out \<Rightarrow> real" where
  "out_value r = num_value (no_neg r) (no_mag r) (no_s r)"

lemma rounds_to_value:
  assumes "rounds_to n R r"
  shows "out_value r = (if nv_neg n then - 1 else 1) * (real R * 10 powi (- nv_s n))"
proof -
  obtain j where s: "no_s r = nv_s n - int j" and R: "dec_num (no_mag r) * 10 ^ j = R"
    and neg: "no_neg r = (nv_neg n \<and> no_mag r \<noteq> ''0'')"
    using assms by (auto simp: rounds_to_def)
  have "10 powi (- no_s r) = (10::real) ^ j * 10 powi (- nv_s n)"
    unfolding s by (simp add: power_int_add [symmetric] flip: power_int_of_nat)
  then have "real (dec_num (no_mag r)) * 10 powi (- no_s r) = real R * 10 powi (- nv_s n)"
    by (simp flip: R)
  moreover have "no_mag r = ''0'' \<Longrightarrow> R = 0" using R by auto
  ultimately show ?thesis by (auto simp: out_value_def num_value_def neg)
qed

lemma unit_powi: "place \<le> s \<Longrightarrow> (10::real) ^ nat (s - place) * 10 powi (- s) = 10 powi (- place)"
  by (simp add: power_int_add [symmetric] flip: power_int_of_nat)

lemma scale_le:
  assumes "a * d \<le> b * d + c * (e :: nat)" "(0::real) \<le> u"
  shows "real a * u * real d \<le> real b * u * real d + real c * (real e * u)"
proof -
  have "real (a * d) \<le> real (b * d + c * e)" using assms(1) by (simp only: of_nat_le_iff)
  then have "real (a * d) * u \<le> real (b * d + c * e) * u" using assms(2) by (rule mult_right_mono)
  then show ?thesis by (simp add: algebra_simps)
qed

lemma scale_less:
  assumes "a * d < b * d + c * (e :: nat)" "(0::real) < u"
  shows "real a * u * real d < real b * u * real d + real c * (real e * u)"
proof -
  have "real (a * d) < real (b * d + c * e)" using assms(1) by (simp only: of_nat_less_iff)
  then have "real (a * d) * u < real (b * d + c * e) * u" using assms(2) by simp
  then show ?thesis by (simp add: algebra_simps)
qed

lemma value_of_units: "value_of n = (if nv_neg n then - 1 else 1) * (real (dec_num (nv_mag n)) * 10 powi (- nv_s n))"
  by (simp add: value_of_def num_value_def)

lemma powi_pos [simp]: "(0::real) < 10 powi i"
  by (simp add: power_int_def)

text \<open>ROUND, as the model has it, answers the nearest multiple of the place, halves away from zero.\<close>

lemma develop_round_half:
  assumes "numv_ok n" "place \<le> nv_s n" "length (nv_mag n) \<le> twice"
    and "no_rc (develop_round twice n place True) = NO_ERROR"
  shows "\<bar>value_of n\<bar> - \<bar>out_value (develop_round twice n place True)\<bar> < 10 powi (- place) / 2
    \<and> \<bar>out_value (develop_round twice n place True)\<bar> - \<bar>value_of n\<bar> \<le> 10 powi (- place) / 2
    \<and> 0 \<le> out_value (develop_round twice n place True) * value_of n
    \<and> (\<exists>z. out_value (develop_round twice n place True) = of_int z * 10 powi (- place))"
proof -
  let ?o = "develop_round twice n place True" and ?k = "nat (nv_s n - place)" and ?M = "dec_num (nv_mag n)"
  let ?R = "rounded ?M ?k True" and ?u = "10 powi (- nv_s n) :: real"
  have o: "out_value ?o = (if nv_neg n then - 1 else 1) * (real ?R * ?u)"
    by (rule rounds_to_value [OF develop_round_num [OF assms]])
  have k: "(10::real) ^ ?k * ?u = 10 powi (- place)" by (rule unit_powi [OF assms(2)])
  note b = rounded_bounds [where M = ?M and k = ?k, OF refl]
  have "real ?M * ?u * 2 < real ?R * ?u * 2 + 10 powi (- place)"
    using scale_less [of ?M 2 ?R 1 "10 ^ ?k" ?u] b(1) k by (simp add: mult.commute)
  moreover have "real ?R * ?u * 2 \<le> real ?M * ?u * 2 + 10 powi (- place)"
    using scale_le [of ?R 2 ?M 1 "10 ^ ?k" ?u] b(2) k by (simp add: mult.commute)
  moreover have "\<bar>out_value ?o\<bar> = real ?R * ?u" "\<bar>value_of n\<bar> = real ?M * ?u" "0 \<le> out_value ?o * value_of n"
    unfolding o value_of_units by (simp_all add: abs_mult)
  moreover obtain q where "?R = 10 ^ ?k * q" using b(3) by (rule dvdE)
  then have "real ?R * ?u = real q * 10 powi (- place)" unfolding k [symmetric] by simp
  then have "out_value ?o = of_int (if nv_neg n then - int q else int q) * 10 powi (- place)"
    unfolding o by simp
  ultimately show ?thesis by (auto simp: field_simps)
qed

text \<open>TRUNC, as the model has it, cuts towards zero to a multiple of the place.\<close>

lemma develop_trunc_cut:
  assumes "numv_ok n" "place \<le> nv_s n" "length (nv_mag n) \<le> twice"
  shows "no_rc (develop_round twice n place False) = NO_ERROR
    \<and> \<bar>out_value (develop_round twice n place False)\<bar> \<le> \<bar>value_of n\<bar>
    \<and> \<bar>value_of n\<bar> - \<bar>out_value (develop_round twice n place False)\<bar> < 10 powi (- place)
    \<and> 0 \<le> out_value (develop_round twice n place False) * value_of n
    \<and> (\<exists>z. out_value (develop_round twice n place False) = of_int z * 10 powi (- place))"
proof -
  let ?o = "develop_round twice n place False" and ?k = "nat (nv_s n - place)" and ?M = "dec_num (nv_mag n)"
  let ?R = "rounded ?M ?k False" and ?u = "10 powi (- nv_s n) :: real"
  have rc: "no_rc ?o = NO_ERROR"
    by (simp add: develop_round_def Let_def num_out_zero_def)
  have o: "out_value ?o = (if nv_neg n then - 1 else 1) * (real ?R * ?u)"
    by (rule rounds_to_value [OF develop_round_num [OF assms rc]])
  have k: "(10::real) ^ ?k * ?u = 10 powi (- place)" by (rule unit_powi [OF assms(2)])
  note b = rounded_trunc_bounds [where M = ?M and k = ?k, OF refl]
  have "real ?M * ?u < real ?R * ?u + 10 powi (- place)"
    using scale_less [of ?M 1 ?R 1 "10 ^ ?k" ?u] b(2) k by simp
  moreover have "real ?R * ?u \<le> real ?M * ?u"
    using b(1) by (intro mult_right_mono) simp_all
  moreover have "\<bar>out_value ?o\<bar> = real ?R * ?u" "\<bar>value_of n\<bar> = real ?M * ?u" "0 \<le> out_value ?o * value_of n"
    unfolding o value_of_units by (simp_all add: abs_mult)
  moreover obtain q where "?R = 10 ^ ?k * q" using b(3) by (rule dvdE)
  then have "real ?R * ?u = real q * 10 powi (- place)" unfolding k [symmetric] by simp
  then have "out_value ?o = of_int (if nv_neg n then - int q else int q) * 10 powi (- place)"
    unfolding o by simp
  ultimately show ?thesis using rc by auto
qed

section \<open>Floor and ceiling\<close>

lemma ceiling_nat_div:
  assumes "0 < d"
  shows "\<lceil>real M / real d\<rceil> = int (M div d) + (if M mod d \<noteq> 0 then 1 else 0)"
proof -
  have "\<lceil>real M / real d\<rceil> = - (- int M div int d)"
    using ceiling_divide_eq_div [of "int M" "int d"] by simp
  moreover have "(int M mod int d = 0) = (M mod d = 0)" by (simp flip: zmod_int)
  with assms have "- (- int M div int d) = int (M div d) + (if M mod d \<noteq> 0 then 1 else 0)"
    using zdiv_zminus1_eq_if [of "int d" "int M"] by (simp add: zdiv_int)
  ultimately show ?thesis by simp
qed

lemma dec_num_zero_digits: "is_dec d \<Longrightarrow> dec_num d = 0 \<longleftrightarrow> \<not> list_ex (\<lambda>c. c \<noteq> CHR ''0'') d"
proof (induction d)
  case (Cons c d)
  then have "nat (digit c) = 0 \<longleftrightarrow> c = CHR ''0''" using digit_bounds(1) [of c] by auto
  then show ?case using Cons by simp
qed simp

text \<open>The integral part and the fraction digits of a magnitude with \<open>k\<close> digits after the point.\<close>

definition integral_part :: "string \<Rightarrow> nat \<Rightarrow> string" where
  "integral_part m k = (if k < length m then take (length m - k) m else ''0'')"

lemma integral_part_num:
  assumes "canon m" "0 < k"
  shows "canon (integral_part m k) \<and> dec_num (integral_part m k) = dec_num m div 10 ^ k"
proof (cases "k < length m")
  case True
  then have "dec_num (take (length m - k) m) = dec_num m div 10 ^ k"
    using assms by (intro dec_num_take) (simp_all add: canon_def)
  moreover have "canon (take (length m - k) m)"
    using assms True by (cases m) (auto simp: canon_def take_Cons')
  ultimately show ?thesis using True by (simp add: integral_part_def)
next
  case False
  then have "dec_num m div 10 ^ k = 0" using assms(1) by (intro dec_num_div_ge) (simp_all add: canon_def)
  then show ?thesis using False by (simp add: integral_part_def)
qed

lemma fraction_digits:
  assumes "is_dec m"
  shows "list_ex (\<lambda>c. c \<noteq> CHR ''0'') (drop (length m - k) m) \<longleftrightarrow> dec_num m mod 10 ^ k \<noteq> 0"
proof -
  have dec: "is_dec (drop (length m - k) m)" using assms by (auto simp: is_dec_def list_all_iff dest: in_set_dropD)
  have "dec_num (drop (length m - k) m) = dec_num m mod 10 ^ k"
  proof (cases "k \<le> length m")
    case True
    then show ?thesis
      using be_num_drop [OF dec_digits_bound [OF assms], of k] by (simp add: dec_num_def drop_map)
  next
    case False
    then have "dec_num m < 10 ^ k"
      using dec_num_bound [OF assms] power_increasing [of "length m" k "10::nat"] by linarith
    then show ?thesis using False by simp
  qed
  then show ?thesis using dec_num_zero_digits [OF dec] by simp
qed

lemma develop_floor_ceil_unfold:
  assumes "0 < nv_s n" and k: "k = nat (nv_s n)"
    and away: "away \<longleftrightarrow> list_ex (\<lambda>c. c \<noteq> CHR ''0'') (drop (length (nv_mag n) - k) (nv_mag n))
                 \<and> (if is_floor then nv_neg n else \<not> nv_neg n)"
    and s_out: "s_out = (if DB_MAX_NUMERIC_PRECISION < k then DB_MAX_NUMERIC_PRECISION - 1 else k)"
    and m: "m = (if away then dec_shift (dec_add (integral_part (nv_mag n) k) ''1'') s_out
                 else if integral_part (nv_mag n) k = ''0'' then ''0'' else dec_shift (integral_part (nv_mag n) k) k)"
  shows "no_mag (develop_floor_ceil n is_floor) = m" "no_s (develop_floor_ceil n is_floor) = int s_out"
    "no_neg (develop_floor_ceil n is_floor) = (nv_neg n \<and> m \<noteq> ''0'')"
    "no_rc (develop_floor_ceil n is_floor) = NO_ERROR"
proof -
  let ?len = "int (length (nv_mag n))"
  have e: "nat (?len - nv_s n) = length (nv_mag n) - k" "nat (max 0 (?len - nv_s n)) = length (nv_mag n) - k"
    "nv_s n < ?len \<longleftrightarrow> k < length (nv_mag n)" "nat (nv_s n) = k" "\<not> nv_s n \<le> 0"
    using assms(1) k by auto
  have s: "(if int DB_MAX_NUMERIC_PRECISION < nv_s n then int DB_MAX_NUMERIC_PRECISION - 1 else nv_s n) = int s_out"
    using assms(1) k s_out by (auto simp: DB_MAX_NUMERIC_PRECISION_def)
  show "no_mag (develop_floor_ceil n is_floor) = m" "no_s (develop_floor_ceil n is_floor) = int s_out"
    "no_neg (develop_floor_ceil n is_floor) = (nv_neg n \<and> m \<noteq> ''0'')"
    "no_rc (develop_floor_ceil n is_floor) = NO_ERROR"
    unfolding develop_floor_ceil_def Let_def s e if_not_P [OF e(5)] integral_part_def [symmetric] away [symmetric] nat_int
    by (simp_all add: m num_out_zero_def)
qed

text \<open>The magnitude a finished floor or ceiling holds: the integral part, plus one away from zero.\<close>

lemma develop_floor_ceil_num:
  assumes n: "numv_ok n" and s: "0 < nv_s n" and len: "length (nv_mag n) \<le> DB_MAX_NUMERIC_PRECISION"
    and M: "M = dec_num (nv_mag n)" and k: "k = nat (nv_s n)"
  shows "\<exists>j. no_s (develop_floor_ceil n is_floor) = int j \<and>
    no_neg (develop_floor_ceil n is_floor) = (nv_neg n \<and> no_mag (develop_floor_ceil n is_floor) \<noteq> ''0'') \<and>
    dec_num (no_mag (develop_floor_ceil n is_floor))
      = (M div 10 ^ k + (if M mod 10 ^ k \<noteq> 0 \<and> nv_neg n = is_floor then 1 else 0)) * 10 ^ j"
proof -
  let ?m = "nv_mag n" and ?I = "integral_part (nv_mag n) k"
  let ?away = "list_ex (\<lambda>c. c \<noteq> CHR ''0'') (drop (length ?m - k) ?m) \<and> (if is_floor then nv_neg n else \<not> nv_neg n)"
  let ?s = "if DB_MAX_NUMERIC_PRECISION < k then DB_MAX_NUMERIC_PRECISION - 1 else k"
  have m: "canon ?m" "is_dec ?m" using n by (auto simp: numv_ok_def canon_def)
  have k0: "0 < k" using s k by simp
  note I = integral_part_num [OF m(1) k0]
  have away: "?away \<longleftrightarrow> M mod 10 ^ k \<noteq> 0 \<and> nv_neg n = is_floor"
    using fraction_digits [OF m(2), of k] M by auto
  obtain m' where m': "m' = (if ?away then dec_shift (dec_add ?I ''1'') ?s
      else if ?I = ''0'' then ''0'' else dec_shift ?I k)" by blast
  obtain j where j: "j = ?s" by blast
  note u = develop_floor_ceil_unfold [OF s k refl j, where is_floor = is_floor, unfolded j, OF m', folded j]
  have one: "is_dec ''1''" "dec_num ''1'' = 1" by simp_all
  have zero: "?I = ''0''" if "DB_MAX_NUMERIC_PRECISION < k" using that len by (simp add: integral_part_def)
  have dI: "is_dec ?I" using I by (simp add: canon_def)
  have "dec_num m' = (M div 10 ^ k + (if M mod 10 ^ k \<noteq> 0 \<and> nv_neg n = is_floor then 1 else 0)) * 10 ^ j"
    unfolding m' away j using I zero M by (auto simp: dec_add_num [OF dI one(1)] dec_shift_num)
  then have "no_s (develop_floor_ceil n is_floor) = int j \<and>
    no_neg (develop_floor_ceil n is_floor) = (nv_neg n \<and> no_mag (develop_floor_ceil n is_floor) \<noteq> ''0'') \<and>
    dec_num (no_mag (develop_floor_ceil n is_floor))
      = (M div 10 ^ k + (if M mod 10 ^ k \<noteq> 0 \<and> nv_neg n = is_floor then 1 else 0)) * 10 ^ j"
    unfolding u(1,3) by (intro conjI u(2)) simp
  then show ?thesis by blast
qed

text \<open>
  FLOOR and CEIL, as the model has them, answer the floor and the ceiling of the value, for every
  NUMERIC of at most 40 digits, whatever scale the result is given.
\<close>

lemma develop_floor_ceil_value:
  assumes "numv_ok n" "length (nv_mag n) \<le> DB_MAX_NUMERIC_PRECISION"
  shows "out_value (develop_floor_ceil n is_floor) = of_int (if is_floor then \<lfloor>value_of n\<rfloor> else \<lceil>value_of n\<rceil>)"
proof (cases "nv_s n \<le> 0")
  case True
  then have "10 powi (- nv_s n) = real_of_int (10 ^ nat (- nv_s n))"
    by (simp add: power_int_def)
  then have "value_of n = of_int ((if nv_neg n then - 1 else 1) * int (dec_num (nv_mag n)) * 10 ^ nat (- nv_s n))"
    by (simp add: value_of_def num_value_def)
  moreover have "out_value (develop_floor_ceil n is_floor) = value_of n"
    using True by (simp add: develop_floor_ceil_def out_value_def value_of_def)
  ultimately show ?thesis by (metis ceiling_of_int floor_of_int)
next
  case False
  let ?o = "develop_floor_ceil n is_floor"
  obtain k M where k: "k = nat (nv_s n)" and M: "M = dec_num (nv_mag n)" by blast
  obtain j where s: "no_s ?o = int j" and neg: "no_neg ?o = (nv_neg n \<and> no_mag ?o \<noteq> ''0'')"
    and num: "dec_num (no_mag ?o)
      = (M div 10 ^ k + (if M mod 10 ^ k \<noteq> 0 \<and> nv_neg n = is_floor then 1 else 0)) * 10 ^ j"
    using develop_floor_ceil_num [OF assms(1) _ assms(2) M k, of is_floor] False by auto
  obtain N where N: "N = M div 10 ^ k + (if M mod 10 ^ k \<noteq> 0 \<and> nv_neg n = is_floor then 1 else 0)" by blast
  have z: "no_mag ?o = ''0'' \<Longrightarrow> N = 0" using num [folded N] by simp
  have u1: "real (N * 10 ^ j) * 10 powi (- int j) = real N" by (simp add: power_int_minus)
  then have out: "out_value ?o = of_int (if nv_neg n then - int N else int N)"
    unfolding out_value_def num_value_def neg num [folded N] s mult.assoc u1 using z by auto
  have sk: "nv_s n = int k" using False k by simp
  have "value_of n = (if nv_neg n then - 1 else 1) * (real M / 10 ^ k)"
    unfolding value_of_units sk M [symmetric] by (simp add: power_int_minus divide_inverse)
  then have v: "value_of n = (if nv_neg n then - (real M / real (10 ^ k)) else real M / real (10 ^ k))" by simp
  have fl: "\<lfloor>real M / real (10 ^ k)\<rfloor> = int (M div 10 ^ k)"
    by (metis floor_divide_of_nat_eq)
  have ce: "\<lceil>real M / real (10 ^ k)\<rceil> = int (M div 10 ^ k) + (if M mod 10 ^ k \<noteq> 0 then 1 else 0)"
    by (rule ceiling_nat_div) simp
  obtain x Q f where x: "x = real M / real (10 ^ k)" and Q: "Q = M div 10 ^ k" and f: "f \<longleftrightarrow> M mod 10 ^ k \<noteq> 0" by blast
  show ?thesis
    using fl ce N unfolding out v x [symmetric] Q [symmetric] f [symmetric]
    by (cases "nv_neg n"; cases is_floor; cases f) (simp_all add: floor_minus ceiling_minus)
qed

end
