(* ===== verification/NumericGrids.thy ===== *)
theory NumericGrids
  imports NumericOracle
begin

text \<open>
  The grids of values the cases of \<^verbatim>\<open>unit/query/numeric_opfunc.exact_paths/test.cpp\<close>
  run over: coefficients, scales and places, the forms the engine gives each, and the integers with
  their NUMERIC keys. Every value of a grid satisfies the oracle's invariant, and the grids are as
  large as the cases' coverage checks ask.
\<close>

section \<open>Coefficients, scales, places\<close>

definition compare_coefficients :: "string list" where
  "compare_coefficients =
     [''0'', ''1'', ''4'', ''5'', ''9'', ''15'', ''99'', ''12345'',
      ''9223372036854775807'', ''9223372036854775808'', ''18446744073709551615'', ''10000000000000000000'',
      ''34028236692093846346'', ''34028236692093846347'',
      TWO127, ''340282366920938463463374607431768211455'', TWO128,
      ''99999999999999999999999999999999999999'', ''100000000000000000000000000000000000000'',
      ''9999999999999999999999999999999999999999'']"

definition compare_scales :: "int list" where
  "compare_scales = [0, 1, 2, 19, 20, 38, 39, 40, 252, - 1, - 19, - 214]"

definition round_coefficients :: "string list" where
  "round_coefficients =
     [''0'', ''1'', ''4'', ''5'', ''9'', ''14'', ''15'', ''25'', ''45'', ''49'', ''50'', ''55'', ''94'', ''95'',
      ''99'', ''149'', ''150'', ''994'', ''995'', ''999'', ''12345'', ''99999'', ''9223372036854775807'',
      ''999999999999999999999'', ''99999999999999999999999999999999999999'', TWO127,
      ''340282366920938463463374607431768211455'', ''340282366920938463463374607431768211449'',
      ''339999999999999999999999999999999999999'', TWO128,
      ''999999999999999999999999999999999999999'', ''9999999999999999999999999999999999999999'']"

definition round_scales :: "int list" where
  "round_scales = [0, 1, 2, 3, 5, 19, 20, 37, 38, 39, 40, 41, 100, 252, - 1, - 3, - 213, - 214]"

definition DB_BIGINT_MAX :: int where "DB_BIGINT_MAX = 2 ^ 63 - 1"
definition DB_BIGINT_MIN :: int where "DB_BIGINT_MIN = - (2 ^ 63)"

text \<open>\<open>std::sort\<close>, then \<open>std::unique\<close> and \<open>erase\<close>.\<close>

definition places_for :: "int \<Rightarrow> int list" where
  "places_for s = remdups_adj (sort
     ([- 1000000000000, - 300, - 258, - 257, - 256, - 255, - 100, - 60, - 41, - 40, - 39, - 38, - 21,
       - 20, - 19, - 3, - 2, - 1, 0, 1, 2, 3, 300, DB_BIGINT_MAX] @ map (\<lambda>d. s + d) [- 41..2]))"

section \<open>The grids\<close>

definition compare_grid :: "'v maker \<Rightarrow> 'v numv list option" where
  "compare_grid mkn =
     fold (\<lambda>c. fold (\<lambda>s g. add_forms mkn g c s True) compare_scales) compare_coefficients (Some [])"

definition round_grid :: "'v maker \<Rightarrow> 'v numv list option" where
  "round_grid mkn =
     fold (\<lambda>c. fold (\<lambda>s g. add_forms mkn g c s True) round_scales) round_coefficients (Some [])"

definition int_mags :: "string list" where
  "int_mags = [''0'', ''1'', ''7'', ''32767'', ''32768'', ''2147483647'', ''2147483648'',
     ''9223372036854775807'', ''9223372036854775808'', ''9223372036854775806'', ''1000000000000000000'',
     ''1844674407370955161'', ''3402823669209384634'', ''3402823669209384635'']"

definition int_mag_forms :: "'v maker \<Rightarrow> string \<Rightarrow> int \<Rightarrow> 'v numv list option \<Rightarrow> 'v numv list option" where
  "int_mag_forms mkn m s g =
     (let eq = dec_shift m (nat s)
      in if DB_MAX_NUMERIC_PRECISION < length eq then g
         else
           (let g1 = add_forms mkn g eq s True;
                g2 = add_forms mkn g1 (dec_add eq ''1'') s True
            in if eq \<noteq> ''0'' then add_forms mkn g2 (dec_sub eq ''1'') s True else g2))"

definition int_numeric_grid :: "'v maker \<Rightarrow> 'v numv list option" where
  "int_numeric_grid mkn =
     (let g1 = fold (\<lambda>m. fold (int_mag_forms mkn m) [0, 1, 19, 20, 38]) int_mags (Some []);
          g2 = fold (\<lambda>s g. add_forms mkn (add_forms mkn g ''340282366920938463463374607431768211455'' s True)
                             TWO128 s True) [0, 1, 18, 19, 20, 21, 38, 39] g1
      in fold (\<lambda>(m, s) g. add_forms mkn g m s True)
           [(''99999999999999999999999999999999999999'', 0), (''99999999999999999999999999999999999999'', 38),
            (''5'', 1), (''1'', - 19), (''9'', - 18), (''92233720368547758'', - 2), (''922337203685477581'', - 1),
            (''922337203685477580'', - 1), (''1'', 252), (''9999999999999999999999999999999999999999'', - 214),
            (''9999999999999999999999999999999999999999'', 21)] g2)"

text \<open>\<open>intv\<close>: an integer value of the engine and the oracle's key of it.\<close>

datatype int_type = T_SHORT | T_INTEGER | T_BIGINT

record ('v, 'w) intv =
  iv_name :: string
  iv_v :: 'w
  iv_i :: int
  iv_as_num :: "'v numv"

text \<open>
  \<open>mki\<close> stands for \<open>db_make_short\<close>, \<open>db_make_int\<close> and
  \<open>db_make_bigint\<close>, \<open>type_name\<close> for \<open>pr_type_name\<close>. The magnitude of a
  negative integer is \<open>0ULL - (unsigned long long) i\<close>, which wraps.
\<close>

definition int_mag :: "int \<Rightarrow> u64" where
  "int_mag i = (if i < 0 then 0 - word_of_int i else word_of_int i)"

definition make_int ::
    "'v maker \<Rightarrow> (int_type \<Rightarrow> int \<Rightarrow> 'w) \<Rightarrow> (int_type \<Rightarrow> string) \<Rightarrow> int_type \<Rightarrow> int \<Rightarrow> ('v, 'w) intv option" where
  "make_int mkn mki type_name t i =
     (let mag = int_mag i
      in case mkn (dec_of_u64 mag) (max 1 (int (length (dec_of_u64 mag)))) 0 (i < 0) True of
           None \<Rightarrow> None
         | Some n \<Rightarrow> Some \<lparr>iv_name = type_name t @ '' '' @ to_string i, iv_v = mki t i, iv_i = i, iv_as_num = n\<rparr>)"

definition int_grid_values :: "(int_type \<times> int) list" where
  "int_grid_values =
     map (Pair T_SHORT) [0, 1, - 1, 7, 32767, - 32768] @
     map (Pair T_INTEGER) [0, 1, - 1, 7, 2147483647, - 2147483648] @
     map (Pair T_BIGINT) [0, 1, - 1, 7, DB_BIGINT_MAX, - DB_BIGINT_MAX, DB_BIGINT_MIN, 1000000000000000000,
       - 1000000000000000000, 9223372036854775806, 1844674407370955161, 3402823669209384634,
       3402823669209384635, - 3402823669209384635]"

definition int_grid ::
    "'v maker \<Rightarrow> (int_type \<Rightarrow> int \<Rightarrow> 'w) \<Rightarrow> (int_type \<Rightarrow> string) \<Rightarrow> ('v, 'w) intv list option" where
  "int_grid mkn mki type_name =
     fold (\<lambda>(t, i) g. case g of None \<Rightarrow> None
             | Some xs \<Rightarrow> (case make_int mkn mki type_name t i of None \<Rightarrow> None | Some x \<Rightarrow> Some (xs @ [x])))
       int_grid_values (Some [])"

section \<open>What a grid asks of the engine's constructor\<close>

text \<open>The calls of \<open>make_num\<close> behind a grid, as data: coefficient, precision, scale, sign, float.\<close>

type_synonym num_spec = "string \<times> int \<times> int \<times> bool \<times> bool"

definition push_spec :: "'v maker \<Rightarrow> num_spec \<Rightarrow> 'v numv list option \<Rightarrow> 'v numv list option" where
  "push_spec mkn = (\<lambda>(m, p, s, neg, fl). push_num (mkn m p s neg fl))"

definition signed_specs :: "string \<Rightarrow> int \<Rightarrow> bool \<Rightarrow> num_spec list" where
  "signed_specs mag s neg =
     (let digits = int (length (dec_strip mag)); p_min = max (max digits s) 1
      in if neg \<and> dec_strip mag = ''0'' then []
         else (if digits \<le> int DB_MAX_NUMERIC_PRECISION then [(mag, max 1 digits, s, neg, True)] else [])
            @ (if 0 \<le> s \<and> p_min \<le> 38 then [(mag, p_min, s, neg, False)] else [])
            @ (if 0 \<le> s \<and> s \<le> 38 \<and> digits \<le> 38 \<and> p_min \<noteq> 38 then [(mag, 38, s, neg, False)] else []))"

definition form_specs :: "string \<Rightarrow> int \<Rightarrow> num_spec list" where
  "form_specs mag s = signed_specs mag s False @ signed_specs mag s True"

lemma add_forms_signed_specs: "add_forms_signed mkn mag s neg g = fold (push_spec mkn) (signed_specs mag s neg) g"
proof -
  obtain d P where "d = int (length (dec_strip mag))" "P = max (max d s) 1" by blast
  then show ?thesis
    unfolding add_forms_signed_def signed_specs_def Let_def push_spec_def by (auto simp del: One_nat_def)
qed

lemma add_forms_specs: "add_forms mkn g mag s True = fold (push_spec mkn) (form_specs mag s) g"
  by (simp add: add_forms_def form_specs_def add_forms_signed_specs)

definition grid_specs :: "string list \<Rightarrow> int list \<Rightarrow> num_spec list" where
  "grid_specs cs ss = concat (map (\<lambda>c. concat (map (form_specs c) ss)) cs)"

lemma fold_concat: "fold f (concat xss) = fold (fold f) xss"
  by (induction xss) simp_all

lemma grid_fold:
  "fold (\<lambda>c. fold (\<lambda>s g. add_forms mkn g c s True) ss) cs = fold (push_spec mkn) (grid_specs cs ss)"
  by (simp add: grid_specs_def add_forms_specs fold_concat fold_map comp_def)

lemma fold_push_None: "fold (push_spec mkn) specs None = None"
  by (induction specs) (auto simp: push_spec_def push_num_def split: prod.splits)

text \<open>A finished grid holds, in order, what the constructor made of each call.\<close>

lemma fold_push_Some:
  "fold (push_spec mkn) specs (Some g) = Some g' \<Longrightarrow>
     \<exists>new. g' = g @ new \<and> list_all2 (\<lambda>(m, p, s, neg, fl) n. mkn m p s neg fl = Some n) specs new"
proof (induction specs arbitrary: g)
  case (Cons sp specs)
  obtain m p s neg fl where sp: "sp = (m, p, s, neg, fl)" by (cases sp)
  obtain n where n: "mkn m p s neg fl = Some n" "fold (push_spec mkn) specs (Some (g @ [n])) = Some g'"
    using Cons.prems fold_push_None [of mkn specs]
    by (cases "mkn m p s neg fl") (simp_all add: sp push_spec_def push_num_def)
  from Cons.IH [OF n(2)] obtain new where "g' = g @ n # new"
    "list_all2 (\<lambda>(m, p, s, neg, fl) n. mkn m p s neg fl = Some n) specs new" by auto
  then show ?case using n(1) sp by (intro exI [of _ "n # new"]) simp
qed simp

lemma list_all2_set2: "list_all2 P xs ys \<Longrightarrow> y \<in> set ys \<Longrightarrow> \<exists>x \<in> set xs. P x y"
  by (induction rule: list_all2_induct) auto

lemma grid_member:
  assumes "fold (push_spec mkn) specs (Some []) = Some g" "n \<in> set g"
  obtains m p s neg fl where "(m, p, s, neg, fl) \<in> set specs" "mkn m p s neg fl = Some n"
proof -
  obtain new where "g = [] @ new" and new: "list_all2 (\<lambda>(m, p, s, neg, fl) n. mkn m p s neg fl = Some n) specs new"
    using fold_push_Some [OF assms(1)] by blast
  then have "n \<in> set new" using assms(2) by simp
  from list_all2_set2 [OF new this] obtain sp where "sp \<in> set specs" "(case sp of (m, p, s, neg, fl) \<Rightarrow> \<lambda>n. mkn m p s neg fl = Some n) n" by blast
  moreover obtain m p s neg fl where "sp = (m, p, s, neg, fl)" by (cases sp)
  ultimately show thesis using that [of m p s neg fl] by simp
qed

lemma grid_length:
  assumes "fold (push_spec mkn) specs (Some []) = Some g"
  shows "length g = length specs"
proof -
  obtain new where "g = [] @ new" and new: "list_all2 (\<lambda>(m, p, s, neg, fl) n. mkn m p s neg fl = Some n) specs new"
    using fold_push_Some [OF assms(1)] by blast
  then show ?thesis using list_all2_lengthD [OF new] by simp
qed

text \<open>The coefficients, scales and precisions a grid's calls have.\<close>

definition good_spec :: "num_spec \<Rightarrow> bool" where
  "good_spec = (\<lambda>(m, p, s, neg, fl). is_dec m \<and> m \<noteq> [] \<and> length (dec_strip m) \<le> DB_MAX_NUMERIC_PRECISION \<and> 1 \<le> p \<and> p \<le> 40
     \<and> int (length (dec_strip m)) \<le> p)"

lemma signed_specs_good:
  assumes "is_dec m" "m \<noteq> []" "length (dec_strip m) \<le> DB_MAX_NUMERIC_PRECISION"
  shows "list_all good_spec (signed_specs m s neg)"
  using assms by (auto simp: signed_specs_def good_spec_def Let_def DB_MAX_NUMERIC_PRECISION_def)

definition good_coefficient :: "string \<Rightarrow> bool" where
  "good_coefficient m \<longleftrightarrow> is_dec m \<and> m \<noteq> [] \<and> length (dec_strip m) \<le> DB_MAX_NUMERIC_PRECISION"

lemma grid_specs_good: "list_all good_coefficient cs \<Longrightarrow> list_all good_spec (grid_specs cs ss)"
  using signed_specs_good unfolding grid_specs_def form_specs_def good_coefficient_def list_all_iff by fastforce

lemma compare_coefficients_good: "list_all good_coefficient compare_coefficients"
  by code_simp

lemma round_coefficients_good: "list_all good_coefficient round_coefficients"
  by code_simp

definition num_good :: "'v numv \<Rightarrow> bool" where
  "num_good n \<longleftrightarrow> numv_ok n \<and> length (nv_mag n) \<le> DB_MAX_NUMERIC_PRECISION \<and> int (length (nv_mag n)) \<le> nv_p n \<and> nv_p n \<le> 40"

lemma make_num_good:
  assumes "make_num mk rd m p s neg fl = Some n" "good_spec (m, p, s, neg, fl)"
  shows "num_good n"
  using make_num_ok [OF assms(1)] assms
  by (auto simp: num_good_def good_spec_def make_num_def Let_def split: if_splits prod.splits)

lemma specs_good:
  assumes "fold (push_spec (make_num mk rd)) specs (Some []) = Some g" "list_all good_spec specs" "n \<in> set g"
  shows "num_good n"
  using assms(2) by (rule_tac grid_member [OF assms(1,3)]) (auto simp: list_all_iff intro: make_num_good)

lemma compare_grid_good: "compare_grid (make_num mk rd) = Some g \<Longrightarrow> n \<in> set g \<Longrightarrow> num_good n"
  using specs_good grid_specs_good [OF compare_coefficients_good] unfolding compare_grid_def grid_fold by blast

lemma round_grid_good: "round_grid (make_num mk rd) = Some g \<Longrightarrow> n \<in> set g \<Longrightarrow> num_good n"
  using specs_good grid_specs_good [OF round_coefficients_good] unfolding round_grid_def grid_fold by blast

lemma compare_specs_length: "length (grid_specs compare_coefficients compare_scales) = 777"
  by code_simp

lemma round_specs_length: "length (grid_specs round_coefficients round_scales) = 1951"
  by code_simp

section \<open>The integers\<close>

lemma int_mag_num:
  assumes "- (2 ^ 63) \<le> i" "i < 2 ^ 63"
  shows "int (unat (int_mag i)) = \<bar>i\<bar>"
proof -
  have "int_mag i = word_of_int \<bar>i\<bar>" by (simp add: int_mag_def)
  then have "int (unat (int_mag i)) = \<bar>i\<bar> mod 2 ^ 64" by (simp add: unsigned_of_int take_bit_eq_mod)
  then show ?thesis using assms by simp
qed

lemma dec_of_u64_num: "dec_num (dec_of_u64 u) = unat u" "canon (dec_of_u64 u)"
  using dec_of_nat_num by (simp_all add: dec_of_u64_def)

lemma make_num_value:
  assumes "make_num mk rd m p s neg fl = Some n" "canon m"
  shows "value_of n = num_value neg m s"
  using assms canon_zero_iff [of m]
  by (auto simp: make_num_def Let_def value_of_def num_value_def dec_strip_id split: if_splits prod.splits)

lemma make_int_value:
  assumes "make_int (make_num mk rd) mki tn t i = Some x" "- (2 ^ 63) \<le> i" "i < 2 ^ 63"
  shows "value_of (iv_as_num x) = of_int i" "numv_ok (iv_as_num x)" "iv_v x = mki t i"
proof -
  let ?m = "dec_of_u64 (int_mag i)"
  have m: "canon ?m" "is_dec ?m" "?m \<noteq> []" using dec_of_u64_num(2) [of "int_mag i"] by (auto simp: canon_def)
  obtain n where n: "make_num mk rd ?m (max 1 (int (length ?m))) 0 (i < 0) True = Some n" "iv_as_num x = n" "iv_v x = mki t i"
    using assms(1) by (auto simp: make_int_def Let_def split: option.splits)
  have "real (dec_num ?m) = real_of_int \<bar>i\<bar>"
    using int_mag_num [OF assms(2,3)] dec_of_u64_num(1) by (metis of_int_of_nat_eq)
  then show "value_of (iv_as_num x) = of_int i"
    using make_num_value [OF n(1) m(1)] n(2) by (simp add: num_value_def)
  show "numv_ok (iv_as_num x)" using make_num_ok [OF n(1) m(2,3)] n(2) by simp
  show "iv_v x = mki t i" by (rule n(3))
qed

lemma int_grid_values_range: "list_all (\<lambda>(t, i). - (2 ^ 63) \<le> i \<and> i < 2 ^ 63) int_grid_values"
  by code_simp

end
