(* ===== verification/NumericCases.thy ===== *)
theory NumericCases
  imports NumericGrids
begin

text \<open>
  The cases of \<^verbatim>\<open>unit/query/numeric_opfunc.exact_paths/test.cpp\<close>: each loop over
  a grid, the counters and the mismatches it collects. The engine functions a case calls are
  parameters. The lemmas say what a case that reports no mismatch has established about them.
\<close>

section \<open>Reports\<close>

text \<open>\<open>code\<close> gives the error ids their numbers.\<close>

definition show_out :: "(er_id \<Rightarrow> int) \<Rightarrow> (db_type \<Rightarrow> int) \<Rightarrow> num_out \<Rightarrow> string" where
  "show_out code tcode r =
     (if no_rc r \<noteq> NO_ERROR then ''rc '' @ to_string (code (no_rc r)) @ '' er '' @ to_string (code (no_er r))
      else if no_type r \<noteq> DB_TYPE_NUMERIC \<or> no_is_null r
      then ''type '' @ to_string (tcode (no_type r)) @ (if no_is_null r then '' NULL'' else '''')
      else (if no_neg r then ''-'' else '''') @ no_mag r @ ''e'' @ to_string (- no_s r) @ '' (p'' @ to_string (no_p r)
             @ (if no_is_float r then '' float)'' else '' fixed)'')
             @ (if no_er r \<noteq> NO_ERROR then '' er '' @ to_string (code (no_er r)) else ''''))"

section \<open>X: numeric_db_value_compare\<close>

text \<open>The answer: an INTEGER, or a value of another type.\<close>

datatype answer = ANS_INTEGER int | ANS_OTHER

record x1_state =
  x1_bad :: mismatches
  x1_pairs :: nat
  x1_same_scale_other_precision :: nat
  x1_u128_scaled :: nat
  x1_overflow_side :: nat

definition x1_init :: x1_state where
  "x1_init = \<lparr>x1_bad = mm_none, x1_pairs = 0, x1_same_scale_other_precision = 0, x1_u128_scaled = 0,
     x1_overflow_side = 0\<rparr>"

definition x1_message :: "(er_id \<Rightarrow> int) \<Rightarrow> 'v numv \<Rightarrow> 'v numv \<Rightarrow> er_id \<Rightarrow> answer \<Rightarrow> int \<Rightarrow> string" where
  "x1_message code a b rc ans want =
     nv_name a @ '' vs '' @ nv_name b @ '': rc '' @ to_string (code rc) @ '' answer ''
       @ (case ans of ANS_INTEGER i \<Rightarrow> to_string i | ANS_OTHER \<Rightarrow> ''non-int'') @ '', exact '' @ to_string want"

definition x1_pair ::
    "(er_id \<Rightarrow> int) \<Rightarrow> ('v \<Rightarrow> 'v \<Rightarrow> er_id \<times> answer) \<Rightarrow> 'v numv \<Rightarrow> 'v numv \<Rightarrow> x1_state \<Rightarrow> x1_state" where
  "x1_pair code cmp a b st =
     (let (rc, ans) = cmp (nv_v a) (nv_v b);
          want = exact_order a b;
          ok = (rc = NO_ERROR \<and> ans = ANS_INTEGER want);
          st1 = (if \<not> ok then st\<lparr>x1_bad := mm_add (x1_message code a b rc ans want) (x1_bad st)\<rparr> else st);
          st2 = st1\<lparr>x1_pairs := Suc (x1_pairs st1)\<rparr>
      in if nv_neg a = nv_neg b
         then if nv_s a = nv_s b \<and> nv_p a \<noteq> nv_p b
              then st2\<lparr>x1_same_scale_other_precision := Suc (x1_same_scale_other_precision st2)\<rparr>
              else if nv_s a \<noteq> nv_s b \<and> below_2_128 (nv_mag a) \<and> below_2_128 (nv_mag b)
                      \<and> \<bar>nv_s a - nv_s b\<bar> \<le> 38
              then (let lo = (if nv_s a < nv_s b then a else b)
                    in st2\<lparr>x1_u128_scaled := Suc (x1_u128_scaled st2),
                           x1_overflow_side := x1_overflow_side st2
                             + (if below_2_128 (dec_shift (nv_mag lo) (nat \<bar>nv_s a - nv_s b\<bar>)) then 0 else 1)\<rparr>)
              else st2
         else st2)"

definition x1_run ::
    "(er_id \<Rightarrow> int) \<Rightarrow> ('v \<Rightarrow> 'v \<Rightarrow> er_id \<times> answer) \<Rightarrow> 'v numv list \<Rightarrow> x1_state" where
  "x1_run code cmp g = fold (\<lambda>a. fold (\<lambda>b. x1_pair code cmp a b) g) g x1_init"

definition x1_passes :: "(er_id \<Rightarrow> int) \<Rightarrow> ('v \<Rightarrow> 'v \<Rightarrow> er_id \<times> answer) \<Rightarrow> 'v numv list \<Rightarrow> bool" where
  "x1_passes code cmp g =
     (let st = x1_run code cmp g
      in mm_count (x1_bad st) = 0 \<and> 500000 < x1_pairs st \<and> 1000 < x1_same_scale_other_precision st
         \<and> 10000 < x1_u128_scaled st \<and> 1000 < x1_overflow_side st)"

text \<open>X2: the same answers as the general path, on the pairs of one sign. A failed \<open>REQUIRE\<close>
  ends the case: \<open>None\<close>.\<close>

definition x2_pair ::
    "('v \<Rightarrow> 'v \<Rightarrow> er_id \<times> answer) \<Rightarrow> (answer \<Rightarrow> int) \<Rightarrow> ('v \<Rightarrow> u8 list) \<Rightarrow>
     (u8 list \<Rightarrow> u8 list \<Rightarrow> int \<Rightarrow> int \<Rightarrow> int \<Rightarrow> int \<Rightarrow> bool \<Rightarrow> bool \<Rightarrow> int) \<Rightarrow>
     'v numv \<Rightarrow> 'v numv \<Rightarrow> (mismatches \<times> nat) option \<Rightarrow> (mismatches \<times> nat) option" where
  "x2_pair cmp get_int locate general_cmp a b st =
     (case st of None \<Rightarrow> None
      | Some (bad, pairs) \<Rightarrow>
          if nv_neg a \<noteq> nv_neg b then st
          else
            (let (rc, ans) = cmp (nv_v a) (nv_v b)
             in if rc \<noteq> NO_ERROR then None
                else
                  (let general = general_cmp (locate (nv_v a)) (locate (nv_v b)) (nv_p a) (nv_s a) (nv_p b)
                                   (nv_s b) (nv_neg a) (nv_neg b);
                       bad' = (if get_int ans \<noteq> general
                               then mm_add (nv_name a @ '' vs '' @ nv_name b @ '': numeric_db_value_compare ''
                                      @ to_string (get_int ans) @ '', float_numeric_compare '' @ to_string general) bad
                               else bad)
                   in Some (bad', Suc pairs))))"

definition x2_run ::
    "('v \<Rightarrow> 'v \<Rightarrow> er_id \<times> answer) \<Rightarrow> (answer \<Rightarrow> int) \<Rightarrow> ('v \<Rightarrow> u8 list) \<Rightarrow>
     (u8 list \<Rightarrow> u8 list \<Rightarrow> int \<Rightarrow> int \<Rightarrow> int \<Rightarrow> int \<Rightarrow> bool \<Rightarrow> bool \<Rightarrow> int) \<Rightarrow>
     'v numv list \<Rightarrow> (mismatches \<times> nat) option" where
  "x2_run cmp get_int locate general_cmp g =
     fold (\<lambda>a. fold (\<lambda>b. x2_pair cmp get_int locate general_cmp a b) g) g (Some (mm_none, 0))"

section \<open>X3: the case table\<close>

definition nines :: "nat \<Rightarrow> string" where "nines k = replicate k (CHR ''9'')"

definition M128 :: string where "M128 = ''340282366920938463463374607431768211455''"

definition x3_signed :: "bool \<Rightarrow> (num_spec \<times> num_spec \<times> int) list" where
  "x3_signed neg =
     (let sg = (if neg then - 1 else 1);
          lo = (''34028236692093846346'', 20, 0, neg, True);
          hi = (''34028236692093846347'', 20, 0, neg, True);
          big = (M128, 39, 19, neg, True)
      in [(lo, big, - sg), (hi, big, sg), (big, lo, sg), (big, hi, - sg),
          ((''3'', 1, 0, neg, True), (M128, 39, 38, neg, True), - sg),
          ((''4'', 1, 0, neg, True), (M128, 39, 38, neg, True), sg),
          ((M128, 39, 38, neg, True), (''4'', 1, 0, neg, True), - sg),
          ((''4'', 1, 0, neg, True), (''4'' @ replicate 39 (CHR ''0''), 40, 39, neg, True), 0),
          ((''1'', 1, 39, neg, True), (''1'', 1, 0, neg, True), - sg),
          ((M128, 39, 0, neg, True), (TWO128, 39, 0, neg, True), - sg),
          ((M128, 39, 1, neg, True), (TWO128, 39, 0, neg, True), - sg),
          ((TWO128, 39, 1, neg, True), (M128, 39, 0, neg, True), - sg),
          ((''12345'', 5, 2, neg, False), (''12345'', 38, 2, neg, False), 0),
          ((''12345'', 5, 2, neg, True), (''12346'', 38, 2, neg, False), - sg),
          ((TWO128, 39, 2, neg, True), (M128, 39, 2, neg, True), sg),
          ((''1'', 1, - 214, neg, True), (''1'', 1, 252, neg, True), sg)])"

definition x3_sevens :: "num_spec list" where
  "x3_sevens = concat (map (\<lambda>s. (dec_shift ''7'' s, int s + 1, int s, False, True)
     # (if s + 1 \<le> 38 then [(dec_shift ''7'' s, int s + 1, int s, False, False)] else [])) [0..<40])"

definition x3_zeros :: "num_spec list" where
  "x3_zeros = concat (map (\<lambda>s. (''0'', 1, s, False, True)
     # (if 0 \<le> s \<and> s \<le> 38 then [(''0'', max 1 s, s, False, False)] else [])) [0, 1, 19, 38, 39, 252, - 214])"

definition x3_table :: "(num_spec \<times> num_spec \<times> int) list" where
  "x3_table =
     x3_signed False @ x3_signed True
     @ [((''1'', 1, 252, False, True), (''9999999999999999999999999999999999999999'', 40, - 214, True, True), 1),
        ((''1'', 1, 38, True, True), (''0'', 1, 0, False, True), - 1)]
     @ concat (map (\<lambda>a. map (\<lambda>b. (a, b, 0)) x3_sevens
         @ [(a, (dec_add (dec_shift ''7'' 20) ''1'', 21, 20, False, True), - 1)]) x3_sevens)
     @ concat (map (\<lambda>a. map (\<lambda>b. (a, b, 0)) x3_zeros
         @ [(a, (''1'', 1, 252, False, True), - 1), ((''1'', 1, 252, True, True), a, - 1)]) x3_zeros)"

text \<open>The pairs made from the table; \<open>None\<close> when a \<open>REQUIRE\<close> of \<open>make_num\<close> fails.\<close>

definition x3_cases :: "'v maker \<Rightarrow> ('v numv \<times> 'v numv \<times> int) list option" where
  "x3_cases mkn = those (map (\<lambda>((m, p, s, neg, fl), (m', p', s', neg', fl'), want).
     case mkn m p s neg fl of None \<Rightarrow> None
     | Some a \<Rightarrow> (case mkn m' p' s' neg' fl' of None \<Rightarrow> None | Some b \<Rightarrow> Some (a, b, want))) x3_table)"

definition x3_check ::
    "('v \<Rightarrow> 'v \<Rightarrow> er_id \<times> answer) \<Rightarrow> (answer \<Rightarrow> int) \<Rightarrow> 'v numv \<times> 'v numv \<times> int \<Rightarrow> mismatches \<Rightarrow> mismatches" where
  "x3_check cmp get_int = (\<lambda>(a, b, want) bad.
     (let bad1 = (if exact_order a b \<noteq> want
                  then mm_add (nv_name a @ '' vs '' @ nv_name b @ '': the case table says '' @ to_string want
                         @ '', the oracle '' @ to_string (exact_order a b)) bad
                  else bad);
          (rc, ans) = cmp (nv_v a) (nv_v b)
      in if rc \<noteq> NO_ERROR \<or> get_int ans \<noteq> want
         then mm_add (nv_name a @ '' vs '' @ nv_name b @ '': '' @ to_string (get_int ans) @ '', want ''
                @ to_string want) bad1
         else bad1))"

section \<open>I: integer against NUMERIC\<close>

datatype cmp_result = DB_LT | DB_EQ | DB_GT | DB_UNK

record outcome =
  oc_result :: cmp_result
  oc_can_compare :: bool
  oc_error :: er_id

definition show_outcome :: "(er_id \<Rightarrow> int) \<Rightarrow> outcome \<Rightarrow> string" where
  "show_outcome code r =
     (case oc_result r of DB_EQ \<Rightarrow> ''EQ'' | DB_LT \<Rightarrow> ''LT'' | DB_GT \<Rightarrow> ''GT'' | DB_UNK \<Rightarrow> ''UNK'')
       @ ''/'' @ (if oc_can_compare r then ''comparable'' else ''not comparable'')
       @ ''/er '' @ to_string (code (oc_error r))"

definition reversed_result :: "cmp_result \<Rightarrow> cmp_result" where
  "reversed_result r = (if r = DB_LT then DB_GT else if r = DB_GT then DB_LT else r)"

text \<open>\<open>DB_LT\<close>, \<open>DB_EQ\<close> and \<open>DB_GT\<close> are -1, 0 and 1.\<close>

definition result_of_sign :: "int \<Rightarrow> cmp_result" where
  "result_of_sign i = (if i = - 1 then DB_LT else if i = 0 then DB_EQ else if i = 1 then DB_GT else DB_UNK)"

text \<open>
  What the case calls: the row comparison, the resolved one, the decision of a key comparison
  (\<open>None\<close>: the \<open>REQUIRE\<close> on its resolution fails), the mirror of a decision, a decided
  comparison and the equality of two decisions. \<open>'d\<close> is \<open>DOMAIN_COMPARE\<close>.
\<close>

record ('w, 'd) compare_api =
  ca_row :: "'w \<Rightarrow> 'w \<Rightarrow> outcome"
  ca_resolved :: "'w \<Rightarrow> 'w \<Rightarrow> outcome option"
  ca_resolve :: "'w \<Rightarrow> 'w \<Rightarrow> 'd option"
  ca_no_conversion :: "'d \<Rightarrow> bool"
  ca_first_source :: "'d \<Rightarrow> 'd"
  ca_mirror :: "'d \<Rightarrow> 'd"
  ca_decided :: "'d \<Rightarrow> 'w \<Rightarrow> 'w \<Rightarrow> outcome"
  ca_equal :: "'d \<Rightarrow> 'd \<Rightarrow> bool"

text \<open>
  \<open>key_decision\<close>: when nothing is converted the first value's type comes first
  (\<open>ca_first_source\<close> sets \<open>first\<close> and \<open>converted_first\<close>).
\<close>

definition key_decision :: "('w, 'd) compare_api \<Rightarrow> 'w \<Rightarrow> 'w \<Rightarrow> 'd option" where
  "key_decision api a b =
     (case ca_resolve api a b of None \<Rightarrow> None
      | Some d \<Rightarrow> Some (if ca_no_conversion api d then ca_first_source api d else d))"

text \<open>
  The seven answers with what each should be, the mirrored decision and the decision for the other
  argument order; \<open>None\<close> when a \<open>REQUIRE\<close> of the calls fails.
\<close>

definition int_numeric_answers ::
    "('w, 'd) compare_api \<Rightarrow> 'w \<Rightarrow> 'w \<Rightarrow> cmp_result \<Rightarrow> ((string \<times> outcome \<times> cmp_result) list \<times> 'd \<times> 'd) option" where
  "int_numeric_answers api a b want =
     (let row_ab = ca_row api a b; row_ba = ca_row api b a
      in case ca_resolved api a b of None \<Rightarrow> None | Some res_ab \<Rightarrow>
         case ca_resolved api b a of None \<Rightarrow> None | Some res_ba \<Rightarrow>
         case key_decision api a b of None \<Rightarrow> None | Some d \<Rightarrow>
           (let m = ca_mirror api d;
                dec_ab = ca_decided api d a b; mir_ba = ca_decided api m b a
            in case key_decision api b a of None \<Rightarrow> None | Some r \<Rightarrow>
              (let dec_ba = ca_decided api r b a
               in Some ([(''tp_value_compare_with_error (i, n)'', row_ab, want),
                         (''tp_value_compare_with_error (n, i)'', row_ba, reversed_result want),
                         (''resolved (i, n)'', res_ab, want),
                         (''resolved (n, i)'', res_ba, reversed_result want),
                         (''decided (i, n)'', dec_ab, want),
                         (''decided (n, i)'', dec_ba, reversed_result want),
                         (''mirror of (i, n) on (n, i)'', mir_ba, reversed_result want)], m, r))))"

definition outcome_check ::
    "(string \<Rightarrow> outcome \<Rightarrow> string) \<Rightarrow> string \<times> outcome \<times> cmp_result \<Rightarrow> mismatches \<Rightarrow> mismatches" where
  "outcome_check msg = (\<lambda>(what, r, w) bad.
     if oc_result r \<noteq> w \<or> \<not> oc_can_compare r \<or> oc_error r \<noteq> NO_ERROR then mm_add (msg what r) bad else bad)"

definition int_numeric_check ::
    "(er_id \<Rightarrow> int) \<Rightarrow> ('w, 'd) compare_api \<Rightarrow> ('w, 'w) intv \<Rightarrow> 'w numv \<Rightarrow>
     (mismatches \<times> nat) option \<Rightarrow> (mismatches \<times> nat) option" where
  "int_numeric_check code api i n st =
     (case st of None \<Rightarrow> None
      | Some (bad, pairs) \<Rightarrow>
     (let want = exact_order (iv_as_num i) n;
          pair = iv_name i @ '' vs '' @ nv_name n
      in case int_numeric_answers api (iv_v i) (nv_v n) (result_of_sign want) of None \<Rightarrow> None
         | Some (checks, m, r) \<Rightarrow>
             (let bad1 = fold (outcome_check (\<lambda>what r. pair @ '': '' @ what @ '' '' @ show_outcome code r
                                 @ '', exact '' @ to_string want)) checks bad;
                  bad2 = (if \<not> ca_equal api m r
                          then mm_add (pair @ '': the mirror of (i, n) is not the decision for (n, i)'') bad1
                          else bad1)
              in Some (bad2, Suc pairs))))"

definition check_int_numeric ::
    "(er_id \<Rightarrow> int) \<Rightarrow> ('w, 'd) compare_api \<Rightarrow> ('w, 'w) intv list \<Rightarrow> 'w numv list \<Rightarrow> (mismatches \<times> nat) option" where
  "check_int_numeric code api ints nums =
     fold (\<lambda>i. fold (\<lambda>n. int_numeric_check code api i n) nums) ints (Some (mm_none, 0))"

section \<open>R: ROUND and TRUNC\<close>

text \<open>
  \<open>op half_up v place\<close> is \<open>db_round_dbval\<close> or \<open>db_trunc_dbval\<close>: the return
  code, the error id afterwards and the result. \<open>read\<close> is \<open>read_out\<close> with the engine's
  accessors.
\<close>

definition round_check ::
    "nat \<Rightarrow> (num_out \<Rightarrow> string) \<Rightarrow> (bool \<Rightarrow> 'v \<Rightarrow> int \<Rightarrow> er_id \<times> er_id \<times> 'r) \<Rightarrow> (er_id \<Rightarrow> er_id \<Rightarrow> 'r \<Rightarrow> num_out) \<Rightarrow>
     bool \<Rightarrow> 'v numv \<Rightarrow> int \<Rightarrow> mismatches \<times> nat \<Rightarrow> mismatches \<times> nat" where
  "round_check twice show_o op read half_up n place = (\<lambda>(bad, evaluated).
     (let (rc, er, res) = op half_up (nv_v n) place;
          got = read rc er res;
          want = develop_round twice n place half_up
      in (if \<not> same_out got want
          then mm_add ((if half_up then ''ROUND ('' else ''TRUNC ('') @ nv_name n @ '', '' @ to_string place
                 @ '') = '' @ show_o got @ '', develop '' @ show_o want) bad
          else bad, Suc evaluated)))"

definition check_round ::
    "nat \<Rightarrow> (num_out \<Rightarrow> string) \<Rightarrow> (bool \<Rightarrow> 'v \<Rightarrow> int \<Rightarrow> er_id \<times> er_id \<times> 'r) \<Rightarrow> (er_id \<Rightarrow> er_id \<Rightarrow> 'r \<Rightarrow> num_out) \<Rightarrow>
     bool \<Rightarrow> 'v numv list \<Rightarrow> mismatches \<times> nat" where
  "check_round twice show_o op read half_up g =
     fold (\<lambda>n. fold (round_check twice show_o op read half_up n) (places_for (nv_s n))) g (mm_none, 0)"

text \<open>R3: the case table. The place is the value's number, whatever integer type carries it; the
  two DOUBLE places are 0.9 and -1.9, which the engine truncates.\<close>

datatype place_value = P_BIGINT int | P_INT int | P_SHORT int | P_DOUBLE rat

record rcase =
  rc_n :: num_spec
  rc_place :: place_value
  rc_place_i :: int
  rc_half_up :: bool
  rc_expect :: string

definition r3_table :: "int \<Rightarrow> rcase list" where
  "r3_table overflow_code =
     (let c = (\<lambda>n p i h e. \<lparr>rc_n = n, rc_place = p, rc_place_i = i, rc_half_up = h, rc_expect = e\<rparr>);
          v125 = (''125'', 3, 1, False, False);
          n125 = (''125'', 3, 1, True, False);
          v1249 = (''1249'', 4, 2, False, False);
          n4 = (''4'', 1, 1, True, True);
          v995 = (''995'', 3, 2, False, False);
          m128 = (M128, 39, 0, False, True);
          m128s = (M128, 39, 38, False, True);
          big = (''9999999999999999999999999999999999999999'', 40, - 214, False, True);
          big213 = (''9999999999999999999999999999999999999999'', 40, - 213, False, True)
      in [c v125 (P_BIGINT 0) 0 True ''130e-1 (p3 float)'',
          c n125 (P_BIGINT 0) 0 True ''-130e-1 (p3 float)'',
          c v1249 (P_BIGINT 0) 0 True ''1200e-2 (p4 float)'',
          c v1249 (P_BIGINT 1) 1 True ''1250e-2 (p4 float)'',
          c n4 (P_BIGINT 0) 0 True ''0e-1 (p1 float)'',
          c n4 (P_BIGINT 0) 0 False ''0e-1 (p1 float)'',
          c v995 (P_BIGINT 1) 1 True ''1000e-2 (p3 float)'',
          c v995 (P_BIGINT 0) 0 True ''1000e-2 (p3 float)'',
          c v125 (P_BIGINT 1) 1 True ''125e-1 (p3 float)'',
          c v125 (P_BIGINT 2) 2 True ''125e-1 (p3 fixed)'',
          c v125 (P_BIGINT DB_BIGINT_MAX) DB_BIGINT_MAX True ''125e-1 (p3 fixed)'',
          c v125 (P_BIGINT (- 1)) (- 1) True ''100e-1 (p3 float)'',
          c v125 (P_BIGINT (- 2)) (- 2) True ''0e-1 (p3 float)'',
          c m128s (P_BIGINT 0) 0 True (''3'' @ replicate 38 (CHR ''0'') @ ''e-38 (p39 float)''),
          c m128s (P_BIGINT (- 1)) (- 1) True ''0e-38 (p39 float)'',
          c m128s (P_BIGINT (- 2)) (- 2) True ''0e-38 (p39 float)'',
          c m128 (P_BIGINT (- 1)) (- 1) True ''340282366920938463463374607431768211460e0 (p39 float)'',
          c m128 (P_BIGINT (- 1)) (- 1) False ''340282366920938463463374607431768211450e0 (p39 float)'',
          c v125 (P_INT 0) 0 True ''130e-1 (p3 float)'',
          c v125 (P_SHORT 0) 0 True ''130e-1 (p3 float)'',
          c v125 (P_DOUBLE (9 / 10)) 0 True ''130e-1 (p3 float)'',
          c v125 (P_DOUBLE (- (19 / 10))) (- 1) True ''100e-1 (p3 float)'',
          c (nines 38, 38, 0, False, False) (P_BIGINT (- 1)) (- 1) True (dec_pow10 38 @ ''e0 (p38 float)''),
          c big (P_BIGINT (- 215)) (- 215) True
            (''rc '' @ to_string overflow_code @ '' er '' @ to_string overflow_code),
          c big213 (P_BIGINT (- 214)) (- 214) True (dec_pow10 39 @ ''e214 (p40 float)'')])"

definition r3_check ::
    "nat \<Rightarrow> (num_out \<Rightarrow> string) \<Rightarrow> (bool \<Rightarrow> 'v \<Rightarrow> place_value \<Rightarrow> er_id \<times> er_id \<times> 'r) \<Rightarrow> (er_id \<Rightarrow> er_id \<Rightarrow> 'r \<Rightarrow> num_out) \<Rightarrow>
     rcase \<times> 'v numv \<Rightarrow> mismatches \<Rightarrow> mismatches" where
  "r3_check twice show_o op read = (\<lambda>(c, n) bad.
     (let (rc, er, res) = op (rc_half_up c) (nv_v n) (rc_place c);
          got = read rc er res;
          want = develop_round twice n (rc_place_i c) (rc_half_up c);
          label = (if rc_half_up c then ''ROUND ('' else ''TRUNC ('') @ nv_name n @ '', '' @ to_string (rc_place_i c) @ '')'';
          bad1 = (if show_o want \<noteq> rc_expect c
                  then mm_add (label @ '': the case table says '' @ rc_expect c @ '', the develop model '' @ show_o want) bad
                  else bad)
      in if \<not> same_out got want
         then mm_add (label @ '' = '' @ show_o got @ '', develop '' @ show_o want) bad1 else bad1))"

section \<open>F: FLOOR and CEIL\<close>

definition floor_ceil_check ::
    "(num_out \<Rightarrow> string) \<Rightarrow> (bool \<Rightarrow> 'v \<Rightarrow> er_id \<times> er_id \<times> 'r) \<Rightarrow> (er_id \<Rightarrow> er_id \<Rightarrow> 'r \<Rightarrow> num_out) \<Rightarrow>
     bool \<Rightarrow> 'v numv \<Rightarrow> mismatches \<times> nat \<Rightarrow> mismatches \<times> nat" where
  "floor_ceil_check show_o op read is_floor n = (\<lambda>(bad, evaluated).
     (let (rc, er, res) = op is_floor (nv_v n);
          got = read rc er res;
          want = develop_floor_ceil n is_floor
      in (if \<not> same_out got want
          then mm_add ((if is_floor then ''FLOOR ('' else ''CEIL ('') @ nv_name n @ '') = '' @ show_o got
                 @ '', develop '' @ show_o want) bad
          else bad, Suc evaluated)))"

text \<open>F1 runs it for FLOOR, then for CEIL, on the same counters.\<close>

definition check_floor_ceil ::
    "(num_out \<Rightarrow> string) \<Rightarrow> (bool \<Rightarrow> 'v \<Rightarrow> er_id \<times> er_id \<times> 'r) \<Rightarrow> (er_id \<Rightarrow> er_id \<Rightarrow> 'r \<Rightarrow> num_out) \<Rightarrow>
     bool \<Rightarrow> 'v numv list \<Rightarrow> mismatches \<times> nat \<Rightarrow> mismatches \<times> nat" where
  "check_floor_ceil show_o op read is_floor g = fold (floor_ceil_check show_o op read is_floor) g"

definition f1_passes ::
    "(num_out \<Rightarrow> string) \<Rightarrow> (bool \<Rightarrow> 'v \<Rightarrow> er_id \<times> er_id \<times> 'r) \<Rightarrow> (er_id \<Rightarrow> er_id \<Rightarrow> 'r \<Rightarrow> num_out) \<Rightarrow>
     'v numv list \<Rightarrow> bool" where
  "f1_passes show_o op read g =
     (let (bad, evaluated) = check_floor_ceil show_o op read False g
            (check_floor_ceil show_o op read True g (mm_none, 0))
      in mm_count bad = 0 \<and> 2000 < evaluated)"

definition f2_table :: "(num_spec \<times> bool \<times> string) list" where
  "f2_table =
     [((''95'', 2, 1, True, False), True, ''-100e-1 (p3 float)''),
      ((''95'', 2, 1, False, False), False, ''100e-1 (p3 float)''),
      ((''95'', 2, 1, False, False), True, ''90e-1 (p2 float)''),
      ((''5'', 1, 2, True, True), True, ''-100e-2 (p3 float)''),
      ((''5'', 1, 1, True, True), False, ''0e-1 (p1 float)''),
      ((nines 38, 38, 38, False, False), False, dec_pow10 38 @ ''e-38 (p39 float)''),
      ((nines 38, 38, 38, True, False), True, ''-'' @ dec_pow10 38 @ ''e-38 (p39 float)''),
      ((''9995'', 38, 2, True, False), True, ''-10000e-2 (p38 float)''),
      ((''15'', 2, 39, True, True), True, ''-'' @ dec_pow10 39 @ ''e-39 (p40 float)''),
      ((''15'', 2, 41, True, True), True, ''-'' @ dec_pow10 39 @ ''e-39 (p40 float)''),
      ((''15'', 2, 41, False, True), True, ''0e-39 (p2 float)''),
      ((TWO128, 39, 1, True, True), True, ''-340282366920938463463374607431768211460e-1 (p39 float)''),
      ((''15'', 2, - 3, True, True), True, ''-15e3 (p2 float)''),
      ((''15'', 2, 0, True, False), False, ''-15e0 (p2 float)'')]"

definition f2_check ::
    "(num_out \<Rightarrow> string) \<Rightarrow> (bool \<Rightarrow> 'v \<Rightarrow> er_id \<times> er_id \<times> 'r) \<Rightarrow> (er_id \<Rightarrow> er_id \<Rightarrow> 'r \<Rightarrow> num_out) \<Rightarrow>
     'v numv \<times> bool \<times> string \<Rightarrow> mismatches \<Rightarrow> mismatches" where
  "f2_check show_o op read = (\<lambda>(n, is_floor, expect) bad.
     (let (rc, er, res) = op is_floor (nv_v n);
          got = read rc er res;
          want = develop_floor_ceil n is_floor;
          label = (if is_floor then ''FLOOR ('' else ''CEIL ('') @ nv_name n @ '')'';
          bad1 = (if show_o want \<noteq> expect
                  then mm_add (label @ '': the case table says '' @ expect @ '', the develop model '' @ show_o want) bad
                  else bad)
      in if \<not> same_out got want
         then mm_add (label @ '' = '' @ show_o got @ '', develop '' @ show_o want) bad1 else bad1))"

section \<open>H: the fast paths\<close>

record taken_state =
  tk_bad :: mismatches
  tk_taken :: nat
  tk_declined :: nat

text \<open>
  \<open>fast v place half_up\<close> is \<open>numeric_db_value_round_to_place\<close>: whether it takes the
  value, the error id afterwards and the result.
\<close>

definition round_taken_check ::
    "nat \<Rightarrow> (num_out \<Rightarrow> string) \<Rightarrow> ('v \<Rightarrow> int \<Rightarrow> bool \<Rightarrow> bool \<times> er_id \<times> 'r) \<Rightarrow> (er_id \<Rightarrow> er_id \<Rightarrow> 'r \<Rightarrow> num_out) \<Rightarrow>
     bool \<Rightarrow> 'v numv \<Rightarrow> int \<Rightarrow> taken_state \<Rightarrow> taken_state" where
  "round_taken_check twice show_o fast read half_up n place st =
     (let (t, er, res) = fast (nv_v n) place half_up;
          want_t = round_taken n place half_up;
          label = ''round_to_place ('' @ nv_name n @ '', '' @ to_string place @ (if half_up then '', ROUND)'' else '', TRUNC)'')
      in if t \<noteq> want_t
         then st\<lparr>tk_bad := mm_add (label @ (if t then '' taken'' else '' declined'') @ '', its comment says ''
                   @ (if want_t then ''taken'' else ''declined'')) (tk_bad st)\<rparr>
         else if \<not> t then st\<lparr>tk_declined := Suc (tk_declined st)\<rparr>
         else
           (let st1 = st\<lparr>tk_taken := Suc (tk_taken st)\<rparr>;
                got = read NO_ERROR er res;
                want = develop_round twice n place half_up
            in if \<not> same_out got want
               then st1\<lparr>tk_bad := mm_add (label @ '' = '' @ show_o got @ '', develop '' @ show_o want) (tk_bad st1)\<rparr>
               else st1))"

definition check_round_taken ::
    "nat \<Rightarrow> (num_out \<Rightarrow> string) \<Rightarrow> ('v \<Rightarrow> int \<Rightarrow> bool \<Rightarrow> bool \<times> er_id \<times> 'r) \<Rightarrow> (er_id \<Rightarrow> er_id \<Rightarrow> 'r \<Rightarrow> num_out) \<Rightarrow>
     'v numv list \<Rightarrow> bool \<Rightarrow> taken_state \<Rightarrow> taken_state" where
  "check_round_taken twice show_o fast read g half_up =
     fold (\<lambda>n. fold (round_taken_check twice show_o fast read half_up n) (places_for (nv_s n))) g"

definition floor_ceil_taken_check ::
    "(num_out \<Rightarrow> string) \<Rightarrow> ('v \<Rightarrow> bool \<Rightarrow> bool \<times> 'r) \<Rightarrow> (er_id \<Rightarrow> er_id \<Rightarrow> 'r \<Rightarrow> num_out) \<Rightarrow>
     'v numv \<Rightarrow> bool \<Rightarrow> taken_state \<Rightarrow> taken_state" where
  "floor_ceil_taken_check show_o fast read n is_floor st =
     (let (t, res) = fast (nv_v n) is_floor;
          want_t = floor_ceil_taken n is_floor;
          label = (if is_floor then ''floor_ceil (FLOOR, '' else ''floor_ceil (CEIL, '') @ nv_name n @ '')''
      in if t \<noteq> want_t
         then st\<lparr>tk_bad := mm_add (label @ (if t then '' taken'' else '' declined'') @ '', its comment says ''
                   @ (if want_t then ''taken'' else ''declined'')) (tk_bad st)\<rparr>
         else if \<not> t then st\<lparr>tk_declined := Suc (tk_declined st)\<rparr>
         else
           (let st1 = st\<lparr>tk_taken := Suc (tk_taken st)\<rparr>;
                got = read NO_ERROR NO_ERROR res;
                want = develop_floor_ceil n is_floor
            in if \<not> same_out got want
               then st1\<lparr>tk_bad := mm_add (label @ '' = '' @ show_o got @ '', develop '' @ show_o want) (tk_bad st1)\<rparr>
               else st1))"

definition h3_run ::
    "(num_out \<Rightarrow> string) \<Rightarrow> ('v \<Rightarrow> bool \<Rightarrow> bool \<times> 'r) \<Rightarrow> (er_id \<Rightarrow> er_id \<Rightarrow> 'r \<Rightarrow> num_out) \<Rightarrow>
     'v numv list \<Rightarrow> taken_state" where
  "h3_run show_o fast read g =
     fold (\<lambda>n. fold (floor_ceil_taken_check show_o fast read n) [True, False]) g
       \<lparr>tk_bad = mm_none, tk_taken = 0, tk_declined = 0\<rparr>"

section \<open>What the loops count\<close>

interpretation x1_bads: tally "\<lambda>(a, b). x1_pair code cmp a b" "\<lambda>st. mm_count (x1_bad st)"
    "\<lambda>(a, b). cmp (nv_v a) (nv_v b) \<noteq> (NO_ERROR, ANS_INTEGER (exact_order a b))" for code cmp
  by unfold_locales (auto simp: x1_pair_def Let_def split: prod.splits)

interpretation x1_pairs: tally "\<lambda>(a, b). x1_pair code cmp a b" x1_pairs "\<lambda>_. True" for code cmp
  by unfold_locales (auto simp: x1_pair_def Let_def split: prod.splits)

interpretation round_bads: tally "\<lambda>(n, place). round_check twice show_o op read half_up n place" "\<lambda>st. mm_count (fst st)"
    "\<lambda>(n, place). \<not> same_out (case op half_up (nv_v n) place of (rc, er, res) \<Rightarrow> read rc er res)
                    (develop_round twice n place half_up)" for twice show_o op read half_up
  by unfold_locales (auto simp: round_check_def Let_def split: prod.splits)

interpretation floor_ceil_bads: tally "floor_ceil_check show_o op read is_floor" "\<lambda>st. mm_count (fst st)"
    "\<lambda>n. \<not> same_out (case op is_floor (nv_v n) of (rc, er, res) \<Rightarrow> read rc er res) (develop_floor_ceil n is_floor)"
    for show_o op read is_floor
  by unfold_locales (auto simp: floor_ceil_check_def Let_def split: prod.splits)

interpretation floor_ceil_evaluated: tally "floor_ceil_check show_o op read is_floor" snd "\<lambda>_. True"
    for show_o op read is_floor
  by unfold_locales (auto simp: floor_ceil_check_def Let_def split: prod.splits)

text \<open>What a call that the fast path takes, or declines, has to look like to count as no mismatch.\<close>

definition round_taken_good ::
    "nat \<Rightarrow> ('v \<Rightarrow> int \<Rightarrow> bool \<Rightarrow> bool \<times> er_id \<times> 'r) \<Rightarrow> (er_id \<Rightarrow> er_id \<Rightarrow> 'r \<Rightarrow> num_out) \<Rightarrow> bool \<Rightarrow> 'v numv \<Rightarrow> int \<Rightarrow> bool" where
  "round_taken_good twice fast read half_up n place \<longleftrightarrow>
     (case fast (nv_v n) place half_up of (t, er, res) \<Rightarrow>
        t = round_taken n place half_up \<and> (t \<longrightarrow> same_out (read NO_ERROR er res) (develop_round twice n place half_up)))"

interpretation round_taken_bads: tally "\<lambda>(n, place). round_taken_check twice show_o fast read half_up n place"
    "\<lambda>st. mm_count (tk_bad st)" "\<lambda>(n, place). \<not> round_taken_good twice fast read half_up n place"
    for twice show_o fast read half_up
  by unfold_locales (auto simp: round_taken_check_def round_taken_good_def Let_def split: prod.splits)

definition floor_ceil_taken_good ::
    "('v \<Rightarrow> bool \<Rightarrow> bool \<times> 'r) \<Rightarrow> (er_id \<Rightarrow> er_id \<Rightarrow> 'r \<Rightarrow> num_out) \<Rightarrow> 'v numv \<Rightarrow> bool \<Rightarrow> bool" where
  "floor_ceil_taken_good fast read n is_floor \<longleftrightarrow>
     (case fast (nv_v n) is_floor of (t, res) \<Rightarrow>
        t = floor_ceil_taken n is_floor \<and> (t \<longrightarrow> same_out (read NO_ERROR NO_ERROR res) (develop_floor_ceil n is_floor)))"

interpretation floor_ceil_taken_bads: tally "\<lambda>(n, is_floor). floor_ceil_taken_check show_o fast read n is_floor"
    "\<lambda>st. mm_count (tk_bad st)" "\<lambda>(n, is_floor). \<not> floor_ceil_taken_good fast read n is_floor"
    for show_o fast read
  by unfold_locales (auto simp: floor_ceil_taken_check_def floor_ceil_taken_good_def Let_def split: prod.splits)

lemma x1_count:
  "mm_count (x1_bad (x1_run code cmp g)) = 0 \<longleftrightarrow>
     (\<forall>a \<in> set g. \<forall>b \<in> set g. cmp (nv_v a) (nv_v b) = (NO_ERROR, ANS_INTEGER (exact_order a b)))"
proof -
  have "mm_count (x1_bad (x1_run code cmp g)) = 0 \<longleftrightarrow>
     (\<forall>x \<in> set (pairs_of (\<lambda>_. g) g). \<not> (case x of (a, b) \<Rightarrow> cmp (nv_v a) (nv_v b) \<noteq> (NO_ERROR, ANS_INTEGER (exact_order a b))))"
    unfolding x1_run_def fold_pairs x1_bads.counter_zero by (simp add: x1_init_def)
  then show ?thesis by auto
qed

lemma x1_pairs_count: "x1_pairs (x1_run code cmp g) = length g * length g"
proof -
  have "x1_pairs (x1_run code cmp g) = x1_pairs x1_init + length (filter (\<lambda>_. True) (pairs_of (\<lambda>_. g) g))"
    unfolding x1_run_def fold_pairs by (rule x1_pairs.counter_fold)
  then show ?thesis by (simp add: length_pairs_of x1_init_def)
qed

lemma round_count:
  "mm_count (fst (check_round twice show_o op read half_up g)) = 0 \<longleftrightarrow>
     (\<forall>n \<in> set g. \<forall>place \<in> set (places_for (nv_s n)).
        same_out (case op half_up (nv_v n) place of (rc, er, res) \<Rightarrow> read rc er res) (develop_round twice n place half_up))"
proof -
  have "mm_count (fst (check_round twice show_o op read half_up g)) = 0 \<longleftrightarrow>
     (\<forall>x \<in> set (pairs_of (\<lambda>n. places_for (nv_s n)) g). \<not> (case x of (n, place) \<Rightarrow>
        \<not> same_out (case op half_up (nv_v n) place of (rc, er, res) \<Rightarrow> read rc er res) (develop_round twice n place half_up)))"
    unfolding check_round_def fold_pairs round_bads.counter_zero by simp
  then show ?thesis by auto
qed

lemma floor_ceil_count:
  "mm_count (fst (check_floor_ceil show_o op read is_floor g st)) = 0 \<longleftrightarrow>
     mm_count (fst st) = 0 \<and> (\<forall>n \<in> set g. same_out (case op is_floor (nv_v n) of (rc, er, res) \<Rightarrow> read rc er res) (develop_floor_ceil n is_floor))"
  unfolding check_floor_ceil_def floor_ceil_bads.counter_zero by simp

lemma floor_ceil_evaluated: "snd (check_floor_ceil show_o op read is_floor g st) = snd st + length g"
  unfolding check_floor_ceil_def floor_ceil_evaluated.counter_fold by simp

lemma round_taken_count:
  "mm_count (tk_bad (check_round_taken twice show_o fast read g half_up st)) = 0 \<longleftrightarrow>
     mm_count (tk_bad st) = 0 \<and>
     (\<forall>n \<in> set g. \<forall>place \<in> set (places_for (nv_s n)). round_taken_good twice fast read half_up n place)"
proof -
  have "mm_count (tk_bad (check_round_taken twice show_o fast read g half_up st)) = 0 \<longleftrightarrow> mm_count (tk_bad st) = 0 \<and>
     (\<forall>x \<in> set (pairs_of (\<lambda>n. places_for (nv_s n)) g). \<not> (case x of (n, place) \<Rightarrow> \<not> round_taken_good twice fast read half_up n place))"
    unfolding check_round_taken_def fold_pairs by (rule round_taken_bads.counter_zero)
  then show ?thesis by auto
qed

lemma h3_count:
  "mm_count (tk_bad (h3_run show_o fast read g)) = 0 \<longleftrightarrow>
     (\<forall>n \<in> set g. \<forall>is_floor. floor_ceil_taken_good fast read n is_floor)"
proof -
  have "mm_count (tk_bad (h3_run show_o fast read g)) = 0 \<longleftrightarrow>
     (\<forall>x \<in> set (pairs_of (\<lambda>_. [True, False]) g). \<not> (case x of (n, is_floor) \<Rightarrow> \<not> floor_ceil_taken_good fast read n is_floor))"
    unfolding h3_run_def fold_pairs floor_ceil_taken_bads.counter_zero by simp
  then show ?thesis by (auto simp: all_bool_eq)
qed

section \<open>The case tables agree with the oracle\<close>

text \<open>The value a call of \<open>make_num\<close> builds, but for the engine's representation.\<close>

definition spec_num :: "'v \<Rightarrow> num_spec \<Rightarrow> 'v numv" where
  "spec_num v = (\<lambda>(m, p, s, neg, fl). let mag = dec_strip m; ng = (neg \<and> mag \<noteq> ''0'') in
     \<lparr>nv_name = numv_name mag p s ng fl, nv_mag = mag, nv_p = p, nv_s = s, nv_neg = ng, nv_is_float = fl, nv_v = v,
      nv_sign = (if mag = ''0'' then 0 else if ng then - 1 else 1), nv_exp10 = int (length mag) - s,
      nv_digits = dec_strip_trailing mag\<rparr>)"

lemma make_num_spec: "make_num mk rd m p s neg fl = Some n \<Longrightarrow> n = spec_num (nv_v n) (m, p, s, neg, fl)"
  by (auto simp: make_num_def spec_num_def Let_def split: prod.splits if_splits)

lemma exact_order_v: "exact_order (a\<lparr>nv_v := x\<rparr>) (b\<lparr>nv_v := y\<rparr>) = exact_order a b"
  by (simp add: exact_order_def)

definition spec_key :: "num_spec \<Rightarrow> int \<times> int \<times> string" where
  "spec_key = (\<lambda>(m, p, s, neg, fl). let mag = dec_strip m in
     (if mag = ''0'' then 0 else if neg then - 1 else 1, int (length mag) - s, dec_strip_trailing mag))"

definition key_order :: "int \<times> int \<times> string \<Rightarrow> int \<times> int \<times> string \<Rightarrow> int" where
  "key_order = (\<lambda>(sa, ea, da) (sb, eb, db).
     (if sa \<noteq> sb then (if sa < sb then - 1 else 1) else if sa = 0 then 0
      else (let c = (if ea \<noteq> eb then (if ea < eb then - 1 else 1)
                     else (let x = str_compare da db in if x < 0 then - 1 else if 0 < x then 1 else 0))
            in if sa < 0 then - c else c)))"

lemma exact_order_key: "exact_order (spec_num v a) (spec_num w b) = key_order (spec_key a) (spec_key b)"
  by (cases a; cases b) (auto simp: exact_order_def key_order_def spec_key_def spec_num_def Let_def)

lemma x3_signed_ok: "list_all (\<lambda>(a, b, want). key_order (spec_key a) (spec_key b) = want) (x3_signed False)"
    "list_all (\<lambda>(a, b, want). key_order (spec_key a) (spec_key b) = want) (x3_signed True)"
  by code_simp+

lemma x3_sevens_key: "list_all (\<lambda>a. spec_key a = (1, 1, ''7'')) x3_sevens"
  by code_simp

lemma x3_zeros_key: "list_all (\<lambda>a. fst (spec_key a) = 0) x3_zeros"
  by code_simp

lemma x3_others:
  "spec_key (dec_add (dec_shift ''7'' 20) ''1'', 21, 20, False, True) = (1, 1, ''700000000000000000001'')"
  "fst (spec_key (''1'', 1, 252, False, True)) = 1" "fst (spec_key (''1'', 1, 252, True, True)) = - 1"
  "list_all (\<lambda>(a, b, want). key_order (spec_key a) (spec_key b) = want)
     [((''1'', 1, 252, False, True), (''9999999999999999999999999999999999999999'', 40, - 214, True, True), 1),
      ((''1'', 1, 38, True, True), (''0'', 1, 0, False, True), - 1)]"
  by code_simp+

lemma key_order_sign: "fst x < fst y \<Longrightarrow> key_order x y = - 1" "fst x = 0 \<Longrightarrow> fst y = 0 \<Longrightarrow> key_order x y = 0"
  by (auto simp: key_order_def split: prod.splits)

lemma x3_table_ok: "list_all (\<lambda>(a, b, want). key_order (spec_key a) (spec_key b) = want) x3_table"
proof -
  have 7: "key_order (1, 1, ''7'') (1, 1, ''7'') = 0" "key_order (1, 1, ''7'') (1, 1, ''700000000000000000001'') = - 1"
    by code_simp+
  have "\<forall>a \<in> set x3_sevens. spec_key a = (1, 1, ''7'')" "\<forall>a \<in> set x3_zeros. fst (spec_key a) = 0"
    using x3_sevens_key x3_zeros_key by (simp_all add: list_all_iff)
  then show ?thesis
    unfolding x3_table_def list_all_append using x3_signed_ok x3_others 7
    by (auto simp: list_all_iff key_order_sign)
qed

section \<open>A plain engine\<close>

text \<open>
  The parameters at work: a constructor that keeps its arguments, their reader, and an engine that
  answers as the oracle says. It shows that what the properties assume of the engine can hold.
\<close>

type_synonym plain = "u8 list \<times> int \<times> int \<times> bool \<times> bool"

definition plain_make :: "u8 list \<Rightarrow> int \<Rightarrow> int \<Rightarrow> bool \<Rightarrow> bool \<Rightarrow> er_id \<times> er_id \<times> plain" where
  "plain_make buf p s neg fl = (NO_ERROR, NO_ERROR, (buf, p, s, neg, fl))"

definition plain_read :: "plain \<Rightarrow> int \<times> int \<times> bool" where
  "plain_read = (\<lambda>(buf, p, s, neg, fl). (p, s, fl))"

definition plain_num :: "plain \<Rightarrow> plain numv" where
  "plain_num v = (case v of (buf, p, s, neg, fl) \<Rightarrow> spec_num v (buf_to_dec buf, p, s, neg, fl))"

lemma plain_maker:
  assumes "good_spec (m, p, s, neg, fl)"
  shows "\<exists>n. make_num plain_make plain_read m p s neg fl = Some n \<and> plain_num (nv_v n) = n"
proof -
  let ?m = "dec_strip m"
  have m: "canon ?m" "is_dec ?m" using assms dec_strip_canon [of m] by (auto simp: good_spec_def canon_def)
  have "length ?m \<le> 40" using assms by (simp add: good_spec_def DB_MAX_NUMERIC_PRECISION_def)
  then have "dec_num ?m < 10 ^ 40"
    using dec_num_bound [OF m(2)] power_increasing [of "length ?m" 40 "10::nat"] by linarith
  then have "dec_num ?m < 2 ^ 136" by simp
  note b = dec_to_buf_read_back [OF m(1) this]
  then obtain buf where buf: "dec_to_buf ?m = (True, buf)" "buf_to_dec buf = ?m"
    by (cases "dec_to_buf ?m") auto
  show ?thesis
    using m by (simp add: make_num_def plain_make_def plain_read_def buf plain_num_def spec_num_def Let_def dec_strip_id)
qed

lemma plain_fold:
  "list_all good_spec specs \<Longrightarrow> list_all (\<lambda>n. plain_num (nv_v n) = n) g \<Longrightarrow>
     \<exists>g'. fold (push_spec (make_num plain_make plain_read)) specs (Some g) = Some (g @ g')
        \<and> list_all (\<lambda>n. plain_num (nv_v n) = n) g'"
proof (induction specs arbitrary: g)
  case (Cons sp specs)
  obtain m p s neg fl where sp: "sp = (m, p, s, neg, fl)" by (cases sp)
  obtain n where n: "make_num plain_make plain_read m p s neg fl = Some n" "plain_num (nv_v n) = n"
    using plain_maker [of m p s neg fl] Cons.prems(1) sp by auto
  have "list_all good_spec specs" "list_all (\<lambda>n. plain_num (nv_v n) = n) (g @ [n])"
    using Cons.prems n(2) by simp_all
  from Cons.IH [OF this] obtain g' where
    "fold (push_spec (make_num plain_make plain_read)) specs (Some (g @ [n])) = Some ((g @ [n]) @ g')"
    "list_all (\<lambda>n. plain_num (nv_v n) = n) g'" by blast
  then show ?case using n sp by (intro exI [of _ "n # g'"]) (simp add: push_spec_def push_num_def)
qed simp

definition plain_compare_grid :: "plain numv list" where
  "plain_compare_grid = the (compare_grid (make_num plain_make plain_read))"

definition plain_round_grid :: "plain numv list" where
  "plain_round_grid = the (round_grid (make_num plain_make plain_read))"

lemma plain_grids:
  "compare_grid (make_num plain_make plain_read) = Some plain_compare_grid"
  "n \<in> set plain_compare_grid \<Longrightarrow> plain_num (nv_v n) = n"
  "round_grid (make_num plain_make plain_read) = Some plain_round_grid"
  "n \<in> set plain_round_grid \<Longrightarrow> plain_num (nv_v n) = n"
  using plain_fold [OF grid_specs_good [OF compare_coefficients_good, of compare_scales], of "[]"]
    plain_fold [OF grid_specs_good [OF round_coefficients_good, of round_scales], of "[]"]
  by (auto simp: compare_grid_def round_grid_def grid_fold plain_compare_grid_def plain_round_grid_def list_all_iff)

section \<open>What the fast paths promise\<close>

lemma round_fits:
  assumes n: "numv_ok n" and place: "place \<le> nv_s n" and small: "dec_num (nv_mag n) < 2 ^ 128"
    and up: "half_up \<Longrightarrow> nv_s n - 38 \<le> place \<Longrightarrow> place < nv_s n \<Longrightarrow> 5 \<le> first_cleared (nv_mag n) (nat (nv_s n - place)) \<Longrightarrow>
       dec_num (up_mag (nv_mag n) (nat (nv_s n - place))) < 2 ^ 128"
  shows "rounded (dec_num (nv_mag n)) (nat (nv_s n - place)) half_up < 2 ^ 128"
proof -
  let ?M = "dec_num (nv_mag n)" and ?k = "nat (nv_s n - place)"
  have m: "canon (nv_mag n)" using n by (simp add: numv_ok_def)
  consider "?k = 0" | "0 < ?k" "?k \<le> 38" | "38 < ?k" by linarith
  then show ?thesis
  proof cases
    case 1
    then show ?thesis using small by (simp add: rounded_def)
  next
    case 2
    have "dec_num (trunc_mag (nv_mag n) ?k) \<le> ?M" using trunc_mag_num [OF m 2(1)] by simp
    then show ?thesis unfolding rounded_mag [OF m 2(1)] using up small 2 by auto
  next
    case 3
    then have "(10::nat) ^ 38 \<le> 10 ^ (?k - 1)" by (intro power_increasing) auto
    moreover have "?M div 10 ^ (?k - 1) mod 10 < 5"
    proof -
      have "?M div 10 ^ (?k - 1) \<le> ?M div 10 ^ 38" using calculation by (intro div_le_mono2) auto
      also have "\<dots> < 5" using small by simp
      finally show ?thesis by simp
    qed
    then have "rounded ?M ?k half_up = ?M div 10 ^ ?k * 10 ^ ?k"
      using 3 rounded_half [of ?k ?M] by (cases half_up) (auto simp: rounded_def)
    moreover have "?M div 10 ^ ?k * 10 ^ ?k \<le> ?M" by simp
    ultimately show ?thesis using small by linarith
  qed
qed

lemma small_length: "canon m \<Longrightarrow> dec_num m < 2 ^ 128 \<Longrightarrow> length m \<le> 39"
proof (rule ccontr)
  assume m: "canon m" "dec_num m < 2 ^ 128" "\<not> length m \<le> 39"
  then have "m \<noteq> ''0''" by auto
  then have "10 ^ (length m - 1) \<le> dec_num m" using canon_lower m(1) by blast
  moreover have "(10::nat) ^ 39 \<le> 10 ^ (length m - 1)" using m(3) by (intro power_increasing) auto
  ultimately show False using m(2) by simp
qed

lemma develop_round_no_error:
  assumes n: "numv_ok n" and place: "place \<le> nv_s n" and "nv_s n \<ge> 0"
  shows "no_rc (develop_round twice n place h) = NO_ERROR"
proof -
  consider "int twice + (if nv_neg n then 1 else 0) < nv_s n - place"
    | "place = nv_s n" "\<not> int twice + (if nv_neg n then 1 else 0) < nv_s n - place"
    | "place < nv_s n" "\<not> int twice + (if nv_neg n then 1 else 0) < nv_s n - place" using place by linarith
  then show ?thesis
  proof cases
    case 1
    then show ?thesis using develop_round_far [OF place 1] by (simp add: finish_round_def num_out_zero_def)
  next
    case 2
    then show ?thesis using develop_round_same [of twice n h] by (simp add: finish_round_def num_out_zero_def)
  next
    case 3
    then show ?thesis unfolding develop_round_near [OF 3 refl] using assms(3)
      by (simp add: finish_round_def num_out_zero_def DB_MIN_NUMERIC_SCALE_def)
  qed
qed

lemma round_taken_unfold:
  "round_taken n place h \<longleftrightarrow> below_2_128 (nv_mag n) \<and> 0 \<le> nv_s n \<and>
     (nv_s n - 38 \<le> place \<longrightarrow> place < nv_s n \<longrightarrow> h \<longrightarrow> 5 \<le> first_cleared (nv_mag n) (nat (nv_s n - place)) \<longrightarrow>
        below_2_128 (up_mag (nv_mag n) (nat (nv_s n - place))))"
  by (auto simp: round_taken_def Let_def first_cleared_def up_mag_def trunc_mag_def)

lemma round_taken_result:
  assumes "numv_ok n" "round_taken n place h" "39 \<le> twice"
  shows "no_rc (develop_round twice n place h) = NO_ERROR \<and> dec_num (no_mag (develop_round twice n place h)) < 2 ^ 128"
proof (cases "nv_s n < place")
  case True
  moreover have "canon (nv_mag n)" using assms(1) by (simp add: numv_ok_def)
  ultimately show ?thesis using assms(2) by (simp add: develop_round_def round_taken_unfold num_out_zero_def below_2_128_num)
next
  case False
  then have place: "place \<le> nv_s n" by simp
  have m: "canon (nv_mag n)" using assms(1) by (simp add: numv_ok_def)
  have t: "below_2_128 (nv_mag n)" "0 \<le> nv_s n" using assms(2) by (simp_all add: round_taken_unfold)
  have small: "dec_num (nv_mag n) < 2 ^ 128" using t(1) below_2_128_num [OF m] by simp
  have len: "length (nv_mag n) \<le> twice" using small_length [OF m small] assms(3) by simp
  note rc = develop_round_no_error [OF assms(1) place t(2), of twice h]
  have up: "dec_num (up_mag (nv_mag n) (nat (nv_s n - place))) < 2 ^ 128"
    if "h" "nv_s n - 38 \<le> place" "place < nv_s n" "5 \<le> first_cleared (nv_mag n) (nat (nv_s n - place))"
    using that assms(2) up_mag_num [OF m, of "nat (nv_s n - place)"]
    by (simp add: round_taken_unfold below_2_128_num)
  obtain j where c: "canon (no_mag (develop_round twice n place h))"
    and R: "dec_num (no_mag (develop_round twice n place h)) * 10 ^ j = rounded (dec_num (nv_mag n)) (nat (nv_s n - place)) h"
    using develop_round_num [OF assms(1) place len rc] by (auto simp: rounds_to_def)
  have "dec_num (no_mag (develop_round twice n place h)) * 1 \<le> dec_num (no_mag (develop_round twice n place h)) * 10 ^ j"
    by (rule mult_le_mono2) simp
  moreover have "rounded (dec_num (nv_mag n)) (nat (nv_s n - place)) h < 2 ^ 128"
    using round_fits [OF assms(1) place small, of h] up by blast
  ultimately have "dec_num (no_mag (develop_round twice n place h)) < 2 ^ 128" unfolding R by linarith
  then show ?thesis using rc by simp
qed

section \<open>Properties\<close>

lemma those_set: "those xs = Some ys \<Longrightarrow> y \<in> set ys \<Longrightarrow> Some y \<in> set xs"
  by (induction xs arbitrary: ys) (auto split: option.splits)

lemma grid_ok: "compare_grid (make_num mk rd) = Some g \<Longrightarrow> n \<in> set g \<Longrightarrow> numv_ok n"
  using compare_grid_good by (auto simp: num_good_def)

lemma exact_want:
  "numv_ok a \<Longrightarrow> numv_ok b \<Longrightarrow> ANS_INTEGER (exact_order a b)
     = ANS_INTEGER (if value_of a < value_of b then - 1 else if value_of a = value_of b then 0 else 1)"
  by (simp add: exact_order_sign)

text \<open>
  C9. X1 is sound and complete on its grid: it reports no mismatch exactly when the engine's compare
  answers, for every pair of the grid, the INTEGER sign of the difference of the two numbers; and it
  looks at more than 500000 pairs.
\<close>

theorem x1_decides_compare:
  assumes g: "compare_grid (make_num mk rd) = Some g"
  shows "(mm_count (x1_bad (x1_run code cmp g)) = 0 \<longleftrightarrow>
      (\<forall>a \<in> set g. \<forall>b \<in> set g. cmp (nv_v a) (nv_v b) =
         (NO_ERROR, ANS_INTEGER (if value_of a < value_of b then - 1 else if value_of a = value_of b then 0 else 1))))
    \<and> 500000 < x1_pairs (x1_run code cmp g)"
proof
  show "mm_count (x1_bad (x1_run code cmp g)) = 0 \<longleftrightarrow>
      (\<forall>a \<in> set g. \<forall>b \<in> set g. cmp (nv_v a) (nv_v b) =
         (NO_ERROR, ANS_INTEGER (if value_of a < value_of b then - 1 else if value_of a = value_of b then 0 else 1)))"
    unfolding x1_count using exact_want grid_ok [OF g] by (metis (no_types, lifting))
  have "length g = 777"
    using g grid_length compare_specs_length unfolding compare_grid_def grid_fold by metis
  then show "500000 < x1_pairs (x1_run code cmp g)" by (simp add: x1_pairs_count)
qed

theorem x1_decides_compare_witness:
  "mm_count (x1_bad (x1_run (\<lambda>_. 0) (\<lambda>v w. (NO_ERROR, ANS_INTEGER (exact_order (plain_num v) (plain_num w)))) plain_compare_grid)) = 0"
proof -
  let ?c = "\<lambda>v w. (NO_ERROR, ANS_INTEGER (exact_order (plain_num v) (plain_num w)))"
  have "\<forall>a \<in> set plain_compare_grid. \<forall>b \<in> set plain_compare_grid. ?c (nv_v a) (nv_v b) =
      (NO_ERROR, ANS_INTEGER (if value_of a < value_of b then - 1 else if value_of a = value_of b then 0 else 1))"
    using plain_grids(2) exact_want grid_ok [OF plain_grids(1)] by (metis (no_types, lifting))
  then show ?thesis using x1_decides_compare [OF plain_grids(1), of "\<lambda>_. 0" ?c] by blast
qed

lemma same_out_value: "same_out a b \<Longrightarrow> no_rc a = NO_ERROR \<Longrightarrow> no_rc b = NO_ERROR \<and> out_value a = out_value b"
  by (auto simp: same_out_def out_value_def split: if_splits)

lemma same_sign_distance:
  "\<bar>v\<bar> - \<bar>w\<bar> < e \<Longrightarrow> \<bar>w\<bar> - \<bar>v\<bar> \<le> e \<Longrightarrow> 0 \<le> w * v \<Longrightarrow> \<bar>w - v\<bar> \<le> e" for v w e :: real
  by (auto simp: zero_le_mult_iff)

text \<open>
  ROUND, as the model of develop has it, answers a multiple of the place at most half a unit away,
  and rounds the halves away from zero.
\<close>

theorem develop_round_nearest:
  assumes "numv_ok n" "place \<le> nv_s n" "length (nv_mag n) \<le> twice"
    and "no_rc (develop_round twice n place True) = NO_ERROR"
  shows "\<bar>out_value (develop_round twice n place True) - value_of n\<bar> \<le> 10 powi (- place) / 2
    \<and> \<bar>value_of n\<bar> - \<bar>out_value (develop_round twice n place True)\<bar> < 10 powi (- place) / 2
    \<and> (\<exists>z. out_value (develop_round twice n place True) = of_int z * 10 powi (- place))"
  using develop_round_half [OF assms] same_sign_distance by blast

text \<open>NUMERIC(3,1) -12.5.\<close>

definition n125 :: "unit numv" where "n125 = spec_num () (''125'', 3, 1, True, False)"

lemma n125_keys:
  "numv_ok n125" "nv_s n125 = 1" "nv_mag n125 = ''125''" "nv_neg n125" "dec_num ''125'' = 125"
  by code_simp+

lemma n125_facts: "numv_ok n125" "nv_s n125 = 1" "nv_mag n125 = ''125''" "value_of n125 = - 12.5"
  using n125_keys by (simp_all add: value_of_units power_int_minus)

lemma n125_round: "no_rc (develop_round 80 n125 0 True) = NO_ERROR"
  "no_mag (develop_round 80 n125 0 True) = ''130''" "no_s (develop_round 80 n125 0 True) = 1"
  by code_simp+

theorem develop_round_nearest_witness:
  "\<bar>out_value (develop_round 80 n125 0 True) - (- 12.5)\<bar> \<le> 1 / 2"
  using develop_round_nearest [of n125 0 80] n125_facts n125_round by simp

text \<open>TRUNC, as the model of develop has it, never fails and cuts towards zero to a multiple of the place.\<close>

theorem develop_trunc_towards_zero:
  assumes "numv_ok n" "place \<le> nv_s n" "length (nv_mag n) \<le> twice"
  shows "no_rc (develop_round twice n place False) = NO_ERROR
    \<and> \<bar>out_value (develop_round twice n place False)\<bar> \<le> \<bar>value_of n\<bar>
    \<and> \<bar>value_of n\<bar> - \<bar>out_value (develop_round twice n place False)\<bar> < 10 powi (- place)
    \<and> 0 \<le> out_value (develop_round twice n place False) * value_of n
    \<and> (\<exists>z. out_value (develop_round twice n place False) = of_int z * 10 powi (- place))"
  by (rule develop_trunc_cut [OF assms])

theorem develop_trunc_towards_zero_witness: "no_rc (develop_round 80 n125 0 False) = NO_ERROR"
  using develop_trunc_towards_zero [of n125 0 80] n125_facts by simp

text \<open>
  FLOOR and CEIL, as the model of develop has them, answer the floor and the ceiling of the value,
  for every NUMERIC of at most 40 digits, whatever scale the result is given.
\<close>

theorem develop_floor_ceil_exact:
  assumes "numv_ok n" "length (nv_mag n) \<le> DB_MAX_NUMERIC_PRECISION"
  shows "out_value (develop_floor_ceil n is_floor) = of_int (if is_floor then \<lfloor>value_of n\<rfloor> else \<lceil>value_of n\<rceil>)"
  by (rule develop_floor_ceil_value [OF assms])

theorem develop_floor_ceil_exact_witness: "out_value (develop_floor_ceil n125 True) = - 13"
  using develop_floor_ceil_exact [of n125 True] n125_facts by (simp add: DB_MAX_NUMERIC_PRECISION_def)

text \<open>
  C39. An engine that passes R1 rounds every NUMERIC of the grid, at every place tried, to a nearest
  multiple of the place, whenever it answers without an error.
\<close>

theorem r1_rounds_to_nearest:
  assumes g: "round_grid (make_num mk rd) = Some g"
    and pass: "mm_count (fst (check_round twice show_o op read True g)) = 0" and twice: "40 \<le> twice"
    and n: "n \<in> set g" and place: "place \<in> set (places_for (nv_s n))" "place \<le> nv_s n"
    and op: "op True (nv_v n) place = (rc, er, res)" "no_rc (read rc er res) = NO_ERROR"
  shows "\<bar>out_value (read rc er res) - value_of n\<bar> \<le> 10 powi (- place) / 2
    \<and> (\<exists>z. out_value (read rc er res) = of_int z * 10 powi (- place))"
proof -
  have ok: "numv_ok n" "length (nv_mag n) \<le> twice"
    using round_grid_good [OF g n] twice by (auto simp: num_good_def DB_MAX_NUMERIC_PRECISION_def)
  have "same_out (read rc er res) (develop_round twice n place True)"
    using pass n place(1) op(1) unfolding round_count by fastforce
  from same_out_value [OF this op(2)] have rc: "no_rc (develop_round twice n place True) = NO_ERROR"
    and v: "out_value (read rc er res) = out_value (develop_round twice n place True)" by simp_all
  have "\<bar>out_value (develop_round twice n place True) - value_of n\<bar> \<le> 10 powi (- place) / 2"
    "\<exists>z. out_value (develop_round twice n place True) = of_int z * 10 powi (- place)"
    using develop_round_half [OF ok(1) place(2) ok(2) rc] same_sign_distance by blast+
  then show ?thesis using v by simp
qed

text \<open>The engine that answers as develop does passes.\<close>

lemma list_all2_set1: "list_all2 P xs ys \<Longrightarrow> x \<in> set xs \<Longrightarrow> \<exists>y \<in> set ys. P x y"
  by (induction rule: list_all2_induct) auto

lemma grid_specs_member: "c \<in> set cs \<Longrightarrow> s \<in> set ss \<Longrightarrow> sp \<in> set (form_specs c s) \<Longrightarrow> sp \<in> set (grid_specs cs ss)"
  by (auto simp: grid_specs_def)

lemma grid_member2:
  assumes "fold (push_spec mkn) specs (Some []) = Some g" "(m, p, s, neg, fl) \<in> set specs"
  shows "\<exists>n \<in> set g. mkn m p s neg fl = Some n"
proof -
  obtain new where "g = [] @ new" and new: "list_all2 (\<lambda>(m, p, s, neg, fl) n. mkn m p s neg fl = Some n) specs new"
    using fold_push_Some [OF assms(1)] by blast
  then show ?thesis using list_all2_set1 [OF new assms(2)] by simp
qed

definition plain_round :: "bool \<Rightarrow> plain \<Rightarrow> int \<Rightarrow> er_id \<times> er_id \<times> num_out" where
  "plain_round h v place = (let r = develop_round 80 (plain_num v) place h in (no_rc r, no_er r, r))"

lemma plain_round_passes:
  "mm_count (fst (check_round 80 show_o plain_round (\<lambda>_ _ r. r) h plain_round_grid)) = 0"
  unfolding round_count using plain_grids(4) by (simp add: plain_round_def Let_def same_out_def)

lemma plain_round_member: "\<exists>n \<in> set plain_round_grid. nv_mag n = ''12345'' \<and> nv_s n = 2"
proof -
  let ?specs = "grid_specs round_coefficients round_scales"
  have sp: "(''12345'', 5, 2, False, True) \<in> set ?specs"
    by (rule grid_specs_member [of "''12345''" _ 2]) code_simp+
  have "fold (push_spec (make_num plain_make plain_read)) ?specs (Some []) = Some plain_round_grid"
    using plain_grids(3) by (simp add: round_grid_def grid_fold)
  from grid_member2 [OF this sp] obtain n where n: "n \<in> set plain_round_grid"
    "make_num plain_make plain_read ''12345'' 5 2 False True = Some n" by blast
  have m: "dec_strip ''12345'' = ''12345''" by code_simp
  have "n = spec_num (nv_v n) (''12345'', 5, 2, False, True)" by (rule make_num_spec [OF n(2)])
  then obtain v where "n = spec_num v (''12345'', 5, 2, False, True)" by blast
  then have "nv_mag n = ''12345''" "nv_s n = 2" using m by (simp_all add: spec_num_def Let_def)
  then show ?thesis using n(1) by blast
qed

theorem r1_rounds_to_nearest_witness:
  "\<exists>n \<in> set plain_round_grid. nv_mag n = ''12345'' \<and> nv_s n = 2 \<and>
     \<bar>out_value (snd (snd (plain_round True (nv_v n) 1))) - value_of n\<bar> \<le> 10 powi (- 1) / 2"
proof -
  obtain n where n: "n \<in> set plain_round_grid" "nv_mag n = ''12345''" "nv_s n = 2" using plain_round_member by blast
  let ?r = "develop_round 80 (plain_num (nv_v n)) 1 True"
  have p: "1 \<in> set (places_for (nv_s n))" unfolding n(3) by code_simp
  have "numv_ok n" using round_grid_good [OF plain_grids(3) n(1)] by (simp add: num_good_def)
  then have e: "no_rc ?r = NO_ERROR"
    using plain_grids(4) [OF n(1)] n(3) by (intro develop_round_no_error) simp_all
  have op: "plain_round True (nv_v n) 1 = (no_rc ?r, no_er ?r, ?r)" by (simp add: plain_round_def Let_def)
  have "1 \<le> nv_s n" using n(3) by simp
  from r1_rounds_to_nearest [OF plain_grids(3) plain_round_passes _ n(1) p this op e]
  show ?thesis using n op by (intro bexI [OF _ n(1)]) simp_all
qed

text \<open>
  The promise of the 128-bit rounding path can be kept: for every input it promises to take, the
  answer of develop's ROUND or TRUNC has no error and a coefficient below \<open>2 ^ 128\<close>.
\<close>

theorem round_taken_fits:
  assumes "numv_ok n" "round_taken n place h" "39 \<le> twice"
  shows "no_rc (develop_round twice n place h) = NO_ERROR
    \<and> dec_num (no_mag (develop_round twice n place h)) < 2 ^ 128"
  by (rule round_taken_result [OF assms])

theorem round_taken_fits_witness: "dec_num (no_mag (develop_round 80 n125 0 True)) < 2 ^ 128"
proof -
  have "round_taken n125 0 True" by code_simp
  then show ?thesis using round_taken_fits [of n125 0 True 80] n125_facts(1) by simp
qed

lemma those_all: "(\<And>x. x \<in> set xs \<Longrightarrow> x \<noteq> None) \<Longrightarrow> \<exists>ys. those xs = Some ys"
  by (induction xs) (fastforce split: option.splits)+

lemma x3_parts_good:
  "list_all (\<lambda>(a, b, want). good_spec a \<and> good_spec b) (x3_signed False)"
  "list_all (\<lambda>(a, b, want). good_spec a \<and> good_spec b) (x3_signed True)"
  "list_all good_spec x3_sevens" "list_all good_spec x3_zeros"
  "good_spec (dec_add (dec_shift ''7'' 20) ''1'', 21, 20, False, True)"
  "good_spec (''1'', 1, 252, False, True)" "good_spec (''1'', 1, 252, True, True)"
  "good_spec (''9999999999999999999999999999999999999999'', 40, - 214, True, True)"
  "good_spec (''1'', 1, 38, True, True)" "good_spec (''0'', 1, 0, False, True)"
  by code_simp+

lemma x3_table_good: "list_all (\<lambda>(a, b, want). good_spec a \<and> good_spec b) x3_table"
  unfolding x3_table_def list_all_append using x3_parts_good by (auto simp: list_all_iff)

lemma x3_plain_cases: "\<exists>cases. x3_cases (make_num plain_make plain_read) = Some cases"
  unfolding x3_cases_def
proof (rule those_all)
  fix x assume "x \<in> set (map (\<lambda>((m, p, s, neg, fl), (m', p', s', neg', fl'), want).
     case make_num plain_make plain_read m p s neg fl of None \<Rightarrow> None
     | Some a \<Rightarrow> (case make_num plain_make plain_read m' p' s' neg' fl' of None \<Rightarrow> None | Some b \<Rightarrow> Some (a, b, want))) x3_table)"
  then obtain m p s neg fl m' p' s' neg' fl' want where row: "((m, p, s, neg, fl), (m', p', s', neg', fl'), want) \<in> set x3_table"
    and x: "x = (case make_num plain_make plain_read m p s neg fl of None \<Rightarrow> None
     | Some a \<Rightarrow> (case make_num plain_make plain_read m' p' s' neg' fl' of None \<Rightarrow> None | Some b \<Rightarrow> Some (a, b, want)))"
    by auto
  have "good_spec (m, p, s, neg, fl)" "good_spec (m', p', s', neg', fl')"
    using x3_table_good row by (auto simp: list_all_iff)
  then obtain a b where "make_num plain_make plain_read m p s neg fl = Some a"
    "make_num plain_make plain_read m' p' s' neg' fl' = Some b"
    using plain_maker by metis
  then show "x \<noteq> None" using x by simp
qed

text \<open>The case table of X3 never disagrees with the oracle.\<close>

theorem x3_table_agrees:
  assumes "x3_cases (make_num mk rd) = Some cases" "(a, b, want) \<in> set cases"
  shows "exact_order a b = want"
proof -
  obtain x y where xy: "(x, y, want) \<in> set x3_table" "a = spec_num (nv_v a) x" "b = spec_num (nv_v b) y"
  proof -
    obtain m p s neg fl m' p' s' neg' fl' where mk: "((m, p, s, neg, fl), (m', p', s', neg', fl'), want) \<in> set x3_table"
      "make_num mk rd m p s neg fl = Some a" "make_num mk rd m' p' s' neg' fl' = Some b"
      using those_set [OF assms(1) [unfolded x3_cases_def] assms(2)] by (auto split: option.splits)
    show thesis by (rule that [OF mk(1) make_num_spec [OF mk(2)] make_num_spec [OF mk(3)]])
  qed
  then have "key_order (spec_key x) (spec_key y) = want" using x3_table_ok by (auto simp: list_all_iff)
  then show ?thesis using exact_order_key [of "nv_v a" x "nv_v b" y] xy(2,3) by simp
qed

theorem x3_table_agrees_witness:
  "list_all (\<lambda>(a, b, want). exact_order a b = want) (the (x3_cases (make_num plain_make plain_read)))"
proof -
  obtain cases where c: "x3_cases (make_num plain_make plain_read) = Some cases" using x3_plain_cases by blast
  have "exact_order a b = want" if "(a, b, want) \<in> set cases" for a b want
    by (rule x3_table_agrees [OF c that])
  then show ?thesis unfolding c by (auto simp: list_all_iff)
qed

lemma develop_round_length:
  assumes "nv_s n - place \<le> 40" "40 \<le> twice"
  shows "develop_round twice n place h = develop_round 40 n place h"
proof -
  have "\<not> int twice + (if nv_neg n then 1 else 0) < nv_s n - place" "\<not> int 40 + (if nv_neg n then 1 else 0) < nv_s n - place"
    using assms by auto
  then show ?thesis by (simp add: develop_round_def Let_def)
qed

text \<open>The oracle's value without its name and representation, which no answer depends on.\<close>

definition bare_num :: "num_spec \<Rightarrow> unit numv" where
  "bare_num = (\<lambda>(m, p, s, neg, fl). let mag = dec_strip m in
     \<lparr>nv_name = '''', nv_mag = mag, nv_p = p, nv_s = s, nv_neg = (neg \<and> mag \<noteq> ''0''), nv_is_float = fl, nv_v = (),
      nv_sign = 0, nv_exp10 = 0, nv_digits = ''''\<rparr>)"

lemma bare_num_parts:
  "nv_mag (spec_num v sp) = nv_mag (bare_num sp)" "nv_p (spec_num v sp) = nv_p (bare_num sp)"
  "nv_s (spec_num v sp) = nv_s (bare_num sp)" "nv_neg (spec_num v sp) = nv_neg (bare_num sp)"
  "nv_is_float (spec_num v sp) = nv_is_float (bare_num sp)"
  by (cases sp; simp add: bare_num_def spec_num_def Let_def)+

lemma bare_num_answers:
  "develop_round twice (spec_num v sp) place h = develop_round twice (bare_num sp) place h"
  "develop_floor_ceil (spec_num v sp) is_floor = develop_floor_ceil (bare_num sp) is_floor"
  by (simp_all only: develop_round_def develop_floor_ceil_def bare_num_parts)

definition r3_row_ok :: "rcase \<Rightarrow> bool" where
  "r3_row_ok c \<longleftrightarrow> nv_s (bare_num (rc_n c)) - rc_place_i c \<le> 40 \<and>
     (let r = develop_round 40 (bare_num (rc_n c)) (rc_place_i c) (rc_half_up c)
      in show_out (\<lambda>_. 7) (\<lambda>_. 0) r = rc_expect c)"

lemma r3_rows_eval: "list_all r3_row_ok (r3_table 7)"
  by code_simp

definition f2_row_ok :: "num_spec \<times> bool \<times> string \<Rightarrow> bool" where
  "f2_row_ok = (\<lambda>(sp, is_floor, expect). show_out (\<lambda>_. 0) (\<lambda>_. 0) (develop_floor_ceil (bare_num sp) is_floor) = expect)"

lemma f2_rows_eval: "list_all f2_row_ok f2_table"
  by code_simp

text \<open>
  The case tables of R3 and F2 never disagree with the models of develop's ROUND, TRUNC, FLOOR and
  CEIL: at every row the model's answer prints as the table expects (the number 7 stands for the code
  of the overflow error).
\<close>

theorem rounding_tables_agree:
  "(\<forall>c \<in> set (r3_table 7). show_out (\<lambda>_. 7) (\<lambda>_. 0)
        (develop_round 40 (spec_num v (rc_n c)) (rc_place_i c) (rc_half_up c)) = rc_expect c)
   \<and> (\<forall>(sp, is_floor, expect) \<in> set f2_table. show_out (\<lambda>_. 0) (\<lambda>_. 0)
        (develop_floor_ceil (spec_num v sp) is_floor) = expect)"
  using r3_rows_eval f2_rows_eval
  unfolding bare_num_answers list_all_iff r3_row_ok_def f2_row_ok_def Let_def by fast

theorem rounding_tables_agree_witness:
  "show_out (\<lambda>_. 0) (\<lambda>_. 0) (develop_floor_ceil (spec_num () (''95'', 2, 1, True, False)) True) = ''-100e-1 (p3 float)''"
proof -
  have "((''95'', 2, 1, True, False), True, ''-100e-1 (p3 float)'') \<in> set f2_table"
    by (simp add: f2_table_def)
  with rounding_tables_agree [of "()", THEN conjunct2] show ?thesis by fast
qed

text \<open>
  An engine that passes F1 answers, for every NUMERIC of the grid, the exact floor and the exact
  ceiling whenever it answers without an error; and F1's own coverage check holds.
\<close>

theorem f1_floor_ceil_exact:
  assumes g: "round_grid (make_num mk rd) = Some g"
    and pass: "f1_passes show_o op read g" and n: "n \<in> set g"
    and op: "op is_floor (nv_v n) = (rc, er, res)"
  shows "no_rc (read rc er res) = NO_ERROR \<and>
    out_value (read rc er res) = of_int (if is_floor then \<lfloor>value_of n\<rfloor> else \<lceil>value_of n\<rceil>)"
proof -
  have ok: "numv_ok n" "length (nv_mag n) \<le> DB_MAX_NUMERIC_PRECISION"
    using round_grid_good [OF g n] by (simp_all add: num_good_def)
  have "mm_count (fst (check_floor_ceil show_o op read False g (check_floor_ceil show_o op read True g (mm_none, 0)))) = 0"
    using pass by (simp add: f1_passes_def Let_def split: prod.splits)
  then have "same_out (case op is_floor (nv_v n) of (rc, er, res) \<Rightarrow> read rc er res) (develop_floor_ceil n is_floor)"
    unfolding floor_ceil_count using n by (cases is_floor) auto
  then have s: "same_out (read rc er res) (develop_floor_ceil n is_floor)" using op by simp
  have "no_rc (develop_floor_ceil n is_floor) = NO_ERROR"
    by (simp add: develop_floor_ceil_def Let_def num_out_zero_def)
  then have rc: "no_rc (read rc er res) = NO_ERROR" using s by (auto simp: same_out_def split: if_splits)
  then show ?thesis using same_out_value [OF s rc] develop_floor_ceil_value [OF ok] by simp
qed

definition plain_floor_ceil :: "bool \<Rightarrow> plain \<Rightarrow> er_id \<times> er_id \<times> num_out" where
  "plain_floor_ceil is_floor v = (NO_ERROR, NO_ERROR, develop_floor_ceil (plain_num v) is_floor)"

lemma plain_floor_ceil_passes: "f1_passes show_o plain_floor_ceil (\<lambda>_ _ r. r) plain_round_grid"
proof -
  have "fold (push_spec (make_num plain_make plain_read)) (grid_specs round_coefficients round_scales) (Some []) = Some plain_round_grid"
    using plain_grids(3) by (simp add: round_grid_def grid_fold)
  then have len: "length plain_round_grid = 1951" using grid_length round_specs_length by metis
  have same: "same_out r r" for r by (simp add: same_out_def)
  let ?st = "check_floor_ceil show_o plain_floor_ceil (\<lambda>_ _ r. r) False plain_round_grid
      (check_floor_ceil show_o plain_floor_ceil (\<lambda>_ _ r. r) True plain_round_grid (mm_none, 0))"
  have "mm_count (fst ?st) = 0"
    unfolding floor_ceil_count using plain_grids(4) by (simp add: plain_floor_ceil_def same)
  moreover have "snd ?st = 3902" unfolding floor_ceil_evaluated len by simp
  ultimately show ?thesis by (simp add: f1_passes_def split_beta)
qed

theorem f1_floor_ceil_exact_witness:
  "\<exists>n \<in> set plain_round_grid. nv_mag n = ''12345'' \<and>
     out_value (snd (snd (plain_floor_ceil True (nv_v n)))) = of_int \<lfloor>value_of n\<rfloor>"
proof -
  obtain n where n: "n \<in> set plain_round_grid" "nv_mag n = ''12345''" using plain_round_member by blast
  obtain rc er res where op: "plain_floor_ceil True (nv_v n) = (rc, er, res)" by (cases "plain_floor_ceil True (nv_v n)")
  show ?thesis using f1_floor_ceil_exact [OF plain_grids(3) plain_floor_ceil_passes n(1) op] n op
    by (intro bexI [OF _ n(1)]) simp
qed

section \<open>Integers against NUMERIC\<close>

definition agrees :: "outcome \<Rightarrow> cmp_result \<Rightarrow> bool" where
  "agrees r w \<longleftrightarrow> oc_result r = w \<and> oc_can_compare r \<and> oc_error r = NO_ERROR"

interpretation outcome_bads: tally "outcome_check msg" mm_count "\<lambda>(what, r, w). \<not> agrees r w" for msg
  by unfold_locales (auto simp: agrees_def outcome_check_def)

text \<open>What a pair that reports nothing has: every answer is the expected one.\<close>

definition int_numeric_good :: "('w, 'd) compare_api \<Rightarrow> 'w \<Rightarrow> 'w \<Rightarrow> cmp_result \<Rightarrow> bool" where
  "int_numeric_good api a b w \<longleftrightarrow>
     (case int_numeric_answers api a b w of None \<Rightarrow> False
      | Some (checks, m, r) \<Rightarrow> list_all (\<lambda>(what, r, w). agrees r w) checks \<and> ca_equal api m r)"

lemma int_numeric_good_row:
  "int_numeric_good api a b w \<Longrightarrow> agrees (ca_row api a b) w \<and> agrees (ca_row api b a) (reversed_result w)"
  by (auto simp: int_numeric_good_def int_numeric_answers_def Let_def split: option.splits)

lemma int_numeric_check_None: "fold (\<lambda>(i, n). int_numeric_check code api i n) xs None = None"
  by (induction xs) (auto simp: int_numeric_check_def)

lemma int_numeric_step:
  assumes "int_numeric_check code api i n (Some (bad, pairs)) = Some (bad', pairs')" "mm_count bad' = 0"
  shows "int_numeric_good api (iv_v i) (nv_v n) (result_of_sign (exact_order (iv_as_num i) n)) \<and> mm_count bad = 0"
proof -
  obtain checks m r where a: "int_numeric_answers api (iv_v i) (nv_v n) (result_of_sign (exact_order (iv_as_num i) n)) = Some (checks, m, r)"
    using assms(1) by (auto simp: int_numeric_check_def Let_def split: option.splits)
  then show ?thesis
    using assms unfolding int_numeric_check_def Let_def
    by (auto simp: int_numeric_good_def outcome_bads.counter_zero list_all_iff split: if_splits)
qed

lemma int_numeric_fold:
  "fold (\<lambda>(i, n). int_numeric_check code api i n) xs (Some (bad, pairs)) = Some (bad', pairs') \<Longrightarrow> mm_count bad' = 0 \<Longrightarrow>
     mm_count bad = 0 \<and> (\<forall>(i, n) \<in> set xs. int_numeric_good api (iv_v i) (nv_v n) (result_of_sign (exact_order (iv_as_num i) n)))"
proof (induction xs arbitrary: bad pairs)
  case (Cons x xs)
  obtain i n where x: "x = (i, n)" by (cases x)
  obtain b p where s: "int_numeric_check code api i n (Some (bad, pairs)) = Some (b, p)"
    using Cons.prems(1) int_numeric_check_None [of code api xs] x
    by (cases "int_numeric_check code api i n (Some (bad, pairs))") auto
  then have IH: "mm_count b = 0" "\<forall>(i, n) \<in> set xs. int_numeric_good api (iv_v i) (nv_v n) (result_of_sign (exact_order (iv_as_num i) n))"
    using Cons.IH [of b p] Cons.prems x by simp_all
  then show ?case using int_numeric_step [OF s] x by simp
qed simp

lemma check_int_numeric_sound:
  assumes "check_int_numeric code api ints nums = Some (bad, pairs)" "mm_count bad = 0" "i \<in> set ints" "n \<in> set nums"
  shows "int_numeric_good api (iv_v i) (nv_v n) (result_of_sign (exact_order (iv_as_num i) n))"
  using int_numeric_fold [OF assms(1) [unfolded check_int_numeric_def fold_pairs] assms(2)] assms(3,4) by fastforce

lemma int_grid_member:
  assumes "fold (\<lambda>(t, i) g. case g of None \<Rightarrow> None
             | Some xs \<Rightarrow> (case make_int mkn mki tn t i of None \<Rightarrow> None | Some x \<Rightarrow> Some (xs @ [x]))) vs (Some g) = Some g'"
    and "x \<in> set g'"
  shows "x \<in> set g \<or> (\<exists>(t, i) \<in> set vs. make_int mkn mki tn t i = Some x)"
  using assms
proof (induction vs arbitrary: g)
  case (Cons v vs)
  obtain t i where v: "v = (t, i)" by (cases v)
  have none: "fold (\<lambda>(t, i) g. case g of None \<Rightarrow> None
             | Some xs \<Rightarrow> (case make_int mkn mki tn t i of None \<Rightarrow> None | Some x \<Rightarrow> Some (xs @ [x]))) vs None = None" for vs
    by (induction vs) auto
  obtain y where y: "make_int mkn mki tn t i = Some y"
    using Cons.prems(1) none by (cases "make_int mkn mki tn t i") (auto simp: v)
  then show ?case using Cons.IH [of "g @ [y]"] Cons.prems by (auto simp: v)
qed simp

lemma int_grid_value:
  assumes "int_grid (make_num mk rd) mki tn = Some g" "x \<in> set g"
  shows "value_of (iv_as_num x) = of_int (iv_i x)" "numv_ok (iv_as_num x)"
proof -
  obtain t i where m: "(t, i) \<in> set int_grid_values" "make_int (make_num mk rd) mki tn t i = Some x"
    using int_grid_member [OF assms(1) [unfolded int_grid_def] assms(2)] by auto
  then have r: "- (2 ^ 63) \<le> i" "i < 2 ^ 63" using int_grid_values_range by (auto simp: list_all_iff)
  have "iv_i x = i" using m(2) by (auto simp: make_int_def Let_def split: option.splits)
  then show "value_of (iv_as_num x) = of_int (iv_i x)" "numv_ok (iv_as_num x)"
    using make_int_value [OF m(2) r] by simp_all
qed

text \<open>
  When the loop over integers and NUMERIC values reports no mismatch, the row comparison answers,
  in both argument orders, the sign of the difference of the integer and the number the NUMERIC stands
  for - for any 64-bit integer, the smallest included, whose magnitude is computed with a wrap-around.
\<close>

theorem int_numeric_rows_exact:
  assumes run: "check_int_numeric code api ints nums = Some (bad, pairs)" "mm_count bad = 0"
    and x: "x \<in> set ints" "make_int (make_num mk rd) mki tn t i = Some x" "- (2 ^ 63) \<le> i" "i < 2 ^ 63"
    and n: "n \<in> set nums" "numv_ok n"
    and w: "w = (if of_int i < value_of n then DB_LT else if of_int i = value_of n then DB_EQ else DB_GT)"
  shows "ca_row api (mki t i) (nv_v n) = \<lparr>oc_result = w, oc_can_compare = True, oc_error = NO_ERROR\<rparr>
    \<and> ca_row api (nv_v n) (mki t i) = \<lparr>oc_result = reversed_result w, oc_can_compare = True, oc_error = NO_ERROR\<rparr>"
proof -
  note v = make_int_value [OF x(2-4)]
  have "result_of_sign (exact_order (iv_as_num x) n) = w"
    unfolding exact_order_sign [OF v(2) n(2)] v(1) w by (simp add: result_of_sign_def)
  then have "int_numeric_good api (mki t i) (nv_v n) w"
    using check_int_numeric_sound [OF run x(1) n(1)] v(3) by simp
  from int_numeric_good_row [OF this] show ?thesis by (simp add: agrees_def)
qed

definition plain_int :: "int_type \<Rightarrow> int \<Rightarrow> plain" where
  "plain_int t i = (snd (dec_to_buf (dec_of_nat (nat \<bar>i\<bar>))), 1, 0, i < 0, True)"

definition plain_row :: "plain \<Rightarrow> plain \<Rightarrow> outcome" where
  "plain_row a b = \<lparr>oc_result = result_of_sign (exact_order (plain_num a) (plain_num b)), oc_can_compare = True, oc_error = NO_ERROR\<rparr>"

definition plain_api :: "(plain, unit) compare_api" where
  "plain_api = \<lparr>ca_row = plain_row, ca_resolved = (\<lambda>a b. Some (plain_row a b)), ca_resolve = (\<lambda>_ _. Some ()),
     ca_no_conversion = (\<lambda>_. True), ca_first_source = (\<lambda>d. d), ca_mirror = (\<lambda>d. d),
     ca_decided = (\<lambda>_. plain_row), ca_equal = (\<lambda>_ _. True)\<rparr>"

definition plain_7 :: "(plain, plain) intv" where
  "plain_7 = the (make_int (make_num plain_make plain_read) plain_int (\<lambda>_. ''bigint'') T_BIGINT (- 7))"

definition plain_9 :: "plain numv" where
  "plain_9 = the (make_num plain_make plain_read ''7'' 2 1 True False)"

lemma plain_check:
  "check_int_numeric (\<lambda>_. 0) plain_api [plain_7] [plain_9] = Some (mm_none, 1)"
  "make_int (make_num plain_make plain_read) plain_int (\<lambda>_. ''bigint'') T_BIGINT (- 7) = Some plain_7"
  "numv_ok plain_9" "nv_neg plain_9" "dec_num (nv_mag plain_9) = 7" "nv_s plain_9 = 1"
  by code_simp+

theorem int_numeric_rows_exact_witness: "oc_result (ca_row plain_api (plain_int T_BIGINT (- 7)) (nv_v plain_9)) = DB_LT"
proof -
  have "value_of plain_9 = - 0.7" using plain_check(4-6) by (simp add: value_of_units power_int_minus)
  then have "DB_LT = (if of_int (- 7) < value_of plain_9 then DB_LT else if of_int (- 7) = value_of plain_9 then DB_EQ else DB_GT)"
    by simp
  from int_numeric_rows_exact [OF plain_check(1) _ _ plain_check(2) _ _ _ plain_check(3) this] show ?thesis
    by simp
qed

end
