(* ===== verification/FkWorld.thy ===== *)
theory FkWorld
  imports Prelude
begin

text \<open>
  The world the foreign-key suite gives the engine
  (\<^verbatim>\<open>unit/transaction/locator_sr.check_foreign_key/test.cpp\<close>): classes with a fix
  count, a child with indexes and keys, the rows of the parents' primary keys, scripted failures, the
  ledgers, and the fakes the engine's check calls. Every fake is a function of the world and of the
  caller's objects it writes; a pointer is what it names (a class slot, a key variable, an address).
\<close>

section \<open>Engine types\<close>

text \<open>\<open>NULL\<close> identifiers are constructors of their own.\<close>

datatype oid = NullOid | Oid (oid_pageid: int) (oid_slotid: int) (oid_volid: int)
datatype btid = NullBtid | Btid (btid_fileid: int) (btid_volid: int) (btid_root: int)
datatype hfid = NullHfid | Hfid (hfid_fileid: int) (hfid_volid: int) (hfid_hpgid: int)

datatype fk_er = NO_ERROR | ER_FAILED | ER_FK_INVALID | ER_LK_UNILATERALLY_ABORTED | ER_HEAP_UNKNOWN_OBJECT
  | ER_OUT_OF_VIRTUAL_MEMORY | ER_PARTITION_WORK_FAILED | ER_OTHER int

definition SEARCH_ERROR :: fk_er where "SEARCH_ERROR = ER_LK_UNILATERALLY_ABORTED"

datatype btree_type = BTREE_FOREIGN_KEY | BTREE_PRIMARY_KEY | BTREE_UNIQUE | BTREE_INDEX
datatype partition_type = DB_PARTITION_HASH | DB_PARTITION_RANGE
datatype scan_op = S_SELECT | S_SELECT_WITH_LOCK | S_OTHER_OP
datatype btree_search = BTREE_KEY_FOUND | BTREE_KEY_NOTFOUND | BTREE_ERROR_OCCURRED

text \<open>A multi-column key's buffer: none, the caller's own, or one taken from the heap.\<close>

datatype key_buf = NoBuf | CallerBuf | HeapBuf nat
datatype db_value = DbNull | DbInt int | DbMidxkey key_buf bool

text \<open>A \<open>DB_VALUE\<close> pointer: into the world's attribute values, or a variable of the caller.\<close>

datatype key_ref = AttrKey nat | CallerKey nat

record or_index =
  ix_type :: btree_type
  ix_n_atts :: int
  ix_btid :: btid
  ix_fk :: "nat option"

record or_foreign_key =
  fk_name :: "string option"
  fk_ref_class_oid :: oid
  fk_ref_class_pk_btid :: btid
  fk_self_btid :: btid

record or_partition =
  pt_class_oid :: oid
  pt_class_hfid :: hfid
  pt_type :: partition_type
  pt_rep_id :: int

section \<open>The world\<close>

record fake_class =
  fc_oid :: oid
  fc_has_partition_info :: bool
  fc_indexes :: "or_index list"
  fc_fcnt :: nat
  fc_get_fails :: bool
  fc_pk :: btid
  fc_parts :: "or_partition list"
  fc_part_pk :: "btid list"
  fc_range_upper :: "int list"
  fc_from_cache :: bool
  fc_load_unpartitioned :: bool
  fc_load_error :: fk_er
  fc_attr_start_error :: fk_er
  fc_prune_error :: fk_er

record search_rec =
  sr_btid :: btid
  sr_class_oid :: oid
  sr_op :: scan_op
  sr_all_class :: bool
  sr_key_is_read_key :: bool
  sr_key_id :: int
  sr_own_fixes :: int
  sr_pctx_live :: int
  sr_child_fcnt :: nat

record world =
  w_cls :: "fake_class list"
  w_child :: nat
  w_indexes :: "or_index list"
  w_fks :: "or_foreign_key list"
  w_attr_val :: "db_value list"
  w_key_id :: "int list"
  w_multi_null :: "bool list"
  w_rows :: "(int \<times> int) list"
  w_read_error :: fk_er
  w_get_key_fail_at :: int
  w_applier :: bool
  w_search_error_at :: nat
  w_start_calls :: nat
  w_read_calls :: nat
  w_end_calls :: nat
  w_get_key_calls :: nat
  w_get_key_dirty :: nat
  w_has_null_calls :: nat
  w_get_key_order :: "int list"
  w_cur_index :: int
  w_cur_key :: "key_ref option"
  w_get_calls :: nat
  w_get_ok :: nat
  w_free_calls :: nat
  w_free_ok :: nat
  w_free_errors :: nat
  w_load_calls :: nat
  w_clear_calls :: nat
  w_prune_calls :: nat
  w_pred_live :: int
  w_attr_live :: int
  w_parts_live :: int
  w_prune_in_btid :: "btid list"
  w_er_ids :: "fk_er list"
  w_fk_msg_name :: "string list"
  w_fk_msg_value :: "string list"
  w_last_er :: fk_er
  w_valstr_alloc :: nat
  w_valstr_free :: nat
  w_valstr_live :: "nat set"
  w_clear_value_calls :: nat
  w_searches :: "search_rec list"
  w_long_record :: bool
  w_keybuf_alloc :: nat
  w_keybuf_free :: nat
  w_keybuf_bad_free :: nat
  w_keybuf_max_live :: nat
  w_keybuf_live :: "nat set"

text \<open>\<open>reset\<close>: a zero world, but for the two positions that are -1.\<close>

definition reset_world :: world where
  "reset_world = \<lparr>w_cls = [], w_child = 0, w_indexes = [], w_fks = [], w_attr_val = [], w_key_id = [],
     w_multi_null = [], w_rows = [], w_read_error = NO_ERROR, w_get_key_fail_at = - 1, w_applier = False,
     w_search_error_at = 0, w_start_calls = 0, w_read_calls = 0, w_end_calls = 0, w_get_key_calls = 0,
     w_get_key_dirty = 0, w_has_null_calls = 0, w_get_key_order = [], w_cur_index = - 1, w_cur_key = None,
     w_get_calls = 0, w_get_ok = 0, w_free_calls = 0, w_free_ok = 0, w_free_errors = 0, w_load_calls = 0,
     w_clear_calls = 0, w_prune_calls = 0, w_pred_live = 0, w_attr_live = 0, w_parts_live = 0,
     w_prune_in_btid = [], w_er_ids = [], w_fk_msg_name = [], w_fk_msg_value = [], w_last_er = NO_ERROR,
     w_valstr_alloc = 0, w_valstr_free = 0, w_valstr_live = {}, w_clear_value_calls = 0, w_searches = [],
     w_long_record = False, w_keybuf_alloc = 0, w_keybuf_free = 0, w_keybuf_bad_free = 0,
     w_keybuf_max_live = 0, w_keybuf_live = {}\<rparr>"

definition mk_oid :: "int \<Rightarrow> oid" where "mk_oid page = Oid page 1 0"
definition mk_btid :: "int \<Rightarrow> btid" where "mk_btid page = Btid page 0 page"

text \<open>The slot of the first class with the identifier.\<close>

fun find_slot :: "fake_class list \<Rightarrow> oid \<Rightarrow> nat option" where
  "find_slot [] o' = None"
| "find_slot (c # cs) o' = (if fc_oid c = o' then Some 0 else map_option Suc (find_slot cs o'))"

definition find_class :: "world \<Rightarrow> oid \<Rightarrow> nat option" where
  "find_class w o' = find_slot (w_cls w) o'"

definition pins_left :: "world \<Rightarrow> nat" where
  "pins_left w = sum_list (map fc_fcnt (w_cls w))"

definition pctx_live :: "world \<Rightarrow> int" where
  "pctx_live w = w_pred_live w + w_attr_live w + w_parts_live w"

definition key_identity :: "world \<Rightarrow> key_ref \<Rightarrow> int" where
  "key_identity w key =
     (if Some key = w_cur_key w \<and> 0 \<le> w_cur_index w then w_key_id w ! nat (w_cur_index w) else - 999999)"

section \<open>Building a world\<close>

definition new_class :: "nat \<Rightarrow> fake_class" where
  "new_class c = \<lparr>fc_oid = mk_oid (100 + int c), fc_has_partition_info = False, fc_indexes = [], fc_fcnt = 0,
     fc_get_fails = False, fc_pk = mk_btid (500 + int c), fc_parts = [], fc_part_pk = [], fc_range_upper = [],
     fc_from_cache = True, fc_load_unpartitioned = False, fc_load_error = NO_ERROR,
     fc_attr_start_error = NO_ERROR, fc_prune_error = NO_ERROR\<rparr>"

definition add_class :: "world \<Rightarrow> nat \<times> world" where
  "add_class w = (length (w_cls w), w\<lparr>w_cls := w_cls w @ [new_class (length (w_cls w))]\<rparr>)"

definition partitioned_parts :: "nat \<Rightarrow> nat \<Rightarrow> int list \<Rightarrow> or_partition list" where
  "partitioned_parts c nparts range_upper =
     (let t = (if range_upper = [] then DB_PARTITION_HASH else DB_PARTITION_RANGE)
      in \<lparr>pt_class_oid = mk_oid (100 + int c), pt_class_hfid = Hfid 0 0 0, pt_type = t, pt_rep_id = 1\<rparr>
         # map (\<lambda>i. \<lparr>pt_class_oid = mk_oid (1000 + int c * 10 + int i),
                    pt_class_hfid = Hfid (3000 + int c * 10 + int i) 0 (3000 + int c * 10 + int i),
                    pt_type = t, pt_rep_id = 0\<rparr>) [1..<nparts + 1])"

definition add_partitioned :: "nat \<Rightarrow> int list \<Rightarrow> world \<Rightarrow> nat \<times> world" where
  "add_partitioned nparts range_upper w =
     (let (c, w1) = add_class w
      in (c, w1\<lparr>w_cls := (w_cls w1)[c := (w_cls w1 ! c)\<lparr>fc_has_partition_info := True,
             fc_parts := partitioned_parts c nparts range_upper,
             fc_part_pk := Btid 0 0 0 # map (\<lambda>i. mk_btid (5000 + int c * 10 + int i)) [1..<nparts + 1],
             fc_range_upper := range_upper\<rparr>]\<rparr>))"

text \<open>The first partition whose upper bound is above \<open>v\<close>.\<close>

fun range_position :: "int list \<Rightarrow> nat \<Rightarrow> int \<Rightarrow> int \<Rightarrow> int" where
  "range_position us 0 i v = - 1"
| "range_position us (Suc n) i v = (if v < us ! nat i then i else range_position us n (i + 1) v)"

text \<open>\<open>%\<close> truncates towards zero, hence the second addition and remainder.\<close>

definition partition_of :: "fake_class \<Rightarrow> int \<Rightarrow> int" where
  "partition_of k v =
     (let n = int (length (fc_parts k)) - 1
      in if fc_range_upper k = [] then ((v smod n) + n) smod n
         else range_position (fc_range_upper k) (nat n) 0 v)"

definition add_index :: "btree_type \<Rightarrow> int \<Rightarrow> world \<Rightarrow> nat \<times> world" where
  "add_index type n_atts w =
     (let pos = length (w_indexes w)
      in (pos, w\<lparr>w_indexes := w_indexes w
                 @ [\<lparr>ix_type = type, ix_n_atts = n_atts, ix_btid = mk_btid (700 + int pos), ix_fk = None\<rparr>],
               w_fks := w_fks w @ [\<lparr>fk_name = None, fk_ref_class_oid = Oid 0 0 0,
                   fk_ref_class_pk_btid = Btid 0 0 0, fk_self_btid = Btid 0 0 0\<rparr>],
               w_attr_val := w_attr_val w @ [DbNull], w_key_id := w_key_id w @ [0],
               w_multi_null := w_multi_null w @ [False]\<rparr>))"

definition add_fk :: "nat \<Rightarrow> string \<Rightarrow> int \<Rightarrow> world \<Rightarrow> nat \<times> world" where
  "add_fk ref name n_atts w =
     (let (pos, w1) = add_index BTREE_FOREIGN_KEY n_atts w
      in (pos, w1\<lparr>w_fks := (w_fks w1)[pos := \<lparr>fk_name = Some name, fk_ref_class_oid = fc_oid (w_cls w1 ! ref),
             fk_ref_class_pk_btid = fc_pk (w_cls w1 ! ref), fk_self_btid = ix_btid (w_indexes w1 ! pos)\<rparr>]\<rparr>))"

definition set_key :: "nat \<Rightarrow> int \<Rightarrow> world \<Rightarrow> world" where
  "set_key pos v w = w\<lparr>w_attr_val := (w_attr_val w)[pos := DbInt v], w_key_id := (w_key_id w)[pos := v],
     w_multi_null := (w_multi_null w)[pos := False]\<rparr>"

definition set_null :: "nat \<Rightarrow> world \<Rightarrow> world" where
  "set_null pos w = w\<lparr>w_attr_val := (w_attr_val w)[pos := DbNull], w_key_id := (w_key_id w)[pos := - 1],
     w_multi_null := (w_multi_null w)[pos := True]\<rparr>"

text \<open>The primary key that holds \<open>v\<close> and the class it belongs to.\<close>

definition pk_holding :: "world \<Rightarrow> nat \<Rightarrow> int \<Rightarrow> btid \<times> oid" where
  "pk_holding w ref v =
     (let k = w_cls w ! ref
      in if fc_has_partition_info k \<and> \<not> fc_load_unpartitioned k
         then (let p = partition_of k v
               in if p < 0 then (NullBtid, NullOid)
                  else (fc_part_pk k ! nat (p + 1), pt_class_oid (fc_parts k ! nat (p + 1))))
         else (fc_pk k, fc_oid k))"

definition add_row :: "nat \<Rightarrow> int \<Rightarrow> world \<Rightarrow> world" where
  "add_row ref v w =
     (let (b, holder) = pk_holding w ref v
      in if b \<noteq> NullBtid then w\<lparr>w_rows := List.insert (btid_root b, v) (w_rows w)\<rparr> else w)"

definition wire :: "world \<Rightarrow> world" where
  "wire w =
     (let ixs = map (\<lambda>(i, ix). ix\<lparr>ix_fk := (if ix_type ix = BTREE_FOREIGN_KEY then Some i else None)\<rparr>)
                  (enumerate 0 (w_indexes w))
      in w\<lparr>w_indexes := ixs, w_cls := (w_cls w)[w_child w := (w_cls w ! w_child w)\<lparr>fc_indexes := ixs\<rparr>]\<rparr>)"

section \<open>Fakes\<close>

text \<open>Releases one fix of a class; a wrong slot, another class' representation or a class that is not
  fixed is an error.\<close>

definition unfix :: "int \<Rightarrow> nat option \<Rightarrow> world \<Rightarrow> world" where
  "unfix slot repr w =
     (if slot < 0 \<or> int (length (w_cls w)) \<le> slot \<or> repr \<noteq> Some (nat slot) \<or> fc_fcnt (w_cls w ! nat slot) = 0
      then w\<lparr>w_free_errors := Suc (w_free_errors w)\<rparr>
      else w\<lparr>w_cls := (w_cls w)[nat slot := (w_cls w ! nat slot)\<lparr>fc_fcnt := fc_fcnt (w_cls w ! nat slot) - 1\<rparr>]\<rparr>)"

definition fix_class :: "nat \<Rightarrow> world \<Rightarrow> world" where
  "fix_class c w = w\<lparr>w_cls := (w_cls w)[c := (w_cls w ! c)\<lparr>fc_fcnt := Suc (fc_fcnt (w_cls w ! c))\<rparr>]\<rparr>"

text \<open>\<open>er_set\<close> with the two string arguments of \<open>ER_FK_INVALID\<close>, when there are two.\<close>

definition er_set :: "fk_er \<Rightarrow> (string option \<times> string option) option \<Rightarrow> world \<Rightarrow> world" where
  "er_set err_id args w =
     (let w1 = w\<lparr>w_er_ids := w_er_ids w @ [err_id], w_last_er := err_id\<rparr>;
          txt = (\<lambda>a. case a of Some s \<Rightarrow> s | None \<Rightarrow> ''(null)'')
      in case args of
           Some (a1, a2) \<Rightarrow>
             if err_id = ER_FK_INVALID
             then w1\<lparr>w_fk_msg_name := w_fk_msg_name w1 @ [txt a1], w_fk_msg_value := w_fk_msg_value w1 @ [txt a2]\<rparr>
             else w1
         | None \<Rightarrow> w1)"

definition er_errid :: "world \<Rightarrow> fk_er" where "er_errid w = w_last_er w"

text \<open>\<open>print_int\<close> is \<open>std::to_string\<close>.\<close>

fun print_nat :: "nat \<Rightarrow> string" where
  "print_nat n = (if n < 10 then [char_of (48 + n)] else print_nat (n div 10) @ [char_of (48 + n mod 10)])"

declare print_nat.simps [simp del]

definition print_int :: "int \<Rightarrow> string" where
  "print_int i = (if i < 0 then ''-'' @ print_nat (nat (- i)) else print_nat (nat i))"

text \<open>The string is put at the address \<open>p\<close> that \<open>malloc\<close> answers.\<close>

definition pr_valstring :: "nat \<Rightarrow> (key_ref \<times> db_value) option \<Rightarrow> world \<Rightarrow> string \<times> world" where
  "pr_valstring p val w =
     ((case val of None \<Rightarrow> ''NULL'' | Some (_, DbNull) \<Rightarrow> ''NULL'' | Some (_, DbInt i) \<Rightarrow> print_int i
       | Some (r, DbMidxkey _ _) \<Rightarrow> ''{'' @ print_int (key_identity w r) @ ''}''),
      w\<lparr>w_valstr_alloc := Suc (w_valstr_alloc w), w_valstr_live := insert p (w_valstr_live w)\<rparr>)"

definition private_free :: "nat \<Rightarrow> world \<Rightarrow> world" where
  "private_free p w =
     (if p \<in> w_valstr_live w
      then w\<lparr>w_valstr_live := w_valstr_live w - {p}, w_valstr_free := Suc (w_valstr_free w)\<rparr> else w)"

definition free_key_buf :: "key_buf \<Rightarrow> world \<Rightarrow> world" where
  "free_key_buf buf w =
     (case buf of
        HeapBuf p \<Rightarrow>
          if p \<in> w_keybuf_live w
          then w\<lparr>w_keybuf_live := w_keybuf_live w - {p}, w_keybuf_free := Suc (w_keybuf_free w)\<rparr>
          else w\<lparr>w_keybuf_bad_free := Suc (w_keybuf_bad_free w)\<rparr>
      | _ \<Rightarrow> w\<lparr>w_keybuf_bad_free := Suc (w_keybuf_bad_free w)\<rparr>)"

definition pr_clear_value :: "db_value option \<Rightarrow> world \<Rightarrow> db_value option \<times> world" where
  "pr_clear_value value w =
     (let w1 = w\<lparr>w_clear_value_calls := Suc (w_clear_value_calls w)\<rparr>
      in case value of
           None \<Rightarrow> (None, w1)
         | Some DbNull \<Rightarrow> (Some DbNull, w1)
         | Some (DbMidxkey buf need_clear) \<Rightarrow>
             (Some DbNull, if buf \<noteq> NoBuf \<and> need_clear then free_key_buf buf w1 else w1)
         | Some (DbInt _) \<Rightarrow> (Some DbNull, w1))"

datatype client_type = DB_CLIENT_TYPE_LOG_APPLIER | DB_CLIENT_TYPE_DEFAULT

definition logtb_find_client_type :: "world \<Rightarrow> client_type" where
  "logtb_find_client_type w = (if w_applier w then DB_CLIENT_TYPE_LOG_APPLIER else DB_CLIENT_TYPE_DEFAULT)"

text \<open>\<open>HEAP_CACHE_ATTRINFO\<close> and \<open>HEAP_IDX_ELEMENTS_INFO\<close>, as far as the fakes use them.\<close>

record attr_info =
  ai_class_oid :: oid
  ai_last_cacheindex :: int
  ai_last_classrepr :: "nat option"
  ai_num_values :: int

record idx_info =
  ii_has_single_col :: bool
  ii_has_multi_col :: bool
  ii_num_btids :: nat

definition heap_attrinfo_start_with_index :: "oid \<Rightarrow> attr_info \<Rightarrow> world \<Rightarrow> (fk_er + nat) \<times> attr_info \<times> idx_info \<times> world" where
  "heap_attrinfo_start_with_index class_oid ai w =
     (let w1 = w\<lparr>w_start_calls := Suc (w_start_calls w)\<rparr>;
          ii0 = \<lparr>ii_has_single_col = False, ii_has_multi_col = False, ii_num_btids = 0\<rparr>;
          ai0 = ai\<lparr>ai_num_values := - 1\<rparr>
      in case find_class w1 class_oid of
           None \<Rightarrow> (Inl ER_FAILED, ai0, ii0, w1)
         | Some c \<Rightarrow>
             if fc_get_fails (w_cls w1 ! c) then (Inl ER_FAILED, ai0, ii0, w1)
             else
               (let ixs = fc_indexes (w_cls w1 ! c);
                    nsingle = length (filter (\<lambda>ix. ix_n_atts ix = 1) ixs);
                    ii = \<lparr>ii_has_single_col = (0 < nsingle),
                          ii_has_multi_col = list_ex (\<lambda>ix. 1 < ix_n_atts ix) ixs, ii_num_btids = length ixs\<rparr>
                in if \<not> ii_has_multi_col ii \<and> nsingle = 0 then (Inr 0, ai0, ii, w1)
                   else (Inr (if nsingle = 0 then 1 else nsingle),
                         ai0\<lparr>ai_class_oid := class_oid, ai_last_cacheindex := int c, ai_last_classrepr := Some c,
                             ai_num_values := int nsingle\<rparr>, ii, fix_class c w1)))"

definition heap_attrinfo_end :: "attr_info \<Rightarrow> world \<Rightarrow> attr_info \<times> world" where
  "heap_attrinfo_end ai w =
     (let w1 = w\<lparr>w_end_calls := Suc (w_end_calls w)\<rparr>
      in if ai_num_values ai = - 1 then (ai, w1)
         else if ai_last_classrepr ai \<noteq> None
         then (ai\<lparr>ai_last_classrepr := None, ai_num_values := - 1\<rparr>,
               unfix (ai_last_cacheindex ai) (ai_last_classrepr ai) w1)
         else (ai\<lparr>ai_num_values := - 1\<rparr>, w1))"

definition heap_attrinfo_read_dbvalues :: "world \<Rightarrow> fk_er \<times> world" where
  "heap_attrinfo_read_dbvalues w =
     (let w1 = w\<lparr>w_read_calls := Suc (w_read_calls w)\<rparr>
      in if w_read_error w1 \<noteq> NO_ERROR then (w_read_error w1, er_set (w_read_error w1) None w1)
         else (NO_ERROR, w1))"

text \<open>The buffer of a multi-column key goes into the ledger, at the address \<open>malloc\<close> answers.\<close>

definition alloc_key_buf :: "nat \<Rightarrow> world \<Rightarrow> world" where
  "alloc_key_buf p w =
     (let live = insert p (w_keybuf_live w)
      in w\<lparr>w_keybuf_live := live, w_keybuf_alloc := Suc (w_keybuf_alloc w),
           w_keybuf_max_live := (if w_keybuf_max_live w < card live then card live else w_keybuf_max_live w)\<rparr>)"

text \<open>A call is noted with its index; a variable that still holds a value makes it a dirty one.\<close>

definition note_key_call :: "int \<Rightarrow> db_value \<Rightarrow> world \<Rightarrow> world" where
  "note_key_call i v w =
     (let w1 = w\<lparr>w_get_key_calls := Suc (w_get_key_calls w), w_get_key_order := w_get_key_order w @ [i]\<rparr>
      in if v \<noteq> DbNull then w1\<lparr>w_get_key_dirty := Suc (w_get_key_dirty w1)\<rparr> else w1)"

text \<open>
  \<open>bufsize\<close> is \<open>DBVAL_BUFSIZE\<close>, \<open>len\<close> the record's length (0 without a record),
  \<open>p\<close> the address \<open>malloc\<close> answers, \<open>kv\<close> the caller's variable and \<open>v\<close>
  what it holds. The answer is the key and the new content of the variable.
\<close>

definition heap_attrvalue_get_key ::
    "int \<Rightarrow> nat \<Rightarrow> int \<Rightarrow> attr_info \<Rightarrow> int \<Rightarrow> nat \<Rightarrow> db_value \<Rightarrow> world \<Rightarrow> (key_ref \<times> btid) option \<times> db_value \<times> world" where
  "heap_attrvalue_get_key bufsize p i ai len kv v w =
     (let w2 = note_key_call i v w;
          ixs = (case ai_last_classrepr ai of None \<Rightarrow> [] | Some c \<Rightarrow> fc_indexes (w_cls w2 ! c))
      in if ai_num_values ai = - 1 \<or> int (length ixs) \<le> i then (None, v, w2)
         else if i = w_get_key_fail_at w2 then (None, v, w2)
         else
           (let index = ixs ! nat i; w3 = w2\<lparr>w_cur_index := i\<rparr>
            in if 1 < ix_n_atts index
               then if bufsize < len
                    then (Some (CallerKey kv, ix_btid index), DbMidxkey (HeapBuf p) True,
                          (alloc_key_buf p w3)\<lparr>w_cur_key := Some (CallerKey kv)\<rparr>)
                    else (Some (CallerKey kv, ix_btid index), DbMidxkey CallerBuf False,
                          w3\<lparr>w_cur_key := Some (CallerKey kv)\<rparr>)
               else (Some (AttrKey (nat i), ix_btid index), v, w3\<lparr>w_cur_key := Some (AttrKey (nat i))\<rparr>)))"

definition heap_classrepr_get :: "oid \<Rightarrow> world \<Rightarrow> nat option \<times> int \<times> world" where
  "heap_classrepr_get class_oid w =
     (let w1 = w\<lparr>w_get_calls := Suc (w_get_calls w)\<rparr>
      in case find_class w1 class_oid of
           None \<Rightarrow> (None, - 1, er_set ER_HEAP_UNKNOWN_OBJECT None w1)
         | Some c \<Rightarrow>
             if fc_get_fails (w_cls w1 ! c) then (None, - 1, er_set ER_HEAP_UNKNOWN_OBJECT None w1)
             else (let w2 = fix_class c w1 in (Some c, int c, w2\<lparr>w_get_ok := Suc (w_get_ok w2)\<rparr>)))"

definition heap_classrepr_free :: "nat option \<Rightarrow> int \<Rightarrow> world \<Rightarrow> world" where
  "heap_classrepr_free classrep idx w =
     (let w1 = w\<lparr>w_free_calls := Suc (w_free_calls w)\<rparr>;
          before = w_free_errors w1;
          w2 = unfix idx classrep w1
      in if w_free_errors w2 = before then w2\<lparr>w_free_ok := Suc (w_free_ok w2)\<rparr> else w2)"

section \<open>Partition pruning\<close>

record pruning_context =
  pc_root_oid :: oid
  pc_partitions :: "or_partition list option"
  pc_count :: nat
  pc_partition_pred :: bool
  pc_fp_cache_context :: bool
  pc_error_code :: fk_er
  pc_is_attr_info_inited :: bool
  pc_is_from_cache :: bool
  pc_partition_type :: "partition_type option"
  pc_root_repr_id :: int

definition partition_init_pruning_context :: "pruning_context \<Rightarrow> pruning_context" where
  "partition_init_pruning_context pc =
     pc\<lparr>pc_root_oid := NullOid, pc_partitions := None, pc_count := 0, pc_partition_pred := False,
        pc_fp_cache_context := False, pc_error_code := NO_ERROR, pc_is_attr_info_inited := False,
        pc_is_from_cache := False\<rparr>"

definition partition_clear_pruning_context :: "pruning_context \<Rightarrow> world \<Rightarrow> pruning_context \<times> world" where
  "partition_clear_pruning_context pc w =
     (let w1 = w\<lparr>w_clear_calls := Suc (w_clear_calls w)\<rparr>;
          w2 = (if \<not> pc_is_from_cache pc \<and> pc_partitions pc \<noteq> None then w1\<lparr>w_parts_live := w_parts_live w1 - 1\<rparr> else w1);
          had_pred = (pc_partition_pred pc \<or> pc_fp_cache_context pc);
          w3 = (if had_pred then w2\<lparr>w_pred_live := w_pred_live w2 - 1\<rparr> else w2);
          w4 = (if pc_is_attr_info_inited pc
                then (let wr = (case find_class w3 (pc_root_oid pc) of
                                  Some c \<Rightarrow> unfix (int c) (Some c) w3 | None \<Rightarrow> w3)
                      in wr\<lparr>w_attr_live := w_attr_live wr - 1\<rparr>)
                else w3)
      in (pc\<lparr>pc_partitions := None, pc_count := 0, pc_partition_pred := False, pc_fp_cache_context := False,
             pc_is_attr_info_inited := False\<rparr>, w4))"

definition partition_load_pruning_context :: "oid \<Rightarrow> pruning_context \<Rightarrow> world \<Rightarrow> fk_er \<times> pruning_context \<times> world" where
  "partition_load_pruning_context class_oid pc w =
     (let w1 = w\<lparr>w_load_calls := Suc (w_load_calls w)\<rparr>;
          pc1 = (partition_init_pruning_context pc)\<lparr>pc_root_oid := class_oid\<rparr>
      in case find_class w1 class_oid of
           None \<Rightarrow> (NO_ERROR, pc1, w1)
         | Some c \<Rightarrow>
             (let k = w_cls w1 ! c
              in if fc_load_unpartitioned k then (NO_ERROR, pc1, w1)
                 else
                   (let pc2 = pc1\<lparr>pc_partitions := Some (fc_parts k), pc_count := length (fc_parts k),
                                  pc_is_from_cache := fc_from_cache k\<rparr>;
                        w2 = (if \<not> fc_from_cache k then w1\<lparr>w_parts_live := w_parts_live w1 + 1\<rparr> else w1)
                    in if fc_load_error k \<noteq> NO_ERROR
                       then (let (pc3, w3) = partition_clear_pruning_context pc2 (er_set (fc_load_error k) None w2)
                             in (fc_load_error k, pc3\<lparr>pc_error_code := fc_load_error k\<rparr>, w3))
                       else (NO_ERROR,
                             pc2\<lparr>pc_partition_pred := True, pc_fp_cache_context := True,
                                 pc_partition_type := Some (pt_type (fc_parts k ! 0)),
                                 pc_root_repr_id := pt_rep_id (fc_parts k ! 0)\<rparr>,
                             w2\<lparr>w_pred_live := w_pred_live w2 + 1\<rparr>))))"

text \<open>The answer: the error, the class, the heap file and the B-tree the key was pruned to; an error
  leaves what the caller had.\<close>

definition partition_prune_unique_btid ::
    "pruning_context \<Rightarrow> key_ref \<Rightarrow> oid \<times> hfid \<times> btid \<Rightarrow> world \<Rightarrow> fk_er \<times> (oid \<times> hfid \<times> btid) \<times> pruning_context \<times> world" where
  "partition_prune_unique_btid pc key tgt w =
     (let w1 = w\<lparr>w_prune_calls := Suc (w_prune_calls w), w_prune_in_btid := w_prune_in_btid w @ [snd (snd tgt)]\<rparr>
      in case find_class w1 (pc_root_oid pc) of
           None \<Rightarrow> (ER_FAILED, tgt, pc, w1)
         | Some c \<Rightarrow>
             (let k = w_cls w1 ! c
              in if \<not> pc_is_attr_info_inited pc \<and> fc_attr_start_error k \<noteq> NO_ERROR
                 then (fc_attr_start_error k, tgt, pc, er_set (fc_attr_start_error k) None w1)
                 else
                   (let w2 = (if pc_is_attr_info_inited pc then w1
                              else (fix_class c w1)\<lparr>w_attr_live := w_attr_live w1 + 1\<rparr>);
                        pc2 = pc\<lparr>pc_is_attr_info_inited := True\<rparr>
                    in if fc_prune_error k \<noteq> NO_ERROR
                       then (fc_prune_error k, tgt, pc2, er_set (fc_prune_error k) None w2)
                       else
                         (let pos = partition_of k (key_identity w2 key)
                          in if pos < 0 then (NO_ERROR, (NullOid, NullHfid, NullBtid), pc2, w2)
                             else (NO_ERROR,
                                   (pt_class_oid (the (pc_partitions pc2) ! nat (pos + 1)),
                                    pt_class_hfid (the (pc_partitions pc2) ! nat (pos + 1)),
                                    fc_part_pk k ! nat (pos + 1)), pc2, w2)))))"

section \<open>B-tree\<close>

definition btree_multicol_key_has_null :: "key_ref \<Rightarrow> world \<Rightarrow> bool \<times> world" where
  "btree_multicol_key_has_null key w =
     (let w1 = w\<lparr>w_has_null_calls := Suc (w_has_null_calls w)\<rparr>
      in (Some key = w_cur_key w1 \<and> 0 \<le> w_cur_index w1 \<and> w_multi_null w1 ! nat (w_cur_index w1), w1))"

definition xbtree_find_unique ::
    "btid \<Rightarrow> scan_op \<Rightarrow> key_ref \<Rightarrow> oid \<Rightarrow> bool \<Rightarrow> world \<Rightarrow> btree_search \<times> oid option \<times> world" where
  "xbtree_find_unique btid op key class_oid is_all w =
     (let s = \<lparr>sr_btid = btid, sr_class_oid = class_oid, sr_op = op, sr_all_class = is_all,
               sr_key_is_read_key = (Some key = w_cur_key w), sr_key_id = key_identity w key,
               sr_own_fixes = int (w_get_ok w) - int (w_free_ok w), sr_pctx_live = pctx_live w,
               sr_child_fcnt = fc_fcnt (w_cls w ! w_child w)\<rparr>;
          w1 = w\<lparr>w_searches := w_searches w @ [s]\<rparr>
      in if length (w_searches w1) = w_search_error_at w1
         then (BTREE_ERROR_OCCURRED, None, er_set SEARCH_ERROR None w1)
         else if (btid_root btid, sr_key_id s) \<in> set (w_rows w1)
         then (BTREE_KEY_FOUND, Some (mk_oid (7000 + sr_key_id s)), w1)
         else (BTREE_KEY_NOTFOUND, None, w1))"

end
