(* ===== verification/FkLedger.thy ===== *)
theory FkLedger
  imports FkWorld
begin

text \<open>
  The ledgers of the foreign-key suite under every order of calls its fakes can receive: a step relation
  whose steps are the fakes with any arguments, the invariants that tie the counters to what the caller
  holds, and what the suite's closing check \<open>CHECK_NOTHING_LEFT\<close> therefore establishes.
\<close>

section \<open>A pool of addresses\<close>

text \<open>
  What taking an address from \<open>malloc\<close> and giving it back do to a ledger of live addresses and
  its two counters.
\<close>

locale pool =
  fixes take :: "nat \<Rightarrow> 'w \<Rightarrow> 'w" and give :: "nat \<Rightarrow> 'w \<Rightarrow> 'w"
    and live :: "'w \<Rightarrow> nat set" and taken :: "'w \<Rightarrow> nat" and given :: "'w \<Rightarrow> nat"
  assumes live_take: "live (take p w) = insert p (live w)"
    and live_give: "live (give p w) = live w - {p}"
    and taken_take: "taken (take p w) = Suc (taken w)" and taken_give: "taken (give p w) = taken w"
    and given_take: "given (take p w) = given w"
    and given_give: "given (give p w) = given w + (if p \<in> live w then 1 else 0)"
begin

definition balanced :: "'w \<Rightarrow> bool" where
  "balanced w \<longleftrightarrow> finite (live w) \<and> taken w = given w + card (live w)"

lemma balanced_take: "balanced w \<Longrightarrow> p \<notin> live w \<Longrightarrow> balanced (take p w)"
  by (simp add: balanced_def live_take taken_take given_take)

lemma balanced_give:
  assumes "balanced w"
  shows "balanced (give p w)"
proof (cases "p \<in> live w")
  case True
  then have "0 < card (live w)" using assms by (auto simp: balanced_def card_gt_0_iff)
  then show ?thesis using assms True by (simp add: balanced_def live_give taken_give given_give)
qed (use assms in \<open>simp add: balanced_def live_give taken_give given_give\<close>)

lemma balanced_none: "balanced w \<Longrightarrow> taken w = given w \<longleftrightarrow> live w = {}"
  by (auto simp: balanced_def)

lemma balanced_same:
  "balanced w \<Longrightarrow> live w' = live w \<Longrightarrow> taken w' = taken w \<Longrightarrow> given w' = given w \<Longrightarrow> balanced w'"
  by (simp add: balanced_def)

end

interpretation valstr: pool "\<lambda>p w. snd (pr_valstring p val w)" private_free w_valstr_live w_valstr_alloc w_valstr_free for val
  by unfold_locales (auto simp: pr_valstring_def private_free_def)

interpretation keybuf: pool alloc_key_buf "\<lambda>p. free_key_buf (HeapBuf p)" w_keybuf_live w_keybuf_alloc w_keybuf_free
  by unfold_locales (auto simp: alloc_key_buf_def free_key_buf_def Let_def)

section \<open>The caller\<close>

text \<open>
  What the code under test owns: key variables, pruning contexts and attribute caches. It may call any
  fake with any argument, in any order; the only discipline asked of it is that it does not load a
  pruning context or start an attribute cache over one that still holds something.
\<close>

record fk_state =
  fs_w :: world
  fs_keys :: "db_value list"
  fs_ctx :: "pruning_context list"
  fs_attr :: "attr_info list"

definition holds_parts :: "pruning_context \<Rightarrow> bool" where
  "holds_parts pc \<longleftrightarrow> \<not> pc_is_from_cache pc \<and> pc_partitions pc \<noteq> None"

definition holds_pred :: "pruning_context \<Rightarrow> bool" where
  "holds_pred pc \<longleftrightarrow> pc_partition_pred pc \<or> pc_fp_cache_context pc"

definition holds_rows :: "attr_info \<Rightarrow> bool" where
  "holds_rows ai \<longleftrightarrow> ai_num_values ai \<noteq> - 1 \<and> ai_last_classrepr ai \<noteq> None"

definition ctx_idle :: "pruning_context \<Rightarrow> bool" where
  "ctx_idle pc \<longleftrightarrow> \<not> holds_parts pc \<and> \<not> holds_pred pc \<and> \<not> pc_is_attr_info_inited pc"

definition fresh :: "nat \<Rightarrow> world \<Rightarrow> bool" where
  "fresh p w \<longleftrightarrow> p \<notin> w_valstr_live w \<and> p \<notin> w_keybuf_live w"

inductive fk_step :: "int \<Rightarrow> fk_state \<Rightarrow> fk_state \<Rightarrow> bool" for bufsize :: int where
  valstring: "fresh p (fs_w s) \<Longrightarrow> fk_step bufsize s (s\<lparr>fs_w := snd (pr_valstring p v (fs_w s))\<rparr>)"
| free: "fk_step bufsize s (s\<lparr>fs_w := private_free p (fs_w s)\<rparr>)"
| clear_null: "fk_step bufsize s (s\<lparr>fs_w := snd (pr_clear_value None (fs_w s))\<rparr>)"
| clear_value: "k < length (fs_keys s) \<Longrightarrow> pr_clear_value (Some (fs_keys s ! k)) (fs_w s) = (Some v', w') \<Longrightarrow>
    fk_step bufsize s (s\<lparr>fs_w := w', fs_keys := (fs_keys s)[k := v']\<rparr>)"
| attr_start: "j < length (fs_attr s) \<Longrightarrow> \<not> holds_rows (fs_attr s ! j) \<Longrightarrow>
    heap_attrinfo_start_with_index class_oid (fs_attr s ! j) (fs_w s) = (r, ai, ii, w') \<Longrightarrow>
    fk_step bufsize s (s\<lparr>fs_w := w', fs_attr := (fs_attr s)[j := ai]\<rparr>)"
| attr_end: "j < length (fs_attr s) \<Longrightarrow> heap_attrinfo_end (fs_attr s ! j) (fs_w s) = (ai, w') \<Longrightarrow>
    fk_step bufsize s (s\<lparr>fs_w := w', fs_attr := (fs_attr s)[j := ai]\<rparr>)"
| read: "heap_attrinfo_read_dbvalues (fs_w s) = (e, w') \<Longrightarrow> fk_step bufsize s (s\<lparr>fs_w := w'\<rparr>)"
| get_key: "k < length (fs_keys s) \<Longrightarrow> j < length (fs_attr s) \<Longrightarrow> fresh p (fs_w s) \<Longrightarrow>
    heap_attrvalue_get_key bufsize p i (fs_attr s ! j) len k (fs_keys s ! k) (fs_w s) = (r, v', w') \<Longrightarrow>
    fk_step bufsize s (s\<lparr>fs_w := w', fs_keys := (fs_keys s)[k := v']\<rparr>)"
| repr_get: "heap_classrepr_get class_oid (fs_w s) = (r, idx, w') \<Longrightarrow> fk_step bufsize s (s\<lparr>fs_w := w'\<rparr>)"
| repr_free: "fk_step bufsize s (s\<lparr>fs_w := heap_classrepr_free repr idx (fs_w s)\<rparr>)"
| ctx_init: "j < length (fs_ctx s) \<Longrightarrow> ctx_idle (fs_ctx s ! j) \<Longrightarrow>
    fk_step bufsize s (s\<lparr>fs_ctx := (fs_ctx s)[j := partition_init_pruning_context (fs_ctx s ! j)]\<rparr>)"
| ctx_load: "j < length (fs_ctx s) \<Longrightarrow> ctx_idle (fs_ctx s ! j) \<Longrightarrow>
    partition_load_pruning_context class_oid (fs_ctx s ! j) (fs_w s) = (e, pc, w') \<Longrightarrow>
    fk_step bufsize s (s\<lparr>fs_w := w', fs_ctx := (fs_ctx s)[j := pc]\<rparr>)"
| ctx_clear: "j < length (fs_ctx s) \<Longrightarrow> partition_clear_pruning_context (fs_ctx s ! j) (fs_w s) = (pc, w') \<Longrightarrow>
    fk_step bufsize s (s\<lparr>fs_w := w', fs_ctx := (fs_ctx s)[j := pc]\<rparr>)"
| ctx_prune: "j < length (fs_ctx s) \<Longrightarrow>
    partition_prune_unique_btid (fs_ctx s ! j) key tgt (fs_w s) = (e, tgt', pc, w') \<Longrightarrow>
    fk_step bufsize s (s\<lparr>fs_w := w', fs_ctx := (fs_ctx s)[j := pc]\<rparr>)"
| set_error: "fk_step bufsize s (s\<lparr>fs_w := er_set err_id args (fs_w s)\<rparr>)"
| has_null: "btree_multicol_key_has_null key (fs_w s) = (b, w') \<Longrightarrow> fk_step bufsize s (s\<lparr>fs_w := w'\<rparr>)"
| find_unique: "xbtree_find_unique bt op key class_oid all (fs_w s) = (r, found, w') \<Longrightarrow> fk_step bufsize s (s\<lparr>fs_w := w'\<rparr>)"

text \<open>A call starts with a world no fake has been called on and a caller that holds nothing.\<close>

definition untouched :: "world \<Rightarrow> bool" where
  "untouched w \<longleftrightarrow> w_valstr_live w = {} \<and> w_valstr_alloc w = 0 \<and> w_valstr_free w = 0 \<and>
     w_keybuf_live w = {} \<and> w_keybuf_alloc w = 0 \<and> w_keybuf_free w = 0 \<and> w_keybuf_bad_free w = 0 \<and>
     w_pred_live w = 0 \<and> w_attr_live w = 0 \<and> w_parts_live w = 0 \<and>
     w_get_ok w = 0 \<and> w_free_ok w = 0 \<and> w_free_errors w = 0 \<and> pins_left w = 0"

definition idle_caller :: "fk_state \<Rightarrow> bool" where
  "idle_caller s \<longleftrightarrow> list_all (\<lambda>v. v = DbNull) (fs_keys s) \<and> list_all ctx_idle (fs_ctx s) \<and>
     list_all (\<lambda>ai. \<not> holds_rows ai) (fs_attr s)"

inductive fk_reach :: "int \<Rightarrow> fk_state \<Rightarrow> bool" for bufsize :: int where
  start: "untouched (fs_w s) \<Longrightarrow> idle_caller s \<Longrightarrow> fk_reach bufsize s"
| step: "fk_reach bufsize s \<Longrightarrow> fk_step bufsize s s' \<Longrightarrow> fk_reach bufsize s'"

definition CHECK_NOTHING_LEFT :: "world \<Rightarrow> bool" where
  "CHECK_NOTHING_LEFT w \<longleftrightarrow> pins_left w = 0 \<and> w_get_ok w = w_free_ok w \<and> w_free_errors w = 0 \<and> w_pred_live w = 0 \<and>
     w_attr_live w = 0 \<and> w_parts_live w = 0 \<and> w_valstr_alloc w = w_valstr_free w \<and> w_keybuf_live w = {} \<and>
     w_keybuf_bad_free w = 0"

definition CHECK_KEY_BUFFERS :: "world \<Rightarrow> bool" where
  "CHECK_KEY_BUFFERS w \<longleftrightarrow> w_keybuf_live w = {} \<and> w_keybuf_free w = w_keybuf_alloc w \<and> w_keybuf_bad_free w = 0"

section \<open>Counting what the caller holds\<close>

definition held :: "('o \<Rightarrow> bool) \<Rightarrow> 'o list \<Rightarrow> int" where
  "held P xs = int (length (filter P xs))"

lemma held_update:
  "j < length xs \<Longrightarrow> held P (xs[j := x]) = held P xs + (if P x then 1 else 0) - (if P (xs ! j) then 1 else 0)"
proof (induction xs arbitrary: j)
  case (Cons y xs)
  show ?case
  proof (cases j)
    case (Suc n)
    then show ?thesis using Cons.IH [of n] Cons.prems by (cases "P y") (simp_all add: held_def)
  qed (simp add: held_def)
qed simp

lemma held_zero: "held P xs = 0 \<longleftrightarrow> list_all (\<lambda>x. \<not> P x) xs"
  by (simp add: held_def list_all_iff filter_empty_conv)

lemma held_nonneg: "0 \<le> held P xs"
  by (simp add: held_def)

section \<open>What the fakes do to the ledgers\<close>

definition pools :: "world \<Rightarrow> (nat set \<times> nat \<times> nat) \<times> (nat set \<times> nat \<times> nat)" where
  "pools w = ((w_valstr_live w, w_valstr_alloc w, w_valstr_free w), (w_keybuf_live w, w_keybuf_alloc w, w_keybuf_free w))"

definition contexts :: "world \<Rightarrow> int \<times> int \<times> int" where
  "contexts w = (w_parts_live w, w_pred_live w, w_attr_live w)"

text \<open>The fixes: how many classes hold, how many were got and freed, the errors, and who the classes are.\<close>

definition fixes_of :: "world \<Rightarrow> nat \<times> nat \<times> nat \<times> nat \<times> oid list" where
  "fixes_of w = (pins_left w, w_get_ok w, w_free_ok w, w_free_errors w, map fc_oid (w_cls w))"

lemma find_slot_oids: "find_slot cs oid = find_slot cs' oid" if "map fc_oid cs = map fc_oid cs'"
  using that
proof (induction cs arbitrary: cs')
  case (Cons c cs)
  then show ?case by (cases cs') auto
qed simp

lemma find_slot_Some: "find_slot cs oid = Some c \<Longrightarrow> c < length cs"
  by (induction cs arbitrary: c) (auto split: if_splits)

lemma find_class_Some: "find_class w oid = Some c \<Longrightarrow> c < length (w_cls w)"
  by (simp add: find_class_def find_slot_Some)

lemma find_class_oids: "map fc_oid (w_cls w) = map fc_oid (w_cls w') \<Longrightarrow> find_class w oid = find_class w' oid"
  unfolding find_class_def by (rule find_slot_oids)

lemma er_set_ledgers [ledger_simps]:
  "pools (er_set e a w) = pools w" "contexts (er_set e a w) = contexts w" "fixes_of (er_set e a w) = fixes_of w"
  by (auto simp: er_set_def pools_def contexts_def fixes_of_def pins_left_def Let_def split: option.splits)

lemma sum_list_update_nat:
  "c < length xs \<Longrightarrow> sum_list (map f (xs[c := x])) + f (xs ! c) = sum_list (map f xs) + (f x :: nat)"
proof (induction xs arbitrary: c)
  case (Cons y xs)
  then show ?case by (cases c) auto
qed simp

lemma map_fc_oid_update: "map fc_oid (cs[c := (cs ! c)\<lparr>fc_fcnt := n\<rparr>]) = map fc_oid cs"
  by (cases "c < length cs") (simp_all add: map_update list_update_same_conv list_update_beyond)

lemma fix_class_ledgers [ledger_simps]:
  "pools (fix_class c w) = pools w" "contexts (fix_class c w) = contexts w"
  "w_get_ok (fix_class c w) = w_get_ok w" "w_free_ok (fix_class c w) = w_free_ok w"
  "w_free_errors (fix_class c w) = w_free_errors w" "map fc_oid (w_cls (fix_class c w)) = map fc_oid (w_cls w)"
  "c < length (w_cls w) \<Longrightarrow> pins_left (fix_class c w) = Suc (pins_left w)"
  using sum_list_update_nat [of c "w_cls w" fc_fcnt "(w_cls w ! c)\<lparr>fc_fcnt := Suc (fc_fcnt (w_cls w ! c))\<rparr>"]
  by (simp_all add: fix_class_def pools_def contexts_def pins_left_def map_fc_oid_update)

lemma unfix_ledgers [ledger_simps]:
  "pools (unfix i r w) = pools w" "contexts (unfix i r w) = contexts w"
  "w_get_ok (unfix i r w) = w_get_ok w" "w_free_ok (unfix i r w) = w_free_ok w"
  "map fc_oid (w_cls (unfix i r w)) = map fc_oid (w_cls w)"
  by (simp_all add: unfix_def pools_def contexts_def map_fc_oid_update)

text \<open>An unfix either is an error and changes no fix count, or takes one fix off.\<close>

lemma unfix_pins:
  obtains "w_free_errors (unfix i r w) = Suc (w_free_errors w)" "pins_left (unfix i r w) = pins_left w"
  | "w_free_errors (unfix i r w) = w_free_errors w" "Suc (pins_left (unfix i r w)) = pins_left w"
proof (cases "i < 0 \<or> int (length (w_cls w)) \<le> i \<or> r \<noteq> Some (nat i) \<or> fc_fcnt (w_cls w ! nat i) = 0")
  case True
  then show ?thesis using that(1) by (simp add: unfix_def pins_left_def)
next
  case False
  then have "nat i < length (w_cls w)" by linarith
  from sum_list_update_nat [OF this, of fc_fcnt "(w_cls w ! nat i)\<lparr>fc_fcnt := fc_fcnt (w_cls w ! nat i) - 1\<rparr>"] False
  have "Suc (sum_list (map fc_fcnt ((w_cls w)[nat i := (w_cls w ! nat i)\<lparr>fc_fcnt := fc_fcnt (w_cls w ! nat i) - 1\<rparr>])))
      = sum_list (map fc_fcnt (w_cls w))" by simp arith
  then show ?thesis using False by (intro that(2)) (simp_all add: unfix_def pins_left_def)
qed

text \<open>
  The law of the fixes: with no error so far, what is fixed is what was got and not freed, plus what the
  caller's objects hold (\<open>h\<close>).
\<close>

definition fixes_law :: "int \<Rightarrow> world \<Rightarrow> bool" where
  "fixes_law h w \<longleftrightarrow> (w_free_errors w = 0 \<longrightarrow> int (pins_left w) = int (w_get_ok w) - int (w_free_ok w) + h)"

lemma fixes_law_same: "fixes_law h w \<Longrightarrow> fixes_of w' = fixes_of w \<Longrightarrow> fixes_law h w'"
  by (simp add: fixes_law_def fixes_of_def)

lemma fixes_law_fix: "fixes_law h w \<Longrightarrow> c < length (w_cls w) \<Longrightarrow> fixes_law (h + 1) (fix_class c w)"
  by (simp add: fixes_law_def ledger_simps)

lemma fixes_law_unfix: "fixes_law h w \<Longrightarrow> fixes_law (h - 1) (unfix i r w)"
  by (rule unfix_pins [of i r w]) (auto simp: fixes_law_def ledger_simps)

lemma fixes_law_get:
  assumes "fixes_law h w" "heap_classrepr_get oid w = (r, idx, w')"
  shows "fixes_law h w'"
proof -
  have "fixes_law h (w\<lparr>w_get_calls := n\<rparr>)" for n using assms(1) by (simp add: fixes_law_def pins_left_def)
  note call = fixes_law_same [OF this er_set_ledgers(3)]
  show ?thesis
  proof (cases "find_class w oid")
    case None
    then show ?thesis using assms call by (auto simp: heap_classrepr_get_def find_class_def Let_def)
  next
    case (Some c)
    have "int (pins_left (fix_class c (w\<lparr>w_get_calls := n\<rparr>))) = int (pins_left w) + 1" for n
      using find_class_Some [OF Some] fix_class_ledgers(7) [of c "w\<lparr>w_get_calls := n\<rparr>"] by (simp add: pins_left_def)
    then show ?thesis
      using assms call Some
      by (auto simp: heap_classrepr_get_def find_class_def Let_def fixes_law_def pins_left_def ledger_simps split: if_splits)
  qed
qed

lemma fixes_law_free:
  assumes "fixes_law h w"
  shows "fixes_law h (heap_classrepr_free r idx w)"
proof -
  let ?w = "w\<lparr>w_free_calls := Suc (w_free_calls w)\<rparr>"
  have "pins_left ?w = pins_left w" by (simp add: pins_left_def)
  then show ?thesis
    using assms unfix_ledgers(3,4) [of idx r ?w]
    by (rule_tac unfix_pins [of idx r ?w]) (auto simp: heap_classrepr_free_def Let_def fixes_law_def pins_left_def)
qed

abbreviation b2i :: "bool \<Rightarrow> int" where "b2i b \<equiv> (if b then 1 else 0)"

lemma start_effect:
  assumes "heap_attrinfo_start_with_index oid ai w = (r, ai', ii, w')" "fixes_law h w"
  shows "pools w' = pools w" "contexts w' = contexts w" "map fc_oid (w_cls w') = map fc_oid (w_cls w)"
    "fixes_law (h + b2i (holds_rows ai')) w'"
proof -
  have l: "fixes_law h (w\<lparr>w_start_calls := n\<rparr>)" for n using assms(2) by (simp add: fixes_law_def pins_left_def)
  have c: "fixes_law (h + 1) (fix_class c (w\<lparr>w_start_calls := n\<rparr>))" if "find_class w oid = Some c" for c n
    using find_class_Some [OF that] by (intro fixes_law_fix l) simp
  have f: "find_class (w\<lparr>w_start_calls := n\<rparr>) oid = find_class w oid" for n by (simp add: find_class_def)
  have u: "pools (w\<lparr>w_start_calls := n\<rparr>) = pools w" "contexts (w\<lparr>w_start_calls := n\<rparr>) = contexts w" for n
    by (simp_all add: pools_def contexts_def)
  show "pools w' = pools w" "contexts w' = contexts w" "map fc_oid (w_cls w') = map fc_oid (w_cls w)"
    "fixes_law (h + b2i (holds_rows ai')) w'"
    using assms(1) l c unfolding heap_attrinfo_start_with_index_def Let_def f
    by (auto simp: ledger_simps u holds_rows_def split: option.splits if_splits)
qed

lemma end_effect:
  assumes "heap_attrinfo_end ai w = (ai', w')" "fixes_law h w"
  shows "pools w' = pools w" "contexts w' = contexts w" "map fc_oid (w_cls w') = map fc_oid (w_cls w)"
    "fixes_law (h - b2i (holds_rows ai)) w'" "\<not> holds_rows ai'"
proof -
  have l: "fixes_law h (w\<lparr>w_end_calls := n\<rparr>)" for n using assms(2) by (simp add: fixes_law_def pins_left_def)
  have u: "pools (w\<lparr>w_end_calls := n\<rparr>) = pools w" "contexts (w\<lparr>w_end_calls := n\<rparr>) = contexts w" for n
    by (simp_all add: pools_def contexts_def)
  show "pools w' = pools w" "contexts w' = contexts w" "map fc_oid (w_cls w') = map fc_oid (w_cls w)"
    "fixes_law (h - b2i (holds_rows ai)) w'" "\<not> holds_rows ai'"
    using assms(1) l fixes_law_unfix [OF l] unfolding heap_attrinfo_end_def Let_def
    by (auto simp: ledger_simps u holds_rows_def split: if_splits)
qed

text \<open>A cleared context, and the world after its partitions and predicate are given back.\<close>

definition cleared :: "pruning_context \<Rightarrow> pruning_context" where
  "cleared pc = pc\<lparr>pc_partitions := None, pc_count := 0, pc_partition_pred := False, pc_fp_cache_context := False,
     pc_is_attr_info_inited := False\<rparr>"

definition drop_ctx :: "pruning_context \<Rightarrow> world \<Rightarrow> world" where
  "drop_ctx pc w = w\<lparr>w_clear_calls := Suc (w_clear_calls w), w_parts_live := w_parts_live w - b2i (holds_parts pc),
     w_pred_live := w_pred_live w - b2i (holds_pred pc)\<rparr>"

lemma clear_unfold:
  "partition_clear_pruning_context pc w = (cleared pc,
     if pc_is_attr_info_inited pc
     then (let wr = (case find_class (drop_ctx pc w) (pc_root_oid pc) of
                       Some c \<Rightarrow> unfix (int c) (Some c) (drop_ctx pc w) | None \<Rightarrow> drop_ctx pc w)
           in wr\<lparr>w_attr_live := w_attr_live wr - 1\<rparr>)
     else drop_ctx pc w)"
proof -
  let ?w1 = "w\<lparr>w_clear_calls := Suc (w_clear_calls w)\<rparr>"
  let ?w2 = "if \<not> pc_is_from_cache pc \<and> pc_partitions pc \<noteq> None then ?w1\<lparr>w_parts_live := w_parts_live ?w1 - 1\<rparr> else ?w1"
  have "(if pc_partition_pred pc \<or> pc_fp_cache_context pc then ?w2\<lparr>w_pred_live := w_pred_live ?w2 - 1\<rparr> else ?w2) = drop_ctx pc w"
    by (cases w) (simp add: drop_ctx_def holds_parts_def holds_pred_def)
  then show ?thesis
    unfolding partition_clear_pruning_context_def Let_def cleared_def by (simp only:)
qed

lemma drop_ctx_ledgers [ledger_simps]:
  "pools (drop_ctx pc w) = pools w" "fixes_of (drop_ctx pc w) = fixes_of w"
  "map fc_oid (w_cls (drop_ctx pc w)) = map fc_oid (w_cls w)"
  "contexts (drop_ctx pc w) = (w_parts_live w - b2i (holds_parts pc), w_pred_live w - b2i (holds_pred pc), w_attr_live w)"
  by (simp_all add: drop_ctx_def pools_def fixes_of_def contexts_def pins_left_def)

lemma attr_live_ledgers [ledger_simps]:
  "pools (w\<lparr>w_attr_live := n\<rparr>) = pools w" "fixes_of (w\<lparr>w_attr_live := n\<rparr>) = fixes_of w"
  "contexts (w\<lparr>w_attr_live := n\<rparr>) = (w_parts_live w, w_pred_live w, n)"
  by (simp_all add: pools_def fixes_of_def contexts_def pins_left_def)

lemma contexts_parts: "contexts w = (a, b, c) \<longleftrightarrow> w_parts_live w = a \<and> w_pred_live w = b \<and> w_attr_live w = c"
  by (simp add: contexts_def)

lemma clear_effect:
  assumes "partition_clear_pruning_context pc w = (pc', w')" "fixes_law h w"
    and root: "pc_is_attr_info_inited pc \<Longrightarrow> find_class w (pc_root_oid pc) \<noteq> None"
  shows "pools w' = pools w" "map fc_oid (w_cls w') = map fc_oid (w_cls w)" "ctx_idle pc'"
    "contexts w' = (w_parts_live w - b2i (holds_parts pc), w_pred_live w - b2i (holds_pred pc),
                    w_attr_live w - b2i (pc_is_attr_info_inited pc))"
    "fixes_law (h - b2i (pc_is_attr_info_inited pc)) w'"
proof -
  have pc': "pc' = cleared pc" using assms(1) by (simp add: clear_unfold)
  then show "ctx_idle pc'" by (simp add: ctx_idle_def cleared_def holds_parts_def holds_pred_def)
  let ?d = "drop_ctx pc w"
  have l: "fixes_law h ?d" by (rule fixes_law_same [OF assms(2) drop_ctx_ledgers(2)])
  have "pools w' = pools w \<and> map fc_oid (w_cls w') = map fc_oid (w_cls w) \<and>
    contexts w' = (w_parts_live w - b2i (holds_parts pc), w_pred_live w - b2i (holds_pred pc),
                    w_attr_live w - b2i (pc_is_attr_info_inited pc)) \<and>
    fixes_law (h - b2i (pc_is_attr_info_inited pc)) w'"
  proof (cases "pc_is_attr_info_inited pc")
    case False
    then have "w' = ?d" using assms(1) by (simp add: clear_unfold)
    then show ?thesis using False l by (simp add: ledger_simps)
  next
    case True
    then obtain c where "find_class ?d (pc_root_oid pc) = Some c"
      using root find_class_oids [OF drop_ctx_ledgers(3)] by fastforce
    then have w': "w' = (unfix (int c) (Some c) ?d)\<lparr>w_attr_live := w_attr_live (unfix (int c) (Some c) ?d) - 1\<rparr>"
      using assms(1) True by (simp add: clear_unfold Let_def)
    have "contexts (unfix (int c) (Some c) ?d) = contexts ?d" by (rule unfix_ledgers(2))
    then have "w_attr_live (unfix (int c) (Some c) ?d) = w_attr_live w" "w_parts_live (unfix (int c) (Some c) ?d) = w_parts_live w - b2i (holds_parts pc)"
      "w_pred_live (unfix (int c) (Some c) ?d) = w_pred_live w - b2i (holds_pred pc)"
      by (simp_all add: contexts_def drop_ctx_def)
    moreover have "fixes_law (h - 1) w'" unfolding w'
      by (rule fixes_law_same [OF fixes_law_unfix [OF l] attr_live_ledgers(2)])
    moreover have "map fc_oid (w_cls w') = map fc_oid (w_cls w)"
      using unfix_ledgers(5) [of "int c" "Some c" ?d] drop_ctx_ledgers(3) unfolding w' by simp
    ultimately show ?thesis using True unfolding w' by (simp add: ledger_simps)
  qed
  then show "pools w' = pools w" "map fc_oid (w_cls w') = map fc_oid (w_cls w)"
    "contexts w' = (w_parts_live w - b2i (holds_parts pc), w_pred_live w - b2i (holds_pred pc),
                    w_attr_live w - b2i (pc_is_attr_info_inited pc))"
    "fixes_law (h - b2i (pc_is_attr_info_inited pc)) w'" by simp_all
qed

lemma load_calls_ledgers [ledger_simps]:
  "pools (w\<lparr>w_load_calls := n, w_parts_live := m\<rparr>) = pools w" "fixes_of (w\<lparr>w_load_calls := n, w_parts_live := m\<rparr>) = fixes_of w"
  "contexts (w\<lparr>w_load_calls := n, w_parts_live := m\<rparr>) = (m, w_pred_live w, w_attr_live w)"
  "pools (w\<lparr>w_pred_live := q\<rparr>) = pools w" "fixes_of (w\<lparr>w_pred_live := q\<rparr>) = fixes_of w"
  "contexts (w\<lparr>w_pred_live := q\<rparr>) = (w_parts_live w, q, w_attr_live w)"
  by (simp_all add: pools_def fixes_of_def contexts_def pins_left_def)

text \<open>The context a load makes of a partitioned class, before its predicate is read.\<close>

definition loaded :: "oid \<Rightarrow> fake_class \<Rightarrow> pruning_context \<Rightarrow> pruning_context" where
  "loaded oid k pc = (partition_init_pruning_context pc)\<lparr>pc_root_oid := oid, pc_partitions := Some (fc_parts k),
     pc_count := length (fc_parts k), pc_is_from_cache := fc_from_cache k\<rparr>"

definition load_world :: "fake_class \<Rightarrow> world \<Rightarrow> world" where
  "load_world k w = w\<lparr>w_load_calls := Suc (w_load_calls w), w_parts_live := w_parts_live w + b2i (\<not> fc_from_cache k)\<rparr>"

lemma load_unfold:
  assumes "find_class w oid = Some c" "\<not> fc_load_unpartitioned (w_cls w ! c)"
  shows "partition_load_pruning_context oid pc w =
     (let k = w_cls w ! c; pc2 = loaded oid k pc; w2 = load_world k w
      in if fc_load_error k \<noteq> NO_ERROR
         then (let (pc3, w3) = partition_clear_pruning_context pc2 (er_set (fc_load_error k) None w2)
               in (fc_load_error k, pc3\<lparr>pc_error_code := fc_load_error k\<rparr>, w3))
         else (NO_ERROR, pc2\<lparr>pc_partition_pred := True, pc_fp_cache_context := True,
                 pc_partition_type := Some (pt_type (fc_parts k ! 0)), pc_root_repr_id := pt_rep_id (fc_parts k ! 0)\<rparr>,
               w2\<lparr>w_pred_live := w_pred_live w2 + 1\<rparr>))"
  using assms by (simp add: partition_load_pruning_context_def find_class_def Let_def loaded_def load_world_def)

lemma load_effect:
  assumes "partition_load_pruning_context oid pc w = (e, pc', w')" "fixes_law h w"
  shows "pools w' = pools w" "map fc_oid (w_cls w') = map fc_oid (w_cls w)" "\<not> pc_is_attr_info_inited pc'"
    "contexts w' = (w_parts_live w + b2i (holds_parts pc'), w_pred_live w + b2i (holds_pred pc'), w_attr_live w)"
    "fixes_law h w'"
proof -
  let ?goal = "pools w' = pools w \<and> map fc_oid (w_cls w') = map fc_oid (w_cls w) \<and> \<not> pc_is_attr_info_inited pc' \<and>
    contexts w' = (w_parts_live w + b2i (holds_parts pc'), w_pred_live w + b2i (holds_pred pc'), w_attr_live w) \<and>
    fixes_law h w'"
  have ?goal if "find_class w oid = None \<or> (\<exists>c. find_class w oid = Some c \<and> fc_load_unpartitioned (w_cls w ! c))"
  proof -
    have "w' = w\<lparr>w_load_calls := Suc (w_load_calls w)\<rparr>" "pc' = (partition_init_pruning_context pc)\<lparr>pc_root_oid := oid\<rparr>"
      using that assms(1) by (auto simp: partition_load_pruning_context_def find_class_def Let_def)
    then show ?thesis using assms(2)
      by (simp add: pools_def contexts_def fixes_law_def pins_left_def partition_init_pruning_context_def holds_parts_def holds_pred_def)
  qed
  moreover have ?goal if c: "find_class w oid = Some c" "\<not> fc_load_unpartitioned (w_cls w ! c)" for c
  proof -
    let ?k = "w_cls w ! c"
    let ?pc = "loaded oid ?k pc" and ?w = "load_world ?k w"
    have pc: "\<not> pc_is_attr_info_inited ?pc" "holds_parts ?pc = (\<not> fc_from_cache ?k)" "\<not> holds_pred ?pc"
      by (simp_all add: loaded_def partition_init_pruning_context_def holds_parts_def holds_pred_def)
    have law: "fixes_law h ?w" unfolding load_world_def by (rule fixes_law_same [OF assms(2) load_calls_ledgers(2)])
    have w: "pools ?w = pools w" "map fc_oid (w_cls ?w) = map fc_oid (w_cls w)"
      "contexts ?w = (w_parts_live w + b2i (\<not> fc_from_cache ?k), w_pred_live w, w_attr_live w)"
      unfolding load_world_def by (simp_all add: ledger_simps)
    show ?thesis
    proof (cases "fc_load_error ?k = NO_ERROR")
      case True
      then have "w' = ?w\<lparr>w_pred_live := w_pred_live ?w + 1\<rparr>" and p: "holds_pred pc'" "holds_parts pc' = holds_parts ?pc"
        "\<not> pc_is_attr_info_inited pc'"
        using assms(1) pc(1) unfolding load_unfold [OF c] by (auto simp: Let_def holds_pred_def holds_parts_def)
      then show ?thesis using w fixes_law_same [OF law load_calls_ledgers(5)] pc by (simp add: ledger_simps contexts_parts)
    next
      case False
      let ?e = "er_set (fc_load_error ?k) None ?w"
      obtain pc3 w3 where clr: "partition_clear_pruning_context ?pc ?e = (pc3, w3)" by (cases "partition_clear_pruning_context ?pc ?e")
      then have r: "w' = w3" "pc' = pc3\<lparr>pc_error_code := fc_load_error ?k\<rparr>"
        using assms(1) False unfolding load_unfold [OF c] by (auto simp: Let_def)
      have "fixes_law h ?e" by (rule fixes_law_same [OF law er_set_ledgers(3)])
      note ce = clear_effect [OF clr this]
      have "contexts ?e = contexts ?w" "map fc_oid (w_cls ?e) = map fc_oid (w_cls ?w)" "pools ?e = pools ?w"
        by (simp_all add: ledger_simps) (simp add: er_set_def)
      then show ?thesis using ce pc w unfolding r
        by (simp add: contexts_parts ctx_idle_def holds_parts_def holds_pred_def)
    qed
  qed
  ultimately have ?goal by (cases "find_class w oid") blast+
  then show "pools w' = pools w" "map fc_oid (w_cls w') = map fc_oid (w_cls w)" "\<not> pc_is_attr_info_inited pc'"
    "contexts w' = (w_parts_live w + b2i (holds_parts pc'), w_pred_live w + b2i (holds_pred pc'), w_attr_live w)"
    "fixes_law h w'" by simp_all
qed

lemma prune_calls_ledgers [ledger_simps]:
  "pools (w\<lparr>w_prune_calls := n, w_prune_in_btid := bs\<rparr>) = pools w" "fixes_of (w\<lparr>w_prune_calls := n, w_prune_in_btid := bs\<rparr>) = fixes_of w"
  "contexts (w\<lparr>w_prune_calls := n, w_prune_in_btid := bs\<rparr>) = contexts w"
  by (simp_all add: pools_def fixes_of_def contexts_def pins_left_def)

definition prune_world :: "btid \<Rightarrow> world \<Rightarrow> world" where
  "prune_world b w = w\<lparr>w_prune_calls := Suc (w_prune_calls w), w_prune_in_btid := w_prune_in_btid w @ [b]\<rparr>"

definition attr_fixed :: "nat \<Rightarrow> world \<Rightarrow> world" where
  "attr_fixed c w = (fix_class c w)\<lparr>w_attr_live := w_attr_live w + 1\<rparr>"

text \<open>The world after a prune: an error raised or not, on the call's world, with the root fixed or not.\<close>

lemma prune_cases:
  assumes "partition_prune_unique_btid pc key tgt w = (e, tgt', pc', w')"
  obtains x where "x = prune_world (snd (snd tgt)) w" "w' = x \<or> (\<exists>er. w' = er_set er None x)" "pc' = pc"
  | c x where "find_class w (pc_root_oid pc) = Some c" "x = prune_world (snd (snd tgt)) w" "pc_is_attr_info_inited pc" "pc' = pc"
      "w' = x \<or> (\<exists>er. w' = er_set er None x)"
  | c x where "find_class w (pc_root_oid pc) = Some c" "x = attr_fixed c (prune_world (snd (snd tgt)) w)"
      "\<not> pc_is_attr_info_inited pc" "pc' = pc\<lparr>pc_is_attr_info_inited := True\<rparr>" "w' = x \<or> (\<exists>er. w' = er_set er None x)"
proof (cases "find_class w (pc_root_oid pc)")
  case None
  then show ?thesis
    using assms by (intro that(1)) (auto simp: partition_prune_unique_btid_def find_class_def prune_world_def Let_def)
next
  case (Some c)
  then have f: "find_slot (w_cls w) (pc_root_oid pc) = Some c" by (simp add: find_class_def)
  note d = assms [unfolded partition_prune_unique_btid_def find_class_def Let_def, folded prune_world_def attr_fixed_def]
  show ?thesis
  proof (cases "pc_is_attr_info_inited pc")
    case True
    then have pc: "pc\<lparr>pc_is_attr_info_inited := True\<rparr> = pc" by (cases pc) simp
    let ?x = "prune_world (snd (snd tgt)) w"
    have "pc' = pc \<and> (w' = ?x \<or> (\<exists>er. w' = er_set er None ?x))"
      using d unfolding prune_world_def by (simp add: f True pc split: if_splits) blast+
    then show ?thesis using True by (intro that(2) [OF Some refl]) blast+
  next
    case False
    then show ?thesis
    proof (cases "fc_attr_start_error (w_cls w ! c) = NO_ERROR")
      case True
      then show ?thesis using d f False Some
        by (intro that(3)) (auto simp: prune_world_def attr_fixed_def split: if_splits)
    next
      case err: False
      then show ?thesis using d f False by (intro that(1)) (auto simp: prune_world_def)
    qed
  qed
qed

lemma prune_effect:
  assumes "partition_prune_unique_btid pc key tgt w = (e, tgt', pc', w')" "fixes_law h w"
  shows "pools w' = pools w" "map fc_oid (w_cls w') = map fc_oid (w_cls w)"
    "holds_parts pc' = holds_parts pc" "holds_pred pc' = holds_pred pc" "pc_root_oid pc' = pc_root_oid pc"
    "pc_is_attr_info_inited pc \<Longrightarrow> pc_is_attr_info_inited pc'"
    "pc_is_attr_info_inited pc' \<Longrightarrow> \<not> pc_is_attr_info_inited pc \<Longrightarrow> find_class w (pc_root_oid pc) \<noteq> None"
    "contexts w' = (w_parts_live w, w_pred_live w,
                    w_attr_live w + b2i (pc_is_attr_info_inited pc') - b2i (pc_is_attr_info_inited pc))"
    "fixes_law (h + b2i (pc_is_attr_info_inited pc') - b2i (pc_is_attr_info_inited pc)) w'"
proof -
  let ?p = "prune_world (snd (snd tgt)) w"
  have p: "pools ?p = pools w" "contexts ?p = contexts w" "fixes_of ?p = fixes_of w" "w_cls ?p = w_cls w" "w_attr_live ?p = w_attr_live w"
    unfolding prune_world_def by (simp_all add: ledger_simps)
  have lp: "fixes_law h ?p" by (rule fixes_law_same [OF assms(2) p(3)])
  have er: "pools (er_set x None y) = pools y" "contexts (er_set x None y) = contexts y" "w_cls (er_set x None y) = w_cls y"
    "fixes_law g y \<Longrightarrow> fixes_law g (er_set x None y)" for x y g
    using fixes_law_same [OF _ er_set_ledgers(3)] by (auto simp: ledger_simps) (simp add: er_set_def)
  have "pools w' = pools w \<and> map fc_oid (w_cls w') = map fc_oid (w_cls w) \<and>
    holds_parts pc' = holds_parts pc \<and> holds_pred pc' = holds_pred pc \<and> pc_root_oid pc' = pc_root_oid pc \<and>
    (pc_is_attr_info_inited pc \<longrightarrow> pc_is_attr_info_inited pc') \<and>
    (pc_is_attr_info_inited pc' \<longrightarrow> \<not> pc_is_attr_info_inited pc \<longrightarrow> find_class w (pc_root_oid pc) \<noteq> None) \<and>
    contexts w' = (w_parts_live w, w_pred_live w,
                    w_attr_live w + b2i (pc_is_attr_info_inited pc') - b2i (pc_is_attr_info_inited pc)) \<and>
    fixes_law (h + b2i (pc_is_attr_info_inited pc') - b2i (pc_is_attr_info_inited pc)) w'"
    using prune_cases [OF assms(1)]
  proof cases
    case (1 x)
    then show ?thesis using p er lp by (auto simp: contexts_def)
  next
    case (2 c x)
    then show ?thesis using p er lp by (auto simp: contexts_def)
  next
    case (3 c x)
    let ?a = "attr_fixed c ?p"
    have "c < length (w_cls ?p)" using find_class_Some [OF 3(1)] p(4) by simp
    then have "fixes_law (h + 1) ?a" unfolding attr_fixed_def
      by (rule fixes_law_same [OF fixes_law_fix [OF lp] attr_live_ledgers(2)])
    moreover have "pools ?a = pools w" "contexts ?a = (w_parts_live w, w_pred_live w, w_attr_live w + 1)"
      using p fix_class_ledgers(2) [of c ?p] unfolding attr_fixed_def by (simp_all add: ledger_simps contexts_def)
    moreover have "map fc_oid (w_cls ?a) = map fc_oid (w_cls w)"
      using p(4) fix_class_ledgers(6) [of c ?p] unfolding attr_fixed_def by simp
    ultimately have "pools w' = pools w" "contexts w' = (w_parts_live w, w_pred_live w, w_attr_live w + 1)"
      "map fc_oid (w_cls w') = map fc_oid (w_cls w)" "fixes_law (h + 1) w'"
      using 3(2,5) er by (metis)+
    then show ?thesis using 3 by (simp add: holds_parts_def holds_pred_def)
  qed
  then show "pools w' = pools w" "map fc_oid (w_cls w') = map fc_oid (w_cls w)"
    "holds_parts pc' = holds_parts pc" "holds_pred pc' = holds_pred pc" "pc_root_oid pc' = pc_root_oid pc"
    "pc_is_attr_info_inited pc \<Longrightarrow> pc_is_attr_info_inited pc'"
    "pc_is_attr_info_inited pc' \<Longrightarrow> \<not> pc_is_attr_info_inited pc \<Longrightarrow> find_class w (pc_root_oid pc) \<noteq> None"
    "contexts w' = (w_parts_live w, w_pred_live w,
                    w_attr_live w + b2i (pc_is_attr_info_inited pc') - b2i (pc_is_attr_info_inited pc))"
    "fixes_law (h + b2i (pc_is_attr_info_inited pc') - b2i (pc_is_attr_info_inited pc)) w'" by simp_all
qed

section \<open>Keys and their buffers\<close>

definition pools_ok :: "world \<Rightarrow> bool" where
  "pools_ok w \<longleftrightarrow> valstr.balanced w \<and> keybuf.balanced w"

lemma pools_ok_same: "pools_ok w \<Longrightarrow> pools w' = pools w \<Longrightarrow> pools_ok w'"
  by (auto simp: pools_ok_def pools_def valstr.balanced_def keybuf.balanced_def)

lemma pools_ok_keybuf: "pools_ok w \<Longrightarrow> keybuf.balanced w' \<Longrightarrow> w_valstr_live w' = w_valstr_live w \<Longrightarrow>
    w_valstr_alloc w' = w_valstr_alloc w \<Longrightarrow> w_valstr_free w' = w_valstr_free w \<Longrightarrow> pools_ok w'"
  by (auto simp: pools_ok_def valstr.balanced_def)

lemma pools_ok_valstr: "pools_ok w \<Longrightarrow> valstr.balanced w' \<Longrightarrow> w_keybuf_live w' = w_keybuf_live w \<Longrightarrow>
    w_keybuf_alloc w' = w_keybuf_alloc w \<Longrightarrow> w_keybuf_free w' = w_keybuf_free w \<Longrightarrow> pools_ok w'"
  by (auto simp: pools_ok_def keybuf.balanced_def)

lemma valstring_effect:
  assumes "fresh p w"
  shows "pools_ok w \<Longrightarrow> pools_ok (snd (pr_valstring p v w))"
    and "contexts (snd (pr_valstring p v w)) = contexts w" "fixes_of (snd (pr_valstring p v w)) = fixes_of w"
  using valstr.balanced_take [of w p] assms
  by (auto intro: pools_ok_valstr simp: pools_ok_def fresh_def)
    (auto simp: pr_valstring_def contexts_def fixes_of_def pins_left_def keybuf.balanced_def)

lemma private_free_effect:
  "pools_ok w \<Longrightarrow> pools_ok (private_free p w)"
  "contexts (private_free p w) = contexts w" "fixes_of (private_free p w) = fixes_of w"
  using valstr.balanced_give [of w p]
  by (auto intro: pools_ok_valstr simp: pools_ok_def)
    (auto simp: private_free_def contexts_def fixes_of_def pins_left_def keybuf.balanced_def)

lemma free_key_buf_effect:
  "pools_ok w \<Longrightarrow> pools_ok (free_key_buf b w)"
  "contexts (free_key_buf b w) = contexts w" "fixes_of (free_key_buf b w) = fixes_of w"
proof -
  show "contexts (free_key_buf b w) = contexts w" "fixes_of (free_key_buf b w) = fixes_of w"
    by (cases b; simp add: free_key_buf_def contexts_def fixes_of_def pins_left_def)+
  assume ok: "pools_ok w"
  show "pools_ok (free_key_buf b w)"
  proof (cases b)
    case (HeapBuf p)
    then have "keybuf.balanced (free_key_buf b w)" using ok keybuf.balanced_give [of w p] by (simp add: pools_ok_def)
    then show ?thesis using HeapBuf by (intro pools_ok_keybuf [OF ok]) (simp_all add: free_key_buf_def)
  qed (use ok in \<open>auto intro: pools_ok_same simp: free_key_buf_def pools_def\<close>)
qed

lemma clear_value_effect:
  assumes "pr_clear_value v w = (v', w')"
  shows "pools_ok w \<Longrightarrow> pools_ok w'" "contexts w' = contexts w" "fixes_of w' = fixes_of w"
proof -
  let ?w = "w\<lparr>w_clear_value_calls := Suc (w_clear_value_calls w)\<rparr>"
  have u: "pools ?w = pools w" "contexts ?w = contexts w" "fixes_of ?w = fixes_of w"
    by (simp_all add: pools_def contexts_def fixes_of_def pins_left_def)
  have "w' = ?w \<or> (\<exists>b. w' = free_key_buf b ?w)"
    using assms by (auto simp: pr_clear_value_def Let_def split: option.splits db_value.splits if_splits)
  then show "pools_ok w \<Longrightarrow> pools_ok w'" "contexts w' = contexts w" "fixes_of w' = fixes_of w"
    using u free_key_buf_effect pools_ok_same [of w ?w] by auto
qed

lemma get_key_effect:
  assumes "heap_attrvalue_get_key bufsize p i ai len kv v w = (r, v', w')" "fresh p w"
  shows "pools_ok w \<Longrightarrow> pools_ok w'" "contexts w' = contexts w" "fixes_of w' = fixes_of w"
proof -
  let ?n = "note_key_call i v w"
  have n: "pools ?n = pools w" "contexts ?n = contexts w" "fixes_of ?n = fixes_of w"
    by (simp_all add: note_key_call_def Let_def pools_def contexts_def fixes_of_def pins_left_def)
  have u: "pools (y\<lparr>w_cur_index := a\<rparr>) = pools y" "contexts (y\<lparr>w_cur_index := a\<rparr>) = contexts y"
    "fixes_of (y\<lparr>w_cur_index := a\<rparr>) = fixes_of y" "pools (y\<lparr>w_cur_index := a, w_cur_key := b\<rparr>) = pools y"
    "contexts (y\<lparr>w_cur_index := a, w_cur_key := b\<rparr>) = contexts y" "fixes_of (y\<lparr>w_cur_index := a, w_cur_key := b\<rparr>) = fixes_of y" for y a b
    by (simp_all add: pools_def contexts_def fixes_of_def pins_left_def)
  have "w' = ?n \<or> (\<exists>a b. w' = ?n\<lparr>w_cur_index := a, w_cur_key := b\<rparr>) \<or>
      (\<exists>a cr. w' = (alloc_key_buf p (?n\<lparr>w_cur_index := a\<rparr>))\<lparr>w_cur_key := cr\<rparr>)"
    using assms(1) unfolding heap_attrvalue_get_key_def Let_def by (auto split: if_splits)
  then have "\<exists>x cr. pools x = pools w \<and> contexts x = contexts w \<and> fixes_of x = fixes_of w \<and>
      (w' = x \<or> w' = (alloc_key_buf p x)\<lparr>w_cur_key := cr\<rparr>)"
    using n u by metis
  then obtain x cr where x: "pools x = pools w" "contexts x = contexts w" "fixes_of x = fixes_of w"
    "w' = x \<or> w' = (alloc_key_buf p x)\<lparr>w_cur_key := cr\<rparr>" by blast
  have "keybuf.balanced x \<Longrightarrow> keybuf.balanced (alloc_key_buf p x)"
    using assms(2) x(1) by (intro keybuf.balanced_take) (auto simp: fresh_def pools_def)
  then show "pools_ok w \<Longrightarrow> pools_ok w'" using x(4) pools_ok_same [OF _ x(1)]
    by (auto simp: pools_ok_def valstr.balanced_def keybuf.balanced_def alloc_key_buf_def Let_def)
  show "contexts w' = contexts w" "fixes_of w' = fixes_of w"
    using x by (auto simp: alloc_key_buf_def Let_def contexts_def fixes_of_def pins_left_def)
qed

section \<open>The invariant\<close>

abbreviation inited :: "pruning_context \<Rightarrow> bool" where "inited \<equiv> pc_is_attr_info_inited"

definition ctx_law :: "world \<Rightarrow> pruning_context list \<Rightarrow> bool" where
  "ctx_law w cs \<longleftrightarrow> contexts w = (held holds_parts cs, held holds_pred cs, held inited cs) \<and>
     list_all (\<lambda>pc. inited pc \<longrightarrow> find_class w (pc_root_oid pc) \<noteq> None) cs"

definition fk_inv :: "fk_state \<Rightarrow> bool" where
  "fk_inv s \<longleftrightarrow> pools_ok (fs_w s) \<and> ctx_law (fs_w s) (fs_ctx s) \<and>
     fixes_law (held holds_rows (fs_attr s) + held inited (fs_ctx s)) (fs_w s)"

lemma ctx_law_same: "ctx_law w cs \<Longrightarrow> contexts w' = contexts w \<Longrightarrow> map fc_oid (w_cls w') = map fc_oid (w_cls w) \<Longrightarrow> ctx_law w' cs"
  unfolding ctx_law_def list_all_iff by (simp add: find_class_oids [of w' w])

lemma fixes_of_oids: "fixes_of w' = fixes_of w \<Longrightarrow> map fc_oid (w_cls w') = map fc_oid (w_cls w)"
  by (simp add: fixes_of_def)

lemma ctx_law_update:
  assumes "ctx_law w cs" "j < length cs" "map fc_oid (w_cls w') = map fc_oid (w_cls w)"
    and "contexts w' = (w_parts_live w + b2i (holds_parts pc) - b2i (holds_parts (cs ! j)),
                        w_pred_live w + b2i (holds_pred pc) - b2i (holds_pred (cs ! j)),
                        w_attr_live w + b2i (inited pc) - b2i (inited (cs ! j)))"
    and "inited pc \<Longrightarrow> find_class w (pc_root_oid pc) \<noteq> None"
  shows "ctx_law w' (cs[j := pc])"
proof -
  have "\<forall>x \<in> set (cs[j := pc]). inited x \<longrightarrow> find_class w (pc_root_oid x) \<noteq> None"
    using assms(1,5) set_update_subset_insert [of cs j pc] by (auto simp: ctx_law_def list_all_iff)
  then show ?thesis
    using assms(1,2,4) find_class_oids [OF assms(3)] unfolding ctx_law_def list_all_iff
    by (simp add: held_update contexts_def)
qed

lemma fk_inv_world:
  "fk_inv s \<Longrightarrow> (pools_ok (fs_w s) \<Longrightarrow> pools_ok w') \<Longrightarrow> contexts w' = contexts (fs_w s) \<Longrightarrow> fixes_of w' = fixes_of (fs_w s) \<Longrightarrow>
     fk_inv (s\<lparr>fs_w := w', fs_keys := ks\<rparr>)"
  unfolding fk_inv_def
  using ctx_law_same [of "fs_w s" "fs_ctx s" w'] fixes_of_oids [of w' "fs_w s"] fixes_law_same [of _ "fs_w s" w'] by simp

lemma fk_inv_world0:
  "fk_inv s \<Longrightarrow> (pools_ok (fs_w s) \<Longrightarrow> pools_ok w') \<Longrightarrow> contexts w' = contexts (fs_w s) \<Longrightarrow> fixes_of w' = fixes_of (fs_w s) \<Longrightarrow>
     fk_inv (s\<lparr>fs_w := w'\<rparr>)"
  unfolding fk_inv_def
  using ctx_law_same [of "fs_w s" "fs_ctx s" w'] fixes_of_oids [of w' "fs_w s"] fixes_law_same [of _ "fs_w s" w'] by simp

lemma fk_inv_same:
  "fk_inv s \<Longrightarrow> pools w' = pools (fs_w s) \<Longrightarrow> contexts w' = contexts (fs_w s) \<Longrightarrow> fixes_of w' = fixes_of (fs_w s) \<Longrightarrow>
     fk_inv (s\<lparr>fs_w := w'\<rparr>)"
  using fk_inv_world0 pools_ok_same by blast

lemma attr_inv:
  assumes "fk_inv s" "j < length (fs_attr s)" "pools w' = pools (fs_w s)" "contexts w' = contexts (fs_w s)"
    and "map fc_oid (w_cls w') = map fc_oid (w_cls (fs_w s))"
    and "\<And>h. fixes_law h (fs_w s) \<Longrightarrow> fixes_law (h + b2i (holds_rows ai) - b2i (holds_rows (fs_attr s ! j))) w'"
  shows "fk_inv (s\<lparr>fs_w := w', fs_attr := (fs_attr s)[j := ai]\<rparr>)"
proof -
  have E: "held holds_rows ((fs_attr s)[j := ai]) + held inited (fs_ctx s)
      = held holds_rows (fs_attr s) + held inited (fs_ctx s) + b2i (holds_rows ai) - b2i (holds_rows (fs_attr s ! j))"
    using assms(2) by (simp add: held_update)
  have "pools_ok w'" "ctx_law w' (fs_ctx s)"
    using assms(1) pools_ok_same [OF _ assms(3)] ctx_law_same [OF _ assms(4,5)] by (simp_all add: fk_inv_def)
  moreover have "fixes_law (held holds_rows ((fs_attr s)[j := ai]) + held inited (fs_ctx s)) w'"
    unfolding E using assms(1) by (intro assms(6)) (simp add: fk_inv_def)
  ultimately show ?thesis unfolding fk_inv_def by simp
qed

lemma start_inv:
  assumes "fk_inv s" "j < length (fs_attr s)" "\<not> holds_rows (fs_attr s ! j)"
    and "heap_attrinfo_start_with_index oid (fs_attr s ! j) (fs_w s) = (r, ai, ii, w')"
  shows "fk_inv (s\<lparr>fs_w := w', fs_attr := (fs_attr s)[j := ai]\<rparr>)"
proof -
  have l: "fixes_law h (fs_w s)" if "h = held holds_rows (fs_attr s) + held inited (fs_ctx s)" for h
    using assms(1) that by (simp add: fk_inv_def)
  show ?thesis
    using assms(3) start_effect [OF assms(4)] l [OF refl] by (intro attr_inv [OF assms(1,2)]) auto
qed

lemma end_inv:
  assumes "fk_inv s" "j < length (fs_attr s)" "heap_attrinfo_end (fs_attr s ! j) (fs_w s) = (ai, w')"
  shows "fk_inv (s\<lparr>fs_w := w', fs_attr := (fs_attr s)[j := ai]\<rparr>)"
proof -
  have l: "fixes_law h (fs_w s)" if "h = held holds_rows (fs_attr s) + held inited (fs_ctx s)" for h
    using assms(1) that by (simp add: fk_inv_def)
  show ?thesis
    using end_effect [OF assms(3)] l [OF refl] by (intro attr_inv [OF assms(1,2)]) auto
qed

lemma repr_inv:
  assumes "fk_inv s"
  shows "heap_classrepr_get oid (fs_w s) = (r, idx, w') \<Longrightarrow> fk_inv (s\<lparr>fs_w := w'\<rparr>)"
    and "fk_inv (s\<lparr>fs_w := heap_classrepr_free repr idx (fs_w s)\<rparr>)"
proof -
  have get: "pools w' = pools w \<and> contexts w' = contexts w \<and> map fc_oid (w_cls w') = map fc_oid (w_cls w)"
    if "heap_classrepr_get oid w = (r, idx, w')" for w w' r idx
  proof -
    have u: "pools (w\<lparr>w_get_calls := n\<rparr>) = pools w" "contexts (w\<lparr>w_get_calls := n\<rparr>) = contexts w" for w n
      by (simp_all add: pools_def contexts_def)
    have v: "pools (w\<lparr>w_get_ok := n\<rparr>) = pools w" "contexts (w\<lparr>w_get_ok := n\<rparr>) = contexts w" for w n
      by (simp_all add: pools_def contexts_def)
    have "w_cls (er_set x None y) = w_cls y" for x y by (simp add: er_set_def)
    then show ?thesis
      using that unfolding heap_classrepr_get_def Let_def by (auto simp: u v ledger_simps split: option.splits if_splits)
  qed
  show "heap_classrepr_get oid (fs_w s) = (r, idx, w') \<Longrightarrow> fk_inv (s\<lparr>fs_w := w'\<rparr>)"
    using assms get fixes_law_get pools_ok_same ctx_law_same by (fastforce simp: fk_inv_def)
  have free: "pools (heap_classrepr_free repr idx w) = pools w" "contexts (heap_classrepr_free repr idx w) = contexts w"
    "map fc_oid (w_cls (heap_classrepr_free repr idx w)) = map fc_oid (w_cls w)" for w
    using unfix_ledgers(1,2,5) [of idx repr "w\<lparr>w_free_calls := Suc (w_free_calls w)\<rparr>"]
    by (auto simp: heap_classrepr_free_def Let_def pools_def contexts_def)
  then show "fk_inv (s\<lparr>fs_w := heap_classrepr_free repr idx (fs_w s)\<rparr>)"
    using assms fixes_law_free pools_ok_same ctx_law_same by (fastforce simp: fk_inv_def)
qed

lemma ctx_inv:
  assumes "fk_inv s" "j < length (fs_ctx s)" "pools w' = pools (fs_w s)" "map fc_oid (w_cls w') = map fc_oid (w_cls (fs_w s))"
    and "contexts w' = (w_parts_live (fs_w s) + b2i (holds_parts pc) - b2i (holds_parts (fs_ctx s ! j)),
                        w_pred_live (fs_w s) + b2i (holds_pred pc) - b2i (holds_pred (fs_ctx s ! j)),
                        w_attr_live (fs_w s) + b2i (inited pc) - b2i (inited (fs_ctx s ! j)))"
    and "inited pc \<Longrightarrow> find_class (fs_w s) (pc_root_oid pc) \<noteq> None"
    and "\<And>h. fixes_law h (fs_w s) \<Longrightarrow> fixes_law (h + b2i (inited pc) - b2i (inited (fs_ctx s ! j))) w'"
  shows "fk_inv (s\<lparr>fs_w := w', fs_ctx := (fs_ctx s)[j := pc]\<rparr>)"
proof -
  have "ctx_law (fs_w s) (fs_ctx s)" using assms(1) by (simp add: fk_inv_def)
  from ctx_law_update [OF this assms(2,4,5,6)] have "ctx_law w' ((fs_ctx s)[j := pc])" .
  moreover have E: "held holds_rows (fs_attr s) + held inited ((fs_ctx s)[j := pc])
      = held holds_rows (fs_attr s) + held inited (fs_ctx s) + b2i (inited pc) - b2i (inited (fs_ctx s ! j))"
    using assms(2) by (simp add: held_update)
  moreover have "pools_ok w'" using assms(1,3) pools_ok_same by (auto simp: fk_inv_def)
  moreover have "fixes_law (held holds_rows (fs_attr s) + held inited ((fs_ctx s)[j := pc])) w'"
    unfolding E using assms(1) by (intro assms(7)) (simp add: fk_inv_def)
  ultimately show ?thesis unfolding fk_inv_def by simp
qed

lemma inited_root: "fk_inv s \<Longrightarrow> j < length (fs_ctx s) \<Longrightarrow> inited (fs_ctx s ! j) \<Longrightarrow> find_class (fs_w s) (pc_root_oid (fs_ctx s ! j)) \<noteq> None"
  by (simp add: fk_inv_def ctx_law_def list_all_length)

lemma init_inv:
  assumes "fk_inv s" "j < length (fs_ctx s)" "ctx_idle (fs_ctx s ! j)"
  shows "fk_inv (s\<lparr>fs_ctx := (fs_ctx s)[j := partition_init_pruning_context (fs_ctx s ! j)]\<rparr>)"
proof -
  have "fk_inv (s\<lparr>fs_w := fs_w s, fs_ctx := (fs_ctx s)[j := partition_init_pruning_context (fs_ctx s ! j)]\<rparr>)"
    using assms(3) by (intro ctx_inv [OF assms(1,2)])
      (simp_all add: ctx_idle_def partition_init_pruning_context_def holds_parts_def holds_pred_def contexts_def)
  then show ?thesis by simp
qed

lemma fk_inv_law: "fk_inv s \<Longrightarrow> \<exists>h. fixes_law h (fs_w s)"
  by (auto simp: fk_inv_def)

lemma load_inv:
  assumes "fk_inv s" "j < length (fs_ctx s)" "ctx_idle (fs_ctx s ! j)"
    and "partition_load_pruning_context oid (fs_ctx s ! j) (fs_w s) = (e, pc, w')"
  shows "fk_inv (s\<lparr>fs_w := w', fs_ctx := (fs_ctx s)[j := pc]\<rparr>)"
proof -
  obtain h where h: "fixes_law h (fs_w s)" using fk_inv_law [OF assms(1)] by blast
  show ?thesis
    using assms(3) load_effect [OF assms(4)] load_effect [OF assms(4) h]
    by (intro ctx_inv [OF assms(1,2)]) (simp_all add: ctx_idle_def)
qed

lemma clear_inv:
  assumes "fk_inv s" "j < length (fs_ctx s)" "partition_clear_pruning_context (fs_ctx s ! j) (fs_w s) = (pc, w')"
  shows "fk_inv (s\<lparr>fs_w := w', fs_ctx := (fs_ctx s)[j := pc]\<rparr>)"
proof -
  obtain h where h: "fixes_law h (fs_w s)" using fk_inv_law [OF assms(1)] by blast
  note r = inited_root [OF assms(1,2)]
  show ?thesis
    using clear_effect [OF assms(3) _ r] clear_effect [OF assms(3) h r]
    by (intro ctx_inv [OF assms(1,2)]) (simp_all add: ctx_idle_def)
qed

lemma prune_inv:
  assumes "fk_inv s" "j < length (fs_ctx s)" "partition_prune_unique_btid (fs_ctx s ! j) key tgt (fs_w s) = (e, tgt', pc, w')"
  shows "fk_inv (s\<lparr>fs_w := w', fs_ctx := (fs_ctx s)[j := pc]\<rparr>)"
proof -
  obtain h where h: "fixes_law h (fs_w s)" using fk_inv_law [OF assms(1)] by blast
  show ?thesis
    using prune_effect [OF assms(3)] prune_effect [OF assms(3) h] inited_root [OF assms(1,2)]
    by (intro ctx_inv [OF assms(1,2)]) (simp_all, blast)
qed

lemma find_unique_world:
  assumes "xbtree_find_unique bt op key oid all w = (r, found, w')"
  shows "pools w' = pools w" "contexts w' = contexts w" "fixes_of w' = fixes_of w"
proof -
  obtain ss where "w' = w\<lparr>w_searches := ss\<rparr> \<or> w' = er_set SEARCH_ERROR None (w\<lparr>w_searches := ss\<rparr>)"
    using assms unfolding xbtree_find_unique_def Let_def by (auto split: if_splits)
  moreover have "pools (w\<lparr>w_searches := ss\<rparr>) = pools w" "contexts (w\<lparr>w_searches := ss\<rparr>) = contexts w"
      "fixes_of (w\<lparr>w_searches := ss\<rparr>) = fixes_of w"
    by (simp_all add: pools_def contexts_def fixes_of_def pins_left_def)
  ultimately show "pools w' = pools w" "contexts w' = contexts w" "fixes_of w' = fixes_of w"
    using er_set_ledgers by metis+
qed

lemma fk_inv_step:
  assumes "fk_step bufsize s s'" "fk_inv s"
  shows "fk_inv s'"
  using assms
proof cases
  case (valstring p v)
  then show ?thesis using valstring_effect [of p "fs_w s" v] fk_inv_world0 [OF assms(2)] by simp
next
  case (free p)
  then show ?thesis using private_free_effect(1) [of "fs_w s" p] private_free_effect(2,3) [of p "fs_w s"] fk_inv_world0 [OF assms(2)] by simp
next
  case clear_null
  have "pr_clear_value None (fs_w s) = (None, snd (pr_clear_value None (fs_w s)))" by (simp add: pr_clear_value_def Let_def)
  then show ?thesis using clear_value_effect fk_inv_world0 [OF assms(2)] clear_null by metis
next
  case (clear_value k v' w')
  then show ?thesis using clear_value_effect [OF clear_value(3)] fk_inv_world [OF assms(2)] by simp
next
  case (attr_start j oid r ai ii w')
  then show ?thesis using start_inv [OF assms(2)] by blast
next
  case (attr_end j ai w')
  then show ?thesis using end_inv [OF assms(2)] by blast
next
  case (read e w')
  have "pools w' = pools (fs_w s)" "contexts w' = contexts (fs_w s)" "fixes_of w' = fixes_of (fs_w s)"
    using read(2) er_set_ledgers [of "w_read_error (fs_w s)" None "fs_w s\<lparr>w_read_calls := Suc (w_read_calls (fs_w s))\<rparr>"]
    by (auto simp: heap_attrinfo_read_dbvalues_def Let_def pools_def contexts_def fixes_of_def pins_left_def split: if_splits)
  then show ?thesis using read(1) fk_inv_same [OF assms(2)] by blast
next
  case (get_key k j p i len r v' w')
  then show ?thesis using get_key_effect [OF get_key(5,4)] fk_inv_world [OF assms(2)] by simp
next
  case (repr_get oid r idx w')
  then show ?thesis using repr_inv(1) [OF assms(2)] by blast
next
  case (repr_free repr idx)
  then show ?thesis using repr_inv(2) [OF assms(2)] by blast
next
  case (ctx_init j)
  then show ?thesis using init_inv [OF assms(2)] by blast
next
  case (ctx_load j oid e pc w')
  then show ?thesis using load_inv [OF assms(2)] by blast
next
  case (ctx_clear j pc w')
  then show ?thesis using clear_inv [OF assms(2)] by blast
next
  case (ctx_prune j key tgt e tgt' pc w')
  then show ?thesis using prune_inv [OF assms(2)] by blast
next
  case (set_error err_id args)
  then show ?thesis using er_set_ledgers [of err_id args "fs_w s"] fk_inv_same [OF assms(2)] by blast
next
  case (has_null key b w')
  then have "pools w' = pools (fs_w s)" "contexts w' = contexts (fs_w s)" "fixes_of w' = fixes_of (fs_w s)"
    by (auto simp: btree_multicol_key_has_null_def Let_def pools_def contexts_def fixes_of_def pins_left_def)
  then show ?thesis using has_null(1) fk_inv_same [OF assms(2)] by blast
next
  case (find_unique bt op key oid all r found w')
  then show ?thesis using fk_inv_same [OF assms(2) find_unique_world [OF find_unique(2)]] by simp
qed

lemma fk_inv_start:
  assumes "untouched (fs_w s)" "idle_caller s"
  shows "fk_inv s"
proof -
  have "held holds_rows (fs_attr s) = 0" "held holds_parts (fs_ctx s) = 0" "held holds_pred (fs_ctx s) = 0" "held inited (fs_ctx s) = 0"
    using assms(2) unfolding held_zero by (auto simp: idle_caller_def ctx_idle_def list_all_iff)
  moreover have "list_all (\<lambda>pc. inited pc \<longrightarrow> find_class (fs_w s) (pc_root_oid pc) \<noteq> None) (fs_ctx s)"
    using assms(2) by (auto simp: idle_caller_def ctx_idle_def list_all_iff)
  ultimately show ?thesis
    using assms(1) by (simp add: fk_inv_def untouched_def pools_ok_def valstr.balanced_def keybuf.balanced_def ctx_law_def contexts_def fixes_law_def)
qed

lemma fk_reach_inv: "fk_reach bufsize s \<Longrightarrow> fk_inv s"
  by (induction rule: fk_reach.induct) (auto intro: fk_inv_start fk_inv_step)

end
