(* ===== verification/FkOracle.thy ===== *)
theory FkOracle
  imports FkLedger "HOL-Library.State_Monad"
begin

text \<open>
  The oracle of the foreign-key suite
  (\<^verbatim>\<open>unit/transaction/locator_sr.check_foreign_key/test.cpp\<close>, lines 1690-2060): the
  documented behaviour read from the script, the generator of random scripts and the three loops that
  compare the engine's run with them. The random engine and the code under test are parameters.
\<close>

section \<open>The documented behaviour\<close>

record expect =
  ex_ret :: fk_er
  ex_ret_overwritten :: bool
  ex_searches :: "(int \<times> int) list"
  ex_msg_name :: "string list"
  ex_msg_value :: "string list"

definition print_key :: "world \<Rightarrow> nat \<Rightarrow> string" where
  "print_key w pos =
     (if 1 < ix_n_atts (w_indexes w ! pos) then ''{'' @ print_int (w_key_id w ! pos) @ ''}''
      else print_int (w_key_id w ! pos))"

text \<open>The variables of the loop: the expectation so far, \<open>err\<close>, whether a key was invalid, the searches.\<close>

record oracle_vars =
  ov_e :: expect
  ov_err :: fk_er
  ov_seen :: bool
  ov_nsearch :: nat

text \<open>A key the log applier does not find is passed over; for any other client it ends the check.\<close>

definition oracle_missing :: "world \<Rightarrow> nat \<Rightarrow> oracle_vars \<Rightarrow> expect + oracle_vars" where
  "oracle_missing w pos st =
     (let e = (ov_e st)\<lparr>ex_msg_name := ex_msg_name (ov_e st) @ [the (fk_name (w_fks w ! pos))],
                        ex_msg_value := ex_msg_value (ov_e st) @ [print_key w pos]\<rparr>
      in if w_applier w then Inr (st\<lparr>ov_e := e, ov_err := ER_FK_INVALID, ov_seen := True\<rparr>)
         else Inl (e\<lparr>ex_ret := ER_FK_INVALID\<rparr>))"

definition oracle_search :: "world \<Rightarrow> nat \<Rightarrow> btid \<Rightarrow> oid \<Rightarrow> oracle_vars \<Rightarrow> expect + oracle_vars" where
  "oracle_search w pos b oi st =
     (if b \<noteq> NullBtid
      then (let e = (ov_e st)\<lparr>ex_searches := ex_searches (ov_e st) @ [(btid_root b, oid_pageid oi)]\<rparr>;
                n = Suc (ov_nsearch st);
                st1 = st\<lparr>ov_e := e, ov_nsearch := n\<rparr>
            in if n = w_search_error_at w then Inl (e\<lparr>ex_ret := SEARCH_ERROR\<rparr>)
               else if (btid_root b, w_key_id w ! pos) \<in> set (w_rows w) then Inr st1
               else oracle_missing w pos st1)
      else oracle_missing w pos st)"

definition oracle_null :: "world \<Rightarrow> nat \<Rightarrow> bool" where
  "oracle_null w pos =
     (if 1 < ix_n_atts (w_indexes w ! pos) then w_multi_null w ! pos else w_attr_val w ! pos = DbNull)"

definition oracle_index :: "world \<Rightarrow> nat \<Rightarrow> oracle_vars \<Rightarrow> expect + oracle_vars" where
  "oracle_index w pos st =
     (let ret = (\<lambda>er. Inl ((ov_e st)\<lparr>ex_ret := er\<rparr>))
      in if ix_type (w_indexes w ! pos) \<noteq> BTREE_FOREIGN_KEY then Inr st
         else if int pos = w_get_key_fail_at w then ret ER_FAILED
         else if oracle_null w pos then Inr st
         else
           (let c = the (find_class w (fk_ref_class_oid (w_fks w ! pos))); k = w_cls w ! c
            in if fc_get_fails k then ret ER_FAILED
               else if fc_has_partition_info k
               then if fc_load_error k \<noteq> NO_ERROR then ret (fc_load_error k)
                    else
                      (let st1 = st\<lparr>ov_err := NO_ERROR\<rparr>
                       in if \<not> fc_load_unpartitioned k
                          then if fc_attr_start_error k \<noteq> NO_ERROR then ret (fc_attr_start_error k)
                               else if fc_prune_error k \<noteq> NO_ERROR then ret (fc_prune_error k)
                               else (let (b, oi) = pk_holding w c (w_key_id w ! pos)
                                     in oracle_search w pos b oi st1)
                          else oracle_search w pos (fc_pk k) (fc_oid k) st1)
               else oracle_search w pos (fc_pk k) (fc_oid k) st))"

fun oracle_loop :: "world \<Rightarrow> nat list \<Rightarrow> oracle_vars \<Rightarrow> expect" where
  "oracle_loop w [] st =
     (ov_e st)\<lparr>ex_ret := ov_err st, ex_ret_overwritten := (ov_seen st \<and> ov_err st \<noteq> ER_FK_INVALID)\<rparr>"
| "oracle_loop w (pos # ps) st =
     (case oracle_index w pos st of Inl e \<Rightarrow> e | Inr st' \<Rightarrow> oracle_loop w ps st')"

definition fk_oracle :: "world \<Rightarrow> expect" where
  "fk_oracle w =
     (let e = \<lparr>ex_ret = NO_ERROR, ex_ret_overwritten = False, ex_searches = [], ex_msg_name = [], ex_msg_value = []\<rparr>;
          has_single_col = list_ex (\<lambda>ix. ix_n_atts ix = 1) (w_indexes w)
      in if w_read_error w \<noteq> NO_ERROR \<and> has_single_col then e\<lparr>ex_ret := w_read_error w\<rparr>
         else oracle_loop w [0..<length (w_indexes w)]
                \<lparr>ov_e = e, ov_err = NO_ERROR, ov_seen = False, ov_nsearch = 0\<rparr>)"

section \<open>The generator\<close>

text \<open>
  \<open>rnd\<close> draws the next number of \<open>std::mt19937\<close>, \<open>shuf\<close> is
  \<open>std::shuffle\<close>. The state is the random engine and the world.
\<close>

definition pick :: "('g \<Rightarrow> nat \<times> 'g) \<Rightarrow> nat \<Rightarrow> ('g \<times> world, nat) state" where
  "pick rnd n = State (\<lambda>(g, w). let (x, g') = rnd g in (x mod n, (g', w)))"

definition in_world :: "(world \<Rightarrow> 'a \<times> world) \<Rightarrow> ('g \<times> world, 'a) state" where
  "in_world f = State (\<lambda>(g, w). let (x, w') = f w in (x, (g, w')))"

definition upd_world :: "(world \<Rightarrow> world) \<Rightarrow> ('g \<times> world, unit) state" where
  "upd_world f = in_world (\<lambda>w. ((), f w))"

definition upd_class :: "nat \<Rightarrow> (fake_class \<Rightarrow> fake_class) \<Rightarrow> world \<Rightarrow> world" where
  "upd_class c f w = w\<lparr>w_cls := (w_cls w)[c := f (w_cls w ! c)]\<rparr>"

definition shuffled :: "(bool list \<Rightarrow> 'g \<Rightarrow> bool list \<times> 'g) \<Rightarrow> bool list \<Rightarrow> ('g \<times> world, bool list) state" where
  "shuffled shuf xs = State (\<lambda>(g, w). let (ys, g') = shuf xs g in (ys, (g', w)))"

definition fk_names :: "string list" where
  "fk_names = [''fk0'', ''fk1'', ''fk2'', ''fk3'', ''fk4'', ''fk5'', ''fk6'', ''fk7'', ''fk8'']"

text \<open>The child and its parents: two plain, three hash partitions, two range partitions, an owned
  context, a class whose context loads unpartitioned, and the child itself.\<close>

definition gen_parents :: "('g \<times> world, nat list) state" where
  "gen_parents = do {
     upd_world (\<lambda>_. reset_world);
     child \<leftarrow> in_world add_class;
     upd_world (\<lambda>w. w\<lparr>w_child := child\<rparr>);
     pa \<leftarrow> in_world add_class;
     pb \<leftarrow> in_world add_class;
     ph \<leftarrow> in_world (add_partitioned 3 []);
     pr \<leftarrow> in_world (add_partitioned 2 [100, 200]);
     po \<leftarrow> in_world (add_partitioned 4 []);
     upd_world (upd_class po (\<lambda>k. k\<lparr>fc_from_cache := False\<rparr>));
     pu \<leftarrow> in_world (add_partitioned 2 []);
     upd_world (upd_class pu (\<lambda>k. k\<lparr>fc_load_unpartitioned := True\<rparr>));
     State_Monad.return [pa, pb, ph, pr, po, pu, child]
   }"

definition gen_other :: "('g \<Rightarrow> nat \<times> 'g) \<Rightarrow> ('g \<times> world, unit) state" where
  "gen_other rnd = do {
     t \<leftarrow> pick rnd 3;
     n \<leftarrow> pick rnd 2;
     pos \<leftarrow> in_world (add_index ([BTREE_PRIMARY_KEY, BTREE_UNIQUE, BTREE_INDEX] ! t) (1 + int n));
     State_Monad.return ()
   }"

definition gen_fk :: "('g \<Rightarrow> nat \<times> 'g) \<Rightarrow> nat list \<Rightarrow> nat \<Rightarrow> ('g \<times> world, unit) state" where
  "gen_fk rnd parents i = do {
     r \<leftarrow> pick rnd 7;
     a \<leftarrow> pick rnd 4;
     let ref = parents ! r;
     let n_atts = (if a = 0 then 2 else 1);
     pos \<leftarrow> in_world (add_fk ref (fk_names ! i) n_atts);
     x \<leftarrow> pick rnd 250;
     let v = 1 + int x;
     z \<leftarrow> pick rnd 7;
     if z = 0
     then if 1 < n_atts
          then upd_world (\<lambda>w. w\<lparr>w_key_id := (w_key_id w)[pos := v], w_multi_null := (w_multi_null w)[pos := True]\<rparr>)
          else upd_world (set_null pos)
     else do {
       (if 1 < n_atts then upd_world (\<lambda>w. w\<lparr>w_key_id := (w_key_id w)[pos := v]\<rparr>) else upd_world (set_key pos v));
       y \<leftarrow> pick rnd 10;
       (if y < 7 then upd_world (add_row ref v) else State_Monad.return ())
     }
   }"

definition gen_failure :: "('g \<Rightarrow> nat \<times> 'g) \<Rightarrow> nat list \<Rightarrow> nat \<Rightarrow> ('g \<times> world, unit) state" where
  "gen_failure rnd parents ntotal = do {
     f \<leftarrow> pick rnd 12;
     if f = 0 then do { p \<leftarrow> pick rnd 6; upd_world (upd_class (parents ! p) (\<lambda>k. k\<lparr>fc_get_fails := True\<rparr>)) }
     else if f = 1 then upd_world (upd_class (parents ! 2) (\<lambda>k. k\<lparr>fc_load_error := ER_OUT_OF_VIRTUAL_MEMORY\<rparr>))
     else if f = 2 then upd_world (upd_class (parents ! 3) (\<lambda>k. k\<lparr>fc_prune_error := ER_PARTITION_WORK_FAILED\<rparr>))
     else if f = 3 then upd_world (upd_class (parents ! 4) (\<lambda>k. k\<lparr>fc_attr_start_error := ER_PARTITION_WORK_FAILED\<rparr>))
     else if f = 4 then do { n \<leftarrow> pick rnd 3; upd_world (\<lambda>w. w\<lparr>w_search_error_at := 1 + n\<rparr>) }
     else if f = 5 then do { n \<leftarrow> pick rnd ntotal; upd_world (\<lambda>w. w\<lparr>w_get_key_fail_at := int n\<rparr>) }
     else if f = 6 then do {
       n \<leftarrow> pick rnd 3;
       (if n = 0 then upd_world (\<lambda>w. w\<lparr>w_read_error := ER_OUT_OF_VIRTUAL_MEMORY\<rparr>) else State_Monad.return ())
     }
     else State_Monad.return ()
   }"

fun gen_indexes :: "('g \<Rightarrow> nat \<times> 'g) \<Rightarrow> nat list \<Rightarrow> nat \<Rightarrow> bool list \<Rightarrow> ('g \<times> world, unit) state" where
  "gen_indexes rnd parents i [] = State_Monad.return ()"
| "gen_indexes rnd parents i (fk # fks) = do {
     (if \<not> fk then gen_other rnd else gen_fk rnd parents i);
     gen_indexes rnd parents (Suc i) fks
   }"

definition gen :: "('g \<Rightarrow> nat \<times> 'g) \<Rightarrow> (bool list \<Rightarrow> 'g \<Rightarrow> bool list \<times> 'g) \<Rightarrow> ('g \<times> world, unit) state" where
  "gen rnd shuf = do {
     parents \<leftarrow> gen_parents;
     a \<leftarrow> pick rnd 10;
     upd_world (\<lambda>w. w\<lparr>w_applier := (a < 3)\<rparr>);
     f \<leftarrow> pick rnd 5;
     let nfk = 1 + f;
     nother \<leftarrow> pick rnd 3;
     let ntotal = nfk + nother;
     is_fk \<leftarrow> shuffled shuf (replicate nfk True @ replicate nother False);
     gen_indexes rnd parents 0 is_fk;
     gen_failure rnd parents ntotal
   }"

text \<open>The scripts of \<open>n\<close> iterations; the run under test draws no random number.\<close>

fun gen_worlds :: "('g \<Rightarrow> nat \<times> 'g) \<Rightarrow> (bool list \<Rightarrow> 'g \<Rightarrow> bool list \<times> 'g) \<Rightarrow> nat \<Rightarrow> 'g \<Rightarrow> world list" where
  "gen_worlds rnd shuf 0 g = []"
| "gen_worlds rnd shuf (Suc n) g =
     (let (_, (g', w)) = run_state (gen rnd shuf) (g, reset_world) in w # gen_worlds rnd shuf n g')"

section \<open>The loops\<close>

text \<open>R1: the return code (unless it was overwritten), the searches and the messages are the expected ones.\<close>

definition r1_search_ok :: "search_rec \<times> (int \<times> int) \<Rightarrow> bool" where
  "r1_search_ok = (\<lambda>(s, b, oi). btid_root (sr_btid s) = b \<and> oid_pageid (sr_class_oid s) = oi \<and>
     sr_op s = S_SELECT_WITH_LOCK \<and> sr_all_class s \<and> sr_key_is_read_key s)"

definition r1_ok :: "expect \<Rightarrow> fk_er \<Rightarrow> world \<Rightarrow> bool" where
  "r1_ok e ret w \<longleftrightarrow> (\<not> ex_ret_overwritten e \<longrightarrow> ret = ex_ret e) \<and> length (w_searches w) = length (ex_searches e) \<and>
     list_all r1_search_ok (zip (w_searches w) (ex_searches e)) \<and>
     w_fk_msg_name w = ex_msg_name e \<and> w_fk_msg_value w = ex_msg_value e"

definition r1_iteration :: "(world \<Rightarrow> fk_er \<times> world) \<Rightarrow> world \<Rightarrow> nat \<Rightarrow> nat" where
  "r1_iteration run w mismatches =
     (let w1 = wire w; e = fk_oracle w1; (ret, w') = run w1
      in if r1_ok e ret w' then mismatches else Suc mismatches)"

definition r2_ok :: "world \<Rightarrow> bool" where
  "r2_ok w \<longleftrightarrow> pins_left w = 0 \<and> w_get_ok w = w_free_ok w \<and> w_free_errors w = 0 \<and> pctx_live w = 0 \<and>
     w_valstr_alloc w = w_valstr_free w \<and> w_get_key_dirty w = 0"

definition r2_iteration :: "(world \<Rightarrow> fk_er \<times> world) \<Rightarrow> world \<Rightarrow> nat \<Rightarrow> nat" where
  "r2_iteration run w leaks = (if r2_ok (snd (run (wire w))) then leaks else Suc leaks)"

definition r3_ok :: "world \<Rightarrow> bool" where
  "r3_ok w \<longleftrightarrow> w_keybuf_live w = {} \<and> w_keybuf_free w = w_keybuf_alloc w \<and> w_keybuf_bad_free w = 0 \<and>
     w_keybuf_max_live w \<le> 1 \<and> w_get_key_dirty w = 0"

definition r3_iteration :: "(world \<Rightarrow> fk_er \<times> world) \<Rightarrow> world \<Rightarrow> nat \<Rightarrow> nat" where
  "r3_iteration run w leaks = (if r3_ok (snd (run (wire (w\<lparr>w_long_record := True\<rparr>)))) then leaks else Suc leaks)"

section \<open>What the oracle says\<close>

text \<open>The key of a position is not NULL and the parent's primary key holds it.\<close>

definition key_held :: "world \<Rightarrow> nat \<Rightarrow> bool" where
  "key_held w pos \<longleftrightarrow>
     (let (b, oi) = pk_holding w (the (find_class w (fk_ref_class_oid (w_fks w ! pos)))) (w_key_id w ! pos)
      in b \<noteq> NullBtid \<and> (btid_root b, w_key_id w ! pos) \<in> set (w_rows w))"

definition fk_holds :: "world \<Rightarrow> nat \<Rightarrow> bool" where
  "fk_holds w pos \<longleftrightarrow> ix_type (w_indexes w ! pos) \<noteq> BTREE_FOREIGN_KEY \<or> oracle_null w pos \<or> key_held w pos"

text \<open>What one index adds: nothing, one search, or a missing key.\<close>

definition missing_msgs :: "world \<Rightarrow> nat \<Rightarrow> expect \<Rightarrow> expect \<Rightarrow> bool" where
  "missing_msgs w pos e e' \<longleftrightarrow> ex_msg_name e' = ex_msg_name e @ [the (fk_name (w_fks w ! pos))] \<and>
     ex_msg_value e' = ex_msg_value e @ [print_key w pos]"

definition same_msgs :: "expect \<Rightarrow> expect \<Rightarrow> bool" where
  "same_msgs e e' \<longleftrightarrow> ex_msg_name e' = ex_msg_name e \<and> ex_msg_value e' = ex_msg_value e"

lemma oracle_search_cases:
  assumes "oracle_search w pos b oi st = r" "h \<longleftrightarrow> b \<noteq> NullBtid \<and> (btid_root b, w_key_id w ! pos) \<in> set (w_rows w)"
  shows "(\<exists>e. r = Inl e \<and> ex_ret e = SEARCH_ERROR \<and> same_msgs (ov_e st) e)
    \<or> (\<exists>st'. r = Inr st' \<and> h \<and> ov_seen st' = ov_seen st \<and> same_msgs (ov_e st) (ov_e st'))
    \<or> (\<exists>st'. r = Inr st' \<and> \<not> h \<and> w_applier w \<and> ov_seen st')
    \<or> (\<exists>e. r = Inl e \<and> \<not> h \<and> \<not> w_applier w \<and> ex_ret e = ER_FK_INVALID \<and> missing_msgs w pos (ov_e st) e)"
  using assms by (auto simp: oracle_search_def oracle_missing_def Let_def same_msgs_def missing_msgs_def split: if_splits)

text \<open>The outcomes of one index.\<close>

lemma oracle_index_cases:
  obtains (error) e where "oracle_index w pos st = Inl e" "ex_ret e \<noteq> NO_ERROR" "same_msgs (ov_e st) e"
  | (fine) st' where "oracle_index w pos st = Inr st'" "fk_holds w pos" "ov_seen st' = ov_seen st" "same_msgs (ov_e st) (ov_e st')"
  | (passed) st' where "oracle_index w pos st = Inr st'" "w_applier w" "ov_seen st'"
  | (invalid) e where "oracle_index w pos st = Inl e" "\<not> fk_holds w pos" "\<not> w_applier w" "ex_ret e = ER_FK_INVALID"
      "missing_msgs w pos (ov_e st) e"
proof (cases "ix_type (w_indexes w ! pos) \<noteq> BTREE_FOREIGN_KEY \<or> int pos = w_get_key_fail_at w \<or> oracle_null w pos")
  case True
  then consider "ix_type (w_indexes w ! pos) \<noteq> BTREE_FOREIGN_KEY" | "ix_type (w_indexes w ! pos) = BTREE_FOREIGN_KEY" "int pos = w_get_key_fail_at w"
    | "ix_type (w_indexes w ! pos) = BTREE_FOREIGN_KEY" "int pos \<noteq> w_get_key_fail_at w" "oracle_null w pos" by blast
  then have "oracle_index w pos st = Inr st \<and> fk_holds w pos \<or> oracle_index w pos st = Inl ((ov_e st)\<lparr>ex_ret := ER_FAILED\<rparr>)"
    by cases (simp_all add: oracle_index_def fk_holds_def)
  then show ?thesis using error [of "(ov_e st)\<lparr>ex_ret := ER_FAILED\<rparr>"] fine [of st] by (auto simp: same_msgs_def)
next
  case False
  let ?c = "the (find_class w (fk_ref_class_oid (w_fks w ! pos)))"
  let ?k = "w_cls w ! ?c"
  obtain b oi where b: "pk_holding w ?c (w_key_id w ! pos) = (b, oi)" by (cases "pk_holding w ?c (w_key_id w ! pos)")
  have held: "fk_holds w pos \<longleftrightarrow> b \<noteq> NullBtid \<and> (btid_root b, w_key_id w ! pos) \<in> set (w_rows w)"
    using False b by (simp add: fk_holds_def key_held_def)
  have plain: "\<not> fc_has_partition_info ?k \<or> fc_load_unpartitioned ?k \<Longrightarrow> fc_pk ?k = b \<and> fc_oid ?k = oi"
    using b by (auto simp: pk_holding_def Let_def)
  let ?st0 = "st\<lparr>ov_err := NO_ERROR\<rparr>" and ?ret = "\<lambda>er. Inl ((ov_e st)\<lparr>ex_ret := er\<rparr>)"
  have f: "ix_type (w_indexes w ! pos) = BTREE_FOREIGN_KEY" "int pos \<noteq> w_get_key_fail_at w" "\<not> oracle_null w pos"
    using False by simp_all
  have "oracle_index w pos st =
      (if fc_get_fails ?k then ?ret ER_FAILED
       else if fc_has_partition_info ?k
       then if fc_load_error ?k \<noteq> NO_ERROR then ?ret (fc_load_error ?k)
            else if \<not> fc_load_unpartitioned ?k
            then if fc_attr_start_error ?k \<noteq> NO_ERROR then ?ret (fc_attr_start_error ?k)
                 else if fc_prune_error ?k \<noteq> NO_ERROR then ?ret (fc_prune_error ?k)
                 else oracle_search w pos b oi ?st0
            else oracle_search w pos b oi ?st0
       else oracle_search w pos b oi st)" (is "_ = ?r")
    using plain by (simp add: oracle_index_def Let_def f b)
  consider (fails) er where "er \<noteq> NO_ERROR" "oracle_index w pos st = ?ret er"
    | (search) s1 where "oracle_index w pos st = oracle_search w pos b oi s1" "ov_seen s1 = ov_seen st" "ov_e s1 = ov_e st"
  proof -
    have "ov_seen ?st0 = ov_seen st" "ov_e ?st0 = ov_e st" "ER_FAILED \<noteq> NO_ERROR" by simp_all
    with \<open>oracle_index w pos st = ?r\<close> show thesis using that(1) that(2) by (auto split: if_splits)
  qed
  then show ?thesis
  proof cases
    case fails
    then show ?thesis using error [of "(ov_e st)\<lparr>ex_ret := er\<rparr>"] by (simp add: same_msgs_def)
  next
    case search
    show ?thesis
      using oracle_search_cases [OF search(1) [symmetric] held] that unfolding search(2,3)
      by (auto simp: SEARCH_ERROR_def)
  qed
qed

lemma oracle_loop_integrity:
  "ex_ret (oracle_loop w ps st) = NO_ERROR \<Longrightarrow> \<not> ex_ret_overwritten (oracle_loop w ps st) \<Longrightarrow>
     \<not> ov_seen st \<and> (\<forall>pos \<in> set ps. fk_holds w pos)"
proof (induction ps arbitrary: st)
  case (Cons pos ps)
  show ?case
    using Cons by (cases rule: oracle_index_cases [of w pos st]) auto
qed auto

lemma oracle_loop_message:
  "\<not> w_applier w \<Longrightarrow> ex_msg_name (ov_e st) = [] \<Longrightarrow> ex_msg_value (ov_e st) = [] \<Longrightarrow>
     ex_msg_name (oracle_loop w ps st) = [] \<and> ex_msg_value (oracle_loop w ps st) = [] \<or>
     (\<exists>pos \<in> set ps. \<not> fk_holds w pos \<and> ex_ret (oracle_loop w ps st) = ER_FK_INVALID \<and>
        ex_msg_name (oracle_loop w ps st) = [the (fk_name (w_fks w ! pos))] \<and>
        ex_msg_value (oracle_loop w ps st) = [print_key w pos])"
proof (induction ps arbitrary: st)
  case (Cons pos ps)
  show ?case
    using Cons by (cases rule: oracle_index_cases [of w pos st]) (auto simp: same_msgs_def missing_msgs_def)
qed simp

text \<open>
  C7. When the oracle expects success (and no log applier's error was overwritten), referential
  integrity holds: every foreign key of the child whose key is not NULL has its key in the primary key
  of the partition, or of the class, that must hold it.
\<close>

theorem oracle_integrity:
  assumes "ex_ret (fk_oracle w) = NO_ERROR" "\<not> ex_ret_overwritten (fk_oracle w)"
    and "pos < length (w_indexes w)" "ix_type (w_indexes w ! pos) = BTREE_FOREIGN_KEY" "\<not> oracle_null w pos"
  shows "key_held w pos"
proof -
  have "fk_holds w pos"
    using assms(1-3) oracle_loop_integrity [of w "[0..<length (w_indexes w)]"]
    by (auto simp: fk_oracle_def Let_def split: if_splits)
  then show ?thesis using assms(4,5) by (simp add: fk_holds_def)
qed

text \<open>Two plain classes; the child's foreign key 5 is a row of the parent.\<close>

definition fk_example_index :: or_index where
  "fk_example_index = \<lparr>ix_type = BTREE_FOREIGN_KEY, ix_n_atts = 1, ix_btid = mk_btid 700, ix_fk = Some 0\<rparr>"

definition fk_example :: "int \<Rightarrow> world" where
  "fk_example v = reset_world
     \<lparr>w_cls := [(new_class 0)\<lparr>fc_indexes := [fk_example_index]\<rparr>, new_class 1], w_indexes := [fk_example_index],
      w_fks := [\<lparr>fk_name = Some ''fk0'', fk_ref_class_oid = mk_oid 101, fk_ref_class_pk_btid = mk_btid 501,
                 fk_self_btid = mk_btid 700\<rparr>],
      w_attr_val := [DbInt v], w_key_id := [v], w_multi_null := [False], w_rows := [(501, 5)]\<rparr>"

text \<open>It is what the suite's own building functions make.\<close>

lemma fk_example_built:
  "wire (add_row 1 5 (set_key 0 v (snd (add_fk 1 ''fk0'' 1 (snd (add_class (snd (add_class reset_world)))))))) = fk_example v"
  by (simp add: fk_example_def fk_example_index_def new_class_def add_class_def add_fk_def add_index_def set_key_def
    add_row_def pk_holding_def wire_def reset_world_def mk_oid_def mk_btid_def Let_def enumerate_eq_zip)

lemma fk_example_fields [simp]:
  "w_cls (fk_example v) = [(new_class 0)\<lparr>fc_indexes := [fk_example_index]\<rparr>, new_class 1]"
  "w_indexes (fk_example v) = [fk_example_index]" "w_attr_val (fk_example v) = [DbInt v]"
  "w_fks (fk_example v) = [\<lparr>fk_name = Some ''fk0'', fk_ref_class_oid = mk_oid 101, fk_ref_class_pk_btid = mk_btid 501, fk_self_btid = mk_btid 700\<rparr>]"
  "w_key_id (fk_example v) = [v]" "w_rows (fk_example v) = [(501, 5)]" "w_applier (fk_example v) = False"
  "w_read_error (fk_example v) = NO_ERROR" "w_get_key_fail_at (fk_example v) = - 1" "w_search_error_at (fk_example v) = 0"
  "w_get_ok (fk_example v) = 0" "w_free_ok (fk_example v) = 0" "w_free_errors (fk_example v) = 0" "w_keybuf_bad_free (fk_example v) = 0"
  by (simp_all add: fk_example_def reset_world_def)

lemmas fk_example_defs = fk_example_index_def new_class_def mk_oid_def mk_btid_def fk_oracle_def oracle_index_def oracle_null_def
  oracle_search_def oracle_missing_def print_key_def find_class_def pk_holding_def Let_def

theorem oracle_integrity_witness: "key_held (fk_example 5) 0"
proof -
  have "ex_ret (fk_oracle (fk_example 5)) = NO_ERROR" "\<not> ex_ret_overwritten (fk_oracle (fk_example 5))"
    "0 < length (w_indexes (fk_example 5))" "ix_type (w_indexes (fk_example 5) ! 0) = BTREE_FOREIGN_KEY"
    "\<not> oracle_null (fk_example 5) 0"
    by (simp_all add: fk_example_defs)
  then show ?thesis by (rule oracle_integrity)
qed

text \<open>
  For any client but the log applier the oracle expects at most one \<open>ER_FK_INVALID\<close> message;
  it names a foreign key whose key the parent does not hold, prints that key, and is the error returned.
\<close>

theorem oracle_one_message:
  assumes "\<not> w_applier w"
  shows "ex_msg_name (fk_oracle w) = [] \<and> ex_msg_value (fk_oracle w) = [] \<or>
     (\<exists>pos < length (w_indexes w). ix_type (w_indexes w ! pos) = BTREE_FOREIGN_KEY \<and> \<not> oracle_null w pos \<and> \<not> key_held w pos \<and>
        ex_ret (fk_oracle w) = ER_FK_INVALID \<and> ex_msg_name (fk_oracle w) = [the (fk_name (w_fks w ! pos))] \<and>
        ex_msg_value (fk_oracle w) = [print_key w pos])"
  using oracle_loop_message [OF assms, of "\<lparr>ov_e = \<lparr>ex_ret = NO_ERROR, ex_ret_overwritten = False, ex_searches = [],
      ex_msg_name = [], ex_msg_value = []\<rparr>, ov_err = NO_ERROR, ov_seen = False, ov_nsearch = 0\<rparr>" "[0..<length (w_indexes w)]"]
  by (auto simp: fk_oracle_def Let_def fk_holds_def)

theorem oracle_one_message_witness:
  "ex_msg_name (fk_oracle (fk_example 6)) = [''fk0''] \<and> ex_ret (fk_oracle (fk_example 6)) = ER_FK_INVALID"
proof -
  have "\<not> w_applier (fk_example 6)" "ex_msg_name (fk_oracle (fk_example 6)) = [''fk0'']"
    by (simp_all add: fk_example_defs)
  then show ?thesis using oracle_one_message [of "fk_example 6"] by auto
qed

text \<open>
  The pruning fake and the oracle put a key in the same place: for a loaded context of a partitioned
  class and the key just read, the fake answers the class and the primary key the oracle searches, and
  NULL identifiers exactly when no partition takes the key.
\<close>

theorem prune_fake_agrees:
  assumes "find_class w (pc_root_oid pc) = Some c" "pc_partitions pc = Some (fc_parts (w_cls w ! c))"
    and "fc_has_partition_info (w_cls w ! c)" "\<not> fc_load_unpartitioned (w_cls w ! c)"
    and "partition_prune_unique_btid pc key tgt w = (NO_ERROR, (oi, hf, b), pc', w')"
    and "w_cur_key w = Some key" "0 \<le> w_cur_index w" "w_key_id w ! nat (w_cur_index w) = v"
  shows "pk_holding w c v = (b, oi)"
proof -
  have k: "key_identity (fix_class c x) key = v" "key_identity x key = v"
    if "w_cur_key x = w_cur_key w" "w_cur_index x = w_cur_index w" "w_key_id x = w_key_id w" for x :: world
    using that assms(6-8) by (auto simp: key_identity_def fix_class_def)
  have "c < length (w_cls w)" using find_class_Some [OF assms(1)] .
  then show ?thesis
    using assms(1-5) k unfolding partition_prune_unique_btid_def Let_def
    by (auto simp: find_class_def pk_holding_def key_identity_def fix_class_def Let_def split: if_splits)
qed

text \<open>A range-partitioned parent whose context has been loaded, and the key 150 just read.\<close>

definition prune_example :: "world \<times> pruning_context" where
  "prune_example =
     (let (c, w1) = add_partitioned 2 [100, 200] reset_world;
          (pos, w2) = add_fk c ''fk0'' 1 w1;
          w3 = (set_key pos 150 w2)\<lparr>w_cur_index := 0, w_cur_key := Some (AttrKey 0)\<rparr>;
          pc0 = \<lparr>pc_root_oid = NullOid, pc_partitions = None, pc_count = 0, pc_partition_pred = False,
                 pc_fp_cache_context = False, pc_error_code = NO_ERROR, pc_is_attr_info_inited = False,
                 pc_is_from_cache = False, pc_partition_type = None, pc_root_repr_id = 0\<rparr>;
          (e, pc, w4) = partition_load_pruning_context (mk_oid 100) pc0 w3
      in (w4, pc))"

lemmas prune_example_defs = prune_example_def add_partitioned_def add_class_def new_class_def partitioned_parts_def add_fk_def
  add_index_def set_key_def reset_world_def mk_oid_def mk_btid_def partition_load_pruning_context_def
  partition_init_pruning_context_def find_class_def Let_def

lemma prune_example_run:
  "partition_prune_unique_btid (snd prune_example) (AttrKey 0) (NullOid, NullHfid, NullBtid) (fst prune_example)
     = (NO_ERROR, (mk_oid 1002, Hfid 3002 0 3002, mk_btid 5002),
        fst (snd (snd (partition_prune_unique_btid (snd prune_example) (AttrKey 0) (NullOid, NullHfid, NullBtid) (fst prune_example)))),
        snd (snd (snd (partition_prune_unique_btid (snd prune_example) (AttrKey 0) (NullOid, NullHfid, NullBtid) (fst prune_example)))))"
  by (simp add: prune_example_defs partition_prune_unique_btid_def fix_class_def key_identity_def partition_of_def upt_rec numeral_2_eq_2 eval_nat_numeral)

theorem prune_fake_agrees_witness: "pk_holding (fst prune_example) 0 150 = (mk_btid 5002, mk_oid 1002)"
  by (rule prune_fake_agrees [OF _ _ _ _ prune_example_run])
    (simp_all add: prune_example_defs upt_rec eval_nat_numeral)

section \<open>What the closing checks establish\<close>


text \<open>The parent of the example, got once and freed.\<close>

definition start_state :: fk_state where
  "start_state = \<lparr>fs_w = fk_example 5, fs_keys = [DbNull], fs_ctx = [], fs_attr = []\<rparr>"


lemma start_state_untouched: "untouched (fs_w start_state)"
  by (simp add: start_state_def untouched_def fk_example_def reset_world_def new_class_def pins_left_def)

lemma start_state_reach: "fk_reach 512 start_state"
  using start_state_untouched by (rule fk_reach.start) (simp add: idle_caller_def start_state_def)



text \<open>
  R2 may add the three counters of a pruning context up: whatever was called, a run that R2 accepts has
  given back every context, every attribute cache and every value string - no counter hides another one.
\<close>

theorem r2_accepts_only_clean_runs:
  assumes "fk_reach bufsize s" "r2_ok (fs_w s)"
  shows "list_all ctx_idle (fs_ctx s) \<and> list_all (\<lambda>ai. \<not> holds_rows ai) (fs_attr s) \<and> w_valstr_live (fs_w s) = {}"
proof -
  let ?w = "fs_w s"
  have inv: "fk_inv s" by (rule fk_reach_inv [OF assms(1)])
  have vs: "w_valstr_alloc ?w = w_valstr_free ?w \<longleftrightarrow> w_valstr_live ?w = {}"
    using inv by (intro valstr.balanced_none) (simp add: fk_inv_def pools_ok_def)
  have ctx: "w_parts_live ?w = held holds_parts (fs_ctx s)" "w_pred_live ?w = held holds_pred (fs_ctx s)"
    "w_attr_live ?w = held inited (fs_ctx s)"
    using inv by (auto simp: fk_inv_def ctx_law_def contexts_def)
  have ok: "pins_left ?w = 0" "w_get_ok ?w = w_free_ok ?w" "w_free_errors ?w = 0" "pctx_live ?w = 0"
    "w_valstr_alloc ?w = w_valstr_free ?w" using assms(2) by (simp_all add: r2_ok_def)
  have "held holds_parts (fs_ctx s) = 0" "held holds_pred (fs_ctx s) = 0" "held inited (fs_ctx s) = 0"
    using ok(4) ctx held_nonneg [of holds_parts "fs_ctx s"] held_nonneg [of holds_pred "fs_ctx s"] held_nonneg [of inited "fs_ctx s"]
    by (simp_all add: pctx_live_def)
  moreover from this have "held holds_rows (fs_attr s) = 0"
    using inv ok(1-3) by (simp add: fk_inv_def fixes_law_def)
  ultimately show ?thesis using ok(5) vs unfolding held_zero by (auto simp: list_all_iff ctx_idle_def)
qed

theorem r2_accepts_only_clean_runs_witness: "w_valstr_live (fs_w start_state) = {}"
proof -
  have "w_get_key_dirty (fs_w start_state) = 0" by (simp add: start_state_def fk_example_def reset_world_def)
  then have "r2_ok (fs_w start_state)" using start_state_untouched by (simp add: untouched_def r2_ok_def pctx_live_def)
  then show ?thesis using r2_accepts_only_clean_runs [OF start_state_reach] by blast
qed

end
