(* ===== verification/Ring.thy ===== *)
theory Ring
  imports Prelude
begin

unbundle bit_operations_syntax

text \<open>
  Open addressing by linear probing, as the hand-built tables of \<open>src/unit/query\<close> do it: a table of
  \<open>2 ^ k\<close> slots, \<open>mask = 2 ^ k - 1\<close>, and a search that starts at a masked home slot and
  goes on with \<open>h = (h + 1) & mask\<close> until its stop condition holds. The search visits each slot once
  in its first \<open>2 ^ k\<close> steps, so a search that has not stopped by then never does:
  \<open>probe\<close> takes that many steps of fuel and its \<open>None\<close> is a loop that never ends.
\<close>

fun probe :: "('a::len word \<Rightarrow> bool) \<Rightarrow> 'a word \<Rightarrow> nat \<Rightarrow> 'a word \<Rightarrow> 'a word option" where
  "probe stop m 0 h = None"
| "probe stop m (Suc fuel) h = (if stop h then Some h else probe stop m fuel ((h + 1) AND m))"

text \<open>The slot the search is at after \<open>t\<close> steps.\<close>

definition ring_pos :: "nat \<Rightarrow> 'a::len word \<Rightarrow> nat \<Rightarrow> 'a word" where
  "ring_pos k h t = (h + of_nat t) AND mask k"

definition in_ring :: "nat \<Rightarrow> 'a::len word \<Rightarrow> bool" where
  "in_ring k h \<longleftrightarrow> h AND mask k = h"

lemma in_ring_masked [simp]: "in_ring k (h AND mask k)"
  by (simp add: in_ring_def and.assoc)

lemma unat_and_mask: "unat (w AND mask k :: 'a::len word) = unat w mod 2 ^ k"
  by (simp only: take_bit_eq_mask [symmetric] unsigned_take_bit_eq) (simp add: take_bit_eq_mod)

lemma in_ring_unat: "k \<le> LENGTH('a) \<Longrightarrow> in_ring k (h :: 'a::len word) \<longleftrightarrow> unat h < 2 ^ k"
proof -
  have "in_ring k h \<longleftrightarrow> unat (h AND mask k) = unat h" by (simp add: in_ring_def unsigned_word_eqI word_unat_eq_iff)
  also have "\<dots> \<longleftrightarrow> unat h < 2 ^ k" unfolding unat_and_mask by (metis mod_less mod_less_divisor zero_less_numeral zero_less_power)
  finally show ?thesis .
qed

lemma mod_pow_pow: "k \<le> n \<Longrightarrow> (a mod 2 ^ n) mod 2 ^ k = a mod (2::nat) ^ k"
  by (simp add: mod_mod_cancel le_imp_power_dvd)

lemma unat_ring_pos:
  assumes "k \<le> LENGTH('a)"
  shows "unat (ring_pos k (h :: 'a::len word) t) = (unat h + t) mod 2 ^ k"
proof -
  have "unat (h + of_nat t) mod 2 ^ k = ((unat h + t mod 2 ^ LENGTH('a)) mod 2 ^ LENGTH('a)) mod 2 ^ k"
    by (simp add: unat_word_ariths unat_of_nat)
  also have "\<dots> = (unat h + t) mod 2 ^ k" by (simp add: mod_add_right_eq mod_pow_pow [OF assms])
  finally show ?thesis by (simp add: ring_pos_def unat_and_mask)
qed

lemma ring_pos_0: "in_ring k h \<Longrightarrow> ring_pos k h 0 = h"
  by (simp add: ring_pos_def in_ring_def)

lemma ring_pos_in: "in_ring k (ring_pos k h t)"
  by (simp add: ring_pos_def)

lemma ring_pos_Suc:
  assumes "k \<le> LENGTH('a)"
  shows "ring_pos k ((h + 1) AND mask k) t = ring_pos k (h :: 'a::len word) (Suc t)"
proof -
  have "unat (ring_pos k ((h + 1) AND mask k) t) = unat (ring_pos k h (Suc t))"
  proof -
    have 1: "unat ((h + 1) AND mask k) = (unat h + 1) mod 2 ^ k"
      using unat_ring_pos [OF assms, of h 1] by (simp add: ring_pos_def)
    show ?thesis unfolding unat_ring_pos [OF assms] 1 by (simp add: mod_add_left_eq)
  qed
  then show ?thesis by (simp add: word_unat_eq_iff)
qed

text \<open>A full turn visits every slot, and no slot twice.\<close>

lemma ring_cover:
  assumes "k \<le> LENGTH('a)" "in_ring k (h :: 'a::len word)" "in_ring k i"
  shows "\<exists>t < 2 ^ k. ring_pos k h t = i"
proof -
  have b: "unat h < 2 ^ k" "unat i < 2 ^ k" using assms in_ring_unat by blast+
  obtain t where t: "t = (unat i + 2 ^ k - unat h) mod 2 ^ k" by blast
  have "(unat h + t) mod 2 ^ k = (unat h + (unat i + 2 ^ k - unat h)) mod 2 ^ k" unfolding t by (simp add: mod_add_right_eq)
  also have "\<dots> = unat i" using b by simp
  finally have "unat (ring_pos k h t) = unat i" using unat_ring_pos [OF assms(1)] by simp
  then have "ring_pos k h t = i" by (simp add: word_unat_eq_iff)
  moreover have "t < 2 ^ k" unfolding t by simp
  ultimately show ?thesis by blast
qed

lemma mod_add_inj:
  assumes "(h + s) mod m = (h + t) mod m" "s < m" "t < (m :: nat)"
  shows "s = t"
proof -
  have le: "x = y" if "(h + x) mod m = (h + y) mod m" "x < m" "y \<le> x" for x y
  proof -
    have "m dvd (h + x) - (h + y)" using that(1,3) mod_eq_dvd_iff_nat [of "h + y" "h + x" m] by simp
    then have "m dvd x - y" by simp
    moreover have "x - y < m" using that(2) by simp
    ultimately show ?thesis using that(3) by (metis diff_is_0_eq dvd_imp_le le_antisym neq0_conv not_le)
  qed
  show ?thesis using le [of s t] le [of t s] assms by (cases "t \<le> s") auto
qed

lemma ring_pos_inj:
  assumes "k \<le> LENGTH('a)" "ring_pos k (h :: 'a::len word) s = ring_pos k h t" "s < 2 ^ k" "t < 2 ^ k"
  shows "s = t"
proof (rule mod_add_inj [OF _ assms(3,4)])
  show "(unat h + s) mod 2 ^ k = (unat h + t) mod 2 ^ k" using assms(2) unat_ring_pos [OF assms(1)] by metis
qed

text \<open>The search stops at the first slot of the turn that satisfies its condition.\<close>

lemma probe_Some_iff:
  assumes "k \<le> LENGTH('a)"
  shows "in_ring k (h :: 'a::len word) \<Longrightarrow>
    probe stop (mask k) f h = Some j \<longleftrightarrow>
      (\<exists>t < f. j = ring_pos k h t \<and> stop j \<and> (\<forall>s < t. \<not> stop (ring_pos k h s)))"
proof (induction f arbitrary: h)
  case (Suc f)
  let ?h = "(h + 1) AND mask k"
  have IH: "probe stop (mask k) f ?h = Some j \<longleftrightarrow>
      (\<exists>t < f. j = ring_pos k h (Suc t) \<and> stop j \<and> (\<forall>s < t. \<not> stop (ring_pos k h (Suc s))))"
    using Suc.IH [of ?h] by (simp add: ring_pos_Suc [OF assms])
  show ?case
  proof (cases "stop h")
    case True
    have "(\<exists>t < Suc f. j = ring_pos k h t \<and> stop j \<and> (\<forall>s < t. \<not> stop (ring_pos k h s))) \<longleftrightarrow> j = h"
    proof
      assume "\<exists>t < Suc f. j = ring_pos k h t \<and> stop j \<and> (\<forall>s < t. \<not> stop (ring_pos k h s))"
      then obtain t where t: "j = ring_pos k h t" "\<forall>s < t. \<not> stop (ring_pos k h s)" by blast
      have "t = 0" using t(2) True ring_pos_0 [OF Suc.prems] by (metis gr0I)
      then show "j = h" using t(1) ring_pos_0 [OF Suc.prems] by simp
    next
      assume "j = h"
      then show "\<exists>t < Suc f. j = ring_pos k h t \<and> stop j \<and> (\<forall>s < t. \<not> stop (ring_pos k h s))"
        using True ring_pos_0 [OF Suc.prems] by (intro exI [of _ 0]) simp
    qed
    then show ?thesis using True by auto
  next
    case False
    have "(\<exists>t < Suc f. j = ring_pos k h t \<and> stop j \<and> (\<forall>s < t. \<not> stop (ring_pos k h s))) \<longleftrightarrow>
      (\<exists>t < f. j = ring_pos k h (Suc t) \<and> stop j \<and> (\<forall>s < t. \<not> stop (ring_pos k h (Suc s))))" (is "?L \<longleftrightarrow> ?R")
    proof
      assume ?L
      then obtain t where t: "t < Suc f" "j = ring_pos k h t" "stop j" "\<forall>s < t. \<not> stop (ring_pos k h s)" by blast
      have "t \<noteq> 0" using t(2,3) False ring_pos_0 [OF Suc.prems] by metis
      then obtain u where "t = Suc u" by (cases t) auto
      then show ?R using t by auto
    next
      assume ?R
      then obtain t where t: "t < f" "j = ring_pos k h (Suc t)" "stop j" "\<forall>s < t. \<not> stop (ring_pos k h (Suc s))" by blast
      have "\<forall>s < Suc t. \<not> stop (ring_pos k h s)"
        using t(4) False ring_pos_0 [OF Suc.prems] by (metis less_Suc_eq_0_disj)
      then show ?L using t by (intro exI [of _ "Suc t"]) simp
    qed
    then show ?thesis using False IH by simp
  qed
qed simp

lemma probe_SomeD:
  assumes "k \<le> LENGTH('a)" "in_ring k (h :: 'a::len word)" "probe stop (mask k) f h = Some j"
  obtains t where "t < f" "j = ring_pos k h t" "stop j" "\<And>s. s < t \<Longrightarrow> \<not> stop (ring_pos k h s)"
  using probe_Some_iff [OF assms(1,2), of stop f j] assms(3) by blast

lemma probe_SomeI:
  assumes "k \<le> LENGTH('a)" "in_ring k (h :: 'a::len word)" "t < f" "j = ring_pos k h t" "stop j"
    "\<And>s. s < t \<Longrightarrow> \<not> stop (ring_pos k h s)"
  shows "probe stop (mask k) f h = Some j"
proof -
  have "\<exists>t < f. j = ring_pos k h t \<and> stop j \<and> (\<forall>s < t. \<not> stop (ring_pos k h s))"
    using assms(3-6) by blast
  then show ?thesis using probe_Some_iff [OF assms(1,2)] by blast
qed

lemma probe_stops:
  assumes k: "k \<le> LENGTH('a)" and h: "in_ring k (h :: 'a::len word)" and i: "in_ring k i" "stop i"
  shows "\<exists>j. probe stop (mask k) (2 ^ k) h = Some j"
proof -
  obtain t where t: "t < 2 ^ k" "ring_pos k h t = i" using ring_cover [OF k h i(1)] by blast
  let ?P = "\<lambda>t. stop (ring_pos k h t)"
  let ?u = "LEAST t. ?P t"
  have p: "?P t" using t(2) i(2) by simp
  have "?P ?u" by (rule LeastI [of ?P, OF p])
  moreover have "?u < 2 ^ k" using Least_le [of ?P, OF p] t(1) by (rule le_less_trans)
  moreover have "\<not> ?P s" if "s < ?u" for s by (rule not_less_Least [OF that])
  ultimately show ?thesis using probe_SomeI [OF k h _ refl] by blast
qed

text \<open>No stop in one turn: the loop of the source never ends, whatever the number of steps.\<close>

lemma probe_turn_enough:
  assumes k: "k \<le> LENGTH('a)" and h: "in_ring k (h :: 'a::len word)" and n: "probe stop (mask k) (2 ^ k) h = None"
  shows "probe stop (mask k) fuel h = None"
proof (cases "probe stop (mask k) fuel h")
  case (Some j)
  then obtain t where "j = ring_pos k h t" "stop j" using probe_SomeD [OF k h Some] by metis
  then have "\<exists>i. probe stop (mask k) (2 ^ k) h = Some i" using probe_stops [OF k h, of j stop] ring_pos_in by metis
  then show ?thesis using n by simp
qed

lemma probe_result:
  assumes "k \<le> LENGTH('a)" "in_ring k (h :: 'a::len word)" "probe stop (mask k) f h = Some j"
  shows "stop j" "in_ring k j"
  using probe_SomeD [OF assms] ring_pos_in by metis+

text \<open>A change of the condition that leaves the visited slots alone does not change the answer.\<close>

lemma probe_cong:
  assumes k: "k \<le> LENGTH('a)" and h: "in_ring k (h :: 'a::len word)" and r: "probe stop (mask k) f h = Some j"
    and s: "stop' j" "\<And>i. in_ring k i \<Longrightarrow> \<not> stop i \<Longrightarrow> \<not> stop' i"
  shows "probe stop' (mask k) f h = Some j"
proof -
  obtain t where t: "t < f" "j = ring_pos k h t" "\<And>s. s < t \<Longrightarrow> \<not> stop (ring_pos k h s)"
    using probe_SomeD [OF k h r] by metis
  show ?thesis by (rule probe_SomeI [OF k h t(1,2), of stop', OF s(1)]) (rule s(2) [OF ring_pos_in t(3)])
qed

end
