(* ===== verification/RtfClone.thy ===== *)
theory RtfClone
  imports Ring
begin

text \<open>
  The hand-built runtime filter of \<open>src/unit/query/query_hash_join.rtf_clone/hooks.cpp\<close>: an
  open-addressing set of 64-bit keys, filled as the hash join's build fills one, and its attachment to
  the join node and to the probe node. \<open>hash\<close> is the engine's \<open>hjoin_rtf_hash\<close>, a parameter
  that nothing is assumed of. Allocations are taken to succeed, as the source takes them.
\<close>

section \<open>The filter\<close>

text \<open>
  \<open>slots\<close> comes from \<open>malloc\<close>: a slot not written yet is indeterminate, \<open>None\<close> here.
\<close>

record rtf =
  rtf_slots :: "u64 option list"
  rtf_used :: "u8 list"
  rtf_mask :: u64
  rtf_is_date :: bool
  rtf_val_index :: int
  rtf_n_keys :: int

text \<open>
  \<open>for (cap = 16; cap < (UINT64) n * 2; cap <<= 1)\<close>. After 60 doublings \<open>cap\<close> has wrapped to
  0 and stays there, so 61 tests decide whether the loop ends.
\<close>

fun rtf_cap :: "nat \<Rightarrow> u64 \<Rightarrow> u64 \<Rightarrow> u64 option" where
  "rtf_cap 0 lim cap = None"
| "rtf_cap (Suc fuel) lim cap = (if cap < lim then rtf_cap fuel lim (push_bit 1 cap) else Some cap)"

text \<open>The inner loop of the insertion: from the key's home slot to a free slot or to the key itself.\<close>

definition rtf_stop :: "u64 \<Rightarrow> rtf \<Rightarrow> u64 \<Rightarrow> bool" where
  "rtf_stop key r h \<longleftrightarrow> \<not> (rtf_used r ! unat h \<noteq> 0 \<and> rtf_slots r ! unat h \<noteq> Some key)"

definition rtf_find :: "(u64 \<Rightarrow> u64) \<Rightarrow> u64 \<Rightarrow> rtf \<Rightarrow> u64 option" where
  "rtf_find hash key r = probe (rtf_stop key r) (rtf_mask r) (length (rtf_slots r)) (hash key AND rtf_mask r)"

definition rtf_insert :: "(u64 \<Rightarrow> u64) \<Rightarrow> u64 \<Rightarrow> rtf \<Rightarrow> rtf option" where
  "rtf_insert hash key r =
     (case rtf_find hash key r of None \<Rightarrow> None
      | Some h \<Rightarrow>
          Some (if rtf_used r ! unat h = 0
                then r\<lparr>rtf_used := (rtf_used r)[unat h := 1], rtf_slots := (rtf_slots r)[unat h := Some key],
                       rtf_n_keys := rtf_n_keys r + 1\<rparr>
                else r))"

primrec rtf_fill :: "(u64 \<Rightarrow> u64) \<Rightarrow> u64 list \<Rightarrow> rtf \<Rightarrow> rtf option" where
  "rtf_fill hash [] r = Some r"
| "rtf_fill hash (key # keys) r = (case rtf_insert hash key r of None \<Rightarrow> None | Some r' \<Rightarrow> rtf_fill hash keys r')"

definition rtf_empty :: "u64 \<Rightarrow> int \<Rightarrow> rtf" where
  "rtf_empty cap val_index =
     \<lparr>rtf_slots = replicate (unat cap) None, rtf_used = replicate (unat cap) 0, rtf_mask = cap - 1,
      rtf_is_date = False, rtf_val_index = val_index, rtf_n_keys = 0\<rparr>"

text \<open>\<open>n\<close> is an \<open>int\<close>; \<open>keys\<close> the array it counts. \<open>None\<close>: a loop that never ends.\<close>

definition unitseam_rtf_make :: "(u64 \<Rightarrow> u64) \<Rightarrow> u64 list \<Rightarrow> int \<Rightarrow> int \<Rightarrow> rtf option" where
  "unitseam_rtf_make hash keys n val_index =
     (case rtf_cap 61 (word_of_int n * 2) 16 of None \<Rightarrow> None
      | Some cap \<Rightarrow> rtf_fill hash (take (nat n) keys) (rtf_empty cap val_index))"

definition unitseam_rtf_n_keys :: "rtf \<Rightarrow> int" where
  "unitseam_rtf_n_keys r = rtf_n_keys r"

section \<open>The two plan nodes\<close>

text \<open>
  A plan node as the attachment writes it: the join's own part (\<open>proc.hashjoin\<close>) and the scan
  node's filter fields. Nodes and filters are named by their addresses.
\<close>

record xasl_node =
  hj_rtf :: "nat option"
  hj_rtf_keys :: int
  hj_rtf_rows :: int
  hj_rtf_dropped :: int
  xn_rtf :: "nat option"
  xn_rtf_val :: "nat option"
  xn_rtf_rows :: int
  xn_rtf_dropped :: int

definition unitseam_rtf_attach ::
    "nat \<Rightarrow> nat \<Rightarrow> nat \<Rightarrow> nat \<Rightarrow> (nat \<Rightarrow> rtf) \<Rightarrow> (nat \<Rightarrow> xasl_node) \<Rightarrow> nat \<Rightarrow> xasl_node" where
  "unitseam_rtf_attach hashjoin_xasl target rtf cell filters nodes =
     (let nodes1 = nodes(hashjoin_xasl := (nodes hashjoin_xasl)\<lparr>hj_rtf := Some rtf,
                     hj_rtf_keys := rtf_n_keys (filters rtf), hj_rtf_rows := 0, hj_rtf_dropped := 0\<rparr>)
      in nodes1(target := (nodes1 target)\<lparr>xn_rtf := Some rtf, xn_rtf_val := Some cell,
                     xn_rtf_rows := 0, xn_rtf_dropped := 0\<rparr>))"

section \<open>The capacity\<close>

lemma unat_pow: "i \<le> 63 \<Longrightarrow> unat (2 ^ i :: u64) = 2 ^ i"
proof -
  assume "i \<le> 63"
  then have "(2 :: nat) ^ i < 2 ^ 64" by (intro power_strict_increasing) simp_all
  then have "unat (of_nat (2 ^ i) :: u64) = 2 ^ i" unfolding unat_of_nat by simp
  then show ?thesis by simp
qed

lemma rtf_cap_pow:
  assumes "i \<le> 63" "64 - i \<le> fuel" "unat lim \<le> 2 ^ 63"
  shows "\<exists>k. i \<le> k \<and> k \<le> 63 \<and> rtf_cap fuel lim (2 ^ i) = Some (2 ^ k) \<and> unat lim \<le> 2 ^ k \<and> (k = i \<or> 2 ^ (k - 1) < unat lim)"
  using assms
proof (induction fuel arbitrary: i)
  case (Suc fuel)
  note u = unat_pow [OF Suc.prems(1)]
  show ?case
  proof (cases "(2 ^ i :: u64) < lim")
    case True
    then have lt: "2 ^ i < unat lim" using u by (simp add: word_less_nat_alt)
    then have "(2 :: nat) ^ i < 2 ^ 63" using Suc.prems(3) by linarith
    then have i: "i < 63" by (rule power_less_imp_less_exp [rotated]) simp
    have p: "push_bit 1 (2 ^ i) = (2 ^ Suc i :: u64)" by (simp add: push_bit_eq_mult)
    obtain k where "Suc i \<le> k" "k \<le> 63" "rtf_cap fuel lim (2 ^ Suc i) = Some (2 ^ k)" "unat lim \<le> 2 ^ k"
      "k = Suc i \<or> 2 ^ (k - 1) < unat lim"
      using Suc.IH [of "Suc i"] Suc.prems i by fastforce
    then show ?thesis using True p lt by (intro exI [of _ k]) (auto simp: mult.commute)
  next
    case False
    then show ?thesis using u Suc.prems by (intro exI [of _ i]) (simp add: word_less_nat_alt)
  qed
qed simp

lemma rtf_cap_stuck: "lim \<noteq> 0 \<Longrightarrow> rtf_cap fuel lim 0 = None"
  by (induction fuel) (simp_all add: word_gt_0)

lemma rtf_cap_never:
  assumes "2 ^ 63 < unat lim" "i \<le> 63"
  shows "rtf_cap fuel lim (2 ^ i) = None"
  using assms(2)
proof (induction fuel arbitrary: i)
  case (Suc fuel)
  have "unat (2 ^ i :: u64) = 2 ^ i" by (rule unat_pow [OF Suc.prems])
  moreover have "(2 :: nat) ^ i \<le> 2 ^ 63" using Suc.prems by (intro power_increasing) simp_all
  ultimately have lt: "(2 ^ i :: u64) < lim" using assms(1) by (simp add: word_less_nat_alt)
  have p: "push_bit 1 (2 ^ i) = (2 ^ Suc i :: u64)" by (simp add: push_bit_eq_mult)
  show ?case
  proof (cases "i < 63")
    case True
    then show ?thesis using lt p Suc.IH [of "Suc i"] by (simp add: mult.commute)
  next
    case False
    then have i: "i = 63" using Suc.prems by simp
    have z: "(2 ^ Suc 63 :: u64) = 0" by simp
    have "lim \<noteq> 0" using assms(1) by auto
    from rtf_cap_stuck [OF this, of fuel] show ?thesis using lt p by (simp only: rtf_cap.simps if_True i z)
  qed
qed simp

lemma double_uint: "uint (word_of_int n * 2 :: u64) = (n * 2) mod 2 ^ 64"
proof -
  have "word_of_int n * 2 = (word_of_int (n * 2) :: u64)" by simp
  then show ?thesis by (simp only: uint_word_of_int) simp
qed

lemma double_int_unat:
  assumes "0 \<le> n" "n < 2 ^ 31"
  shows "unat (word_of_int n * 2 :: u64) = 2 * nat n"
proof -
  have "int (unat (word_of_int n * 2 :: u64)) = n * 2"
    using double_uint [of n] assms by (simp add: mod_pos_pos_trivial)
  then show ?thesis using assms by linarith
qed

lemma double_negative_unat:
  assumes "- (2 ^ 31) \<le> n" "n < 0"
  shows "2 ^ 63 < unat (word_of_int n * 2 :: u64)"
proof -
  have "(n * 2) mod 2 ^ 64 = (n * 2 + 2 ^ 64) mod (2 ^ 64 :: int)" by simp
  also have "\<dots> = n * 2 + 2 ^ 64" using assms by (intro mod_pos_pos_trivial) simp_all
  finally have "int (unat (word_of_int n * 2 :: u64)) = n * 2 + 2 ^ 64" using double_uint [of n] by simp
  moreover have "int (2 ^ 63) < n * 2 + 2 ^ 64" using assms by simp
  ultimately show ?thesis by (metis of_nat_less_iff)
qed

lemma rtf_cap_made:
  assumes "0 \<le> n" "n < 2 ^ 31"
  shows "\<exists>k. 4 \<le> k \<and> k \<le> 63 \<and> rtf_cap 61 (word_of_int n * 2) 16 = Some (2 ^ k) \<and> 2 * nat n \<le> 2 ^ k
    \<and> (k = 4 \<or> 2 ^ k < 4 * nat n)"
proof -
  let ?lim = "word_of_int n * 2 :: u64"
  have l: "unat ?lim = 2 * nat n" by (rule double_int_unat [OF assms])
  have "unat ?lim \<le> 2 ^ 63" using assms l by simp
  then obtain k where k: "4 \<le> k" "k \<le> 63" "rtf_cap 61 ?lim (2 ^ 4) = Some (2 ^ k)" "unat ?lim \<le> 2 ^ k"
    "k = 4 \<or> 2 ^ (k - 1) < unat ?lim"
    using rtf_cap_pow [of 4 61 ?lim] by auto
  have "(2 :: nat) ^ k = 2 * 2 ^ (k - 1)" using k(1) by (cases k) simp_all
  then have "k = 4 \<or> 2 ^ k < 4 * nat n" using k(5) l by linarith
  then show ?thesis using k l by (intro exI [of _ k]) simp
qed

section \<open>The table\<close>

text \<open>
  What the insertions keep: the arrays have one slot per mask value, and the search for the key of a
  used slot ends in that slot.
\<close>

definition rtf_inv :: "(u64 \<Rightarrow> u64) \<Rightarrow> nat \<Rightarrow> rtf \<Rightarrow> bool" where
  "rtf_inv hash k r \<longleftrightarrow> k \<le> 63 \<and> rtf_mask r = mask k \<and> length (rtf_slots r) = 2 ^ k \<and> length (rtf_used r) = 2 ^ k \<and>
     (\<forall>h. in_ring k h \<longrightarrow> rtf_used r ! unat h \<noteq> 0 \<longrightarrow>
        (\<exists>key. rtf_slots r ! unat h = Some key \<and> rtf_find hash key r = Some h)) \<and>
     rtf_n_keys r = int (card {h :: u64. in_ring k h \<and> rtf_used r ! unat h \<noteq> 0})"

text \<open>The set of keys the filter holds.\<close>

definition rtf_keys_of :: "rtf \<Rightarrow> u64 set" where
  "rtf_keys_of r = {key. \<exists>i < length (rtf_slots r). rtf_used r ! i \<noteq> 0 \<and> rtf_slots r ! i = Some key}"

lemma in_ring_64: "k \<le> 63 \<Longrightarrow> in_ring k (h :: u64) \<longleftrightarrow> unat h < 2 ^ k"
  by (rule in_ring_unat) simp

lemma ring_index: "k \<le> 63 \<Longrightarrow> i < 2 ^ k \<Longrightarrow> \<exists>h :: u64. in_ring k h \<and> unat h = i"
proof -
  assume k: "k \<le> 63" and i: "i < 2 ^ k"
  have "(2 :: nat) ^ k \<le> 2 ^ 63" using k by (intro power_increasing) simp_all
  then have "i < 2 ^ 64" using i by simp
  then have u: "unat (of_nat i :: u64) = i" unfolding unat_of_nat by simp
  show ?thesis by (intro exI [of _ "of_nat i"]) (simp only: in_ring_64 [OF k] u i simp_thms)
qed

lemma ring_image:
  assumes k: "k \<le> 63"
  shows "unat ` {h :: u64. in_ring k h \<and> P (unat h)} = {i. i < 2 ^ k \<and> P i}"
proof (rule set_eqI)
  fix i
  show "i \<in> unat ` {h :: u64. in_ring k h \<and> P (unat h)} \<longleftrightarrow> i \<in> {i. i < 2 ^ k \<and> P i}"
  proof
    assume "i \<in> unat ` {h :: u64. in_ring k h \<and> P (unat h)}"
    then obtain h :: u64 where "i = unat h" "in_ring k h" "P (unat h)" by blast
    then show "i \<in> {i. i < 2 ^ k \<and> P i}" using in_ring_64 [OF k] by simp
  next
    assume "i \<in> {i. i < 2 ^ k \<and> P i}"
    then obtain h :: u64 where "in_ring k h" "unat h = i" "P i" using ring_index [OF k] by blast
    then show "i \<in> unat ` {h :: u64. in_ring k h \<and> P (unat h)}" by blast
  qed
qed

lemma ring_card:
  assumes k: "k \<le> 63"
  shows "card {h :: u64. in_ring k h \<and> P (unat h)} = card {i. i < 2 ^ k \<and> P i}"
proof -
  have "inj_on unat {h :: u64. in_ring k h \<and> P (unat h)}" by (rule inj_onI) (simp add: word_unat_eq_iff)
  from card_image [OF this] show ?thesis unfolding ring_image [OF k] by (rule sym)
qed

lemma inv_k:
  assumes inv: "rtf_inv hash k r"
  shows "k \<le> 63" "k \<le> LENGTH(64)"
  using inv by (simp_all add: rtf_inv_def)

lemma find_probe:
  assumes inv: "rtf_inv hash k r"
  shows "rtf_find hash key r = probe (rtf_stop key r) (mask k) (2 ^ k) (hash key AND mask k)"
  using inv by (simp add: rtf_find_def rtf_inv_def)

lemma keys_slot:
  assumes inv: "rtf_inv hash k r"
  shows "key \<in> rtf_keys_of r \<longleftrightarrow> (\<exists>h :: u64. in_ring k h \<and> rtf_used r ! unat h \<noteq> 0 \<and> rtf_slots r ! unat h = Some key)"
proof
  assume "key \<in> rtf_keys_of r"
  then obtain i where "i < 2 ^ k" "rtf_used r ! i \<noteq> 0" "rtf_slots r ! i = Some key"
    using inv by (auto simp: rtf_keys_of_def rtf_inv_def)
  moreover obtain h :: u64 where "in_ring k h" "unat h = i" using ring_index [OF inv_k(1) [OF inv] calculation(1)] by blast
  ultimately show "\<exists>h :: u64. in_ring k h \<and> rtf_used r ! unat h \<noteq> 0 \<and> rtf_slots r ! unat h = Some key"
    by (intro exI [of _ h]) simp
next
  assume "\<exists>h :: u64. in_ring k h \<and> rtf_used r ! unat h \<noteq> 0 \<and> rtf_slots r ! unat h = Some key"
  then show "key \<in> rtf_keys_of r"
    using in_ring_64 [OF inv_k(1) [OF inv]] inv by (auto simp: rtf_keys_of_def rtf_inv_def)
qed

text \<open>The search ends in a used slot exactly for the keys the filter holds.\<close>

lemma find_decides:
  assumes inv: "rtf_inv hash k r" and found: "rtf_find hash key r = Some h"
  shows "in_ring k h" "rtf_used r ! unat h \<noteq> 0 \<longleftrightarrow> key \<in> rtf_keys_of r"
    "rtf_used r ! unat h \<noteq> 0 \<Longrightarrow> rtf_slots r ! unat h = Some key"
proof -
  have p: "probe (rtf_stop key r) (mask k) (2 ^ k) (hash key AND mask k) = Some h" using found find_probe [OF inv] by simp
  have stop: "rtf_stop key r h" and ring: "in_ring k h"
    using probe_result [OF inv_k(2) [OF inv] in_ring_masked p] by blast+
  show "in_ring k h" by (rule ring)
  show sl: "rtf_slots r ! unat h = Some key" if "rtf_used r ! unat h \<noteq> 0"
    using stop that by (simp add: rtf_stop_def)
  show "rtf_used r ! unat h \<noteq> 0 \<longleftrightarrow> key \<in> rtf_keys_of r"
  proof
    assume "rtf_used r ! unat h \<noteq> 0"
    then show "key \<in> rtf_keys_of r" using keys_slot [OF inv] ring sl by blast
  next
    assume "key \<in> rtf_keys_of r"
    then obtain h' :: u64 where h': "in_ring k h'" "rtf_used r ! unat h' \<noteq> 0" "rtf_slots r ! unat h' = Some key"
      using keys_slot [OF inv] by blast
    then have "rtf_find hash key r = Some h'" using inv unfolding rtf_inv_def by fastforce
    then show "rtf_used r ! unat h \<noteq> 0" using found h'(2) by simp
  qed
qed

lemma card_keys:
  assumes inv: "rtf_inv hash k r"
  shows "rtf_n_keys r = int (card (rtf_keys_of r))"
proof -
  let ?H = "{h :: u64. in_ring k h \<and> rtf_used r ! unat h \<noteq> 0}"
  have slot: "\<exists>key. rtf_slots r ! unat h = Some key \<and> rtf_find hash key r = Some h"
    if "in_ring k h" "rtf_used r ! unat h \<noteq> 0" for h :: u64
    using inv that by (simp add: rtf_inv_def)
  have "bij_betw (\<lambda>h. the (rtf_slots r ! unat h)) ?H (rtf_keys_of r)"
  proof (rule bij_betw_imageI)
    show "inj_on (\<lambda>h. the (rtf_slots r ! unat h)) ?H"
    proof (rule inj_onI)
      fix x y assume x: "x \<in> ?H" and y: "y \<in> ?H" and e: "the (rtf_slots r ! unat x) = the (rtf_slots r ! unat y)"
      obtain a b where "rtf_slots r ! unat x = Some a" "rtf_find hash a r = Some x"
        "rtf_slots r ! unat y = Some b" "rtf_find hash b r = Some y"
        using x y inv unfolding rtf_inv_def by blast
      then show "x = y" using e by simp
    qed
    show "(\<lambda>h. the (rtf_slots r ! unat h)) ` ?H = rtf_keys_of r"
    proof (rule set_eqI)
      fix key
      have "key \<in> (\<lambda>h. the (rtf_slots r ! unat h)) ` ?H \<longleftrightarrow>
          (\<exists>h :: u64. in_ring k h \<and> rtf_used r ! unat h \<noteq> 0 \<and> rtf_slots r ! unat h = Some key)"
      proof
        assume "key \<in> (\<lambda>h. the (rtf_slots r ! unat h)) ` ?H"
        then obtain h :: u64 where h: "in_ring k h" "rtf_used r ! unat h \<noteq> 0" "key = the (rtf_slots r ! unat h)" by blast
        then show "\<exists>h :: u64. in_ring k h \<and> rtf_used r ! unat h \<noteq> 0 \<and> rtf_slots r ! unat h = Some key"
          using slot [OF h(1,2)] by (intro exI [of _ h]) auto
      next
        assume "\<exists>h :: u64. in_ring k h \<and> rtf_used r ! unat h \<noteq> 0 \<and> rtf_slots r ! unat h = Some key"
        then obtain h :: u64 where "in_ring k h" "rtf_used r ! unat h \<noteq> 0" "rtf_slots r ! unat h = Some key" by blast
        then show "key \<in> (\<lambda>h. the (rtf_slots r ! unat h)) ` ?H" by (intro image_eqI [of _ _ h]) simp_all
      qed
      then show "key \<in> (\<lambda>h. the (rtf_slots r ! unat h)) ` ?H \<longleftrightarrow> key \<in> rtf_keys_of r" using keys_slot [OF inv] by simp
    qed
  qed
  then have "card ?H = card (rtf_keys_of r)" by (rule bij_betw_same_card)
  then show ?thesis using inv by (simp add: rtf_inv_def)
qed

lemma find_returns:
  assumes inv: "rtf_inv hash k r" and room: "rtf_n_keys r < 2 ^ k"
  shows "\<exists>h. rtf_find hash key r = Some h"
proof -
  have c: "card {i. i < 2 ^ k \<and> rtf_used r ! i \<noteq> 0} < 2 ^ k"
    using room inv ring_card [OF inv_k(1) [OF inv], of "\<lambda>i. rtf_used r ! i \<noteq> 0"] by (simp add: rtf_inv_def)
  have "\<exists>i < 2 ^ k. rtf_used r ! i = 0"
  proof (rule ccontr)
    assume "\<not> (\<exists>i < 2 ^ k. rtf_used r ! i = 0)"
    then have "{i. i < 2 ^ k \<and> rtf_used r ! i \<noteq> 0} = {i. i < 2 ^ k}" by blast
    then show False using c by simp
  qed
  then obtain n where n: "n < 2 ^ k" "rtf_used r ! n = 0" by blast
  obtain h :: u64 where "in_ring k h" "unat h = n" using ring_index [OF inv_k(1) [OF inv] n(1)] by blast
  then have "in_ring k h \<and> rtf_used r ! unat h = 0" using n(2) by simp
  then obtain i where "in_ring k i" "rtf_stop key r i" by (auto simp: rtf_stop_def)
  then show ?thesis using probe_stops [OF inv_k(2) [OF inv] in_ring_masked] find_probe [OF inv] by simp
qed

text \<open>One insertion.\<close>

lemma find_other:
  assumes inv: "rtf_inv hash k r" and h: "rtf_find hash key r = Some h" "rtf_used r ! unat h = 0"
    and other: "rtf_find hash key' r = Some h'" "rtf_used r ! unat h' \<noteq> 0" "h' \<noteq> h"
    and upd: "r' = r\<lparr>rtf_used := (rtf_used r)[unat h := 1], rtf_slots := (rtf_slots r)[unat h := Some key],
                rtf_n_keys := rtf_n_keys r + 1\<rparr>"
  shows "rtf_find hash key' r' = Some h'"
proof -
  have p: "probe (rtf_stop key' r) (mask k) (2 ^ k) (hash key' AND mask k) = Some h'"
    using other(1) find_probe [OF inv] by simp
  have u: "unat h' \<noteq> unat h" using other(3) by (simp add: word_unat_eq_iff)
  have "probe (rtf_stop key' r') (mask k) (2 ^ k) (hash key' AND mask k) = Some h'"
  proof (rule probe_cong [OF inv_k(2) [OF inv] in_ring_masked p])
    show "rtf_stop key' r' h'"
      using probe_result(1) [OF inv_k(2) [OF inv] in_ring_masked p] u by (simp add: rtf_stop_def upd)
    fix i :: u64 assume "in_ring k i" "\<not> rtf_stop key' r i"
    then have "unat i \<noteq> unat h" using h(2) by (auto simp: rtf_stop_def)
    then show "\<not> rtf_stop key' r' i" using \<open>\<not> rtf_stop key' r i\<close> by (simp add: rtf_stop_def upd)
  qed
  then show ?thesis using inv by (simp add: rtf_find_def upd rtf_inv_def)
qed

lemma find_same:
  assumes inv: "rtf_inv hash k r" and h: "rtf_find hash key r = Some h" "rtf_used r ! unat h = 0"
    and upd: "r' = r\<lparr>rtf_used := (rtf_used r)[unat h := 1], rtf_slots := (rtf_slots r)[unat h := Some key],
                rtf_n_keys := rtf_n_keys r + 1\<rparr>"
  shows "rtf_find hash key r' = Some h"
proof -
  have p: "probe (rtf_stop key r) (mask k) (2 ^ k) (hash key AND mask k) = Some h"
    using h(1) find_probe [OF inv] by simp
  have b: "unat h < 2 ^ k" using find_decides(1) [OF inv h(1)] in_ring_64 [OF inv_k(1) [OF inv]] by simp
  have "probe (rtf_stop key r') (mask k) (2 ^ k) (hash key AND mask k) = Some h"
  proof (rule probe_cong [OF inv_k(2) [OF inv] in_ring_masked p])
    show "rtf_stop key r' h" using b inv by (simp add: rtf_stop_def upd rtf_inv_def)
    fix i :: u64 assume "in_ring k i" "\<not> rtf_stop key r i"
    then have "unat i \<noteq> unat h" using h(2) by (auto simp: rtf_stop_def)
    then show "\<not> rtf_stop key r' i" using \<open>\<not> rtf_stop key r i\<close> by (simp add: rtf_stop_def upd)
  qed
  then show ?thesis using inv by (simp add: rtf_find_def upd rtf_inv_def)
qed

lemma insert_step:
  assumes inv: "rtf_inv hash k r" and room: "rtf_n_keys r < 2 ^ k"
  shows "\<exists>r'. rtf_insert hash key r = Some r' \<and> rtf_inv hash k r' \<and> rtf_keys_of r' = insert key (rtf_keys_of r)
    \<and> rtf_is_date r' = rtf_is_date r \<and> rtf_val_index r' = rtf_val_index r"
proof -
  obtain h where h: "rtf_find hash key r = Some h" using find_returns [OF inv room] by blast
  note d = find_decides [OF inv h]
  have b: "unat h < 2 ^ k" using d(1) in_ring_64 [OF inv_k(1) [OF inv]] by simp
  show ?thesis
  proof (cases "rtf_used r ! unat h = 0")
    case False
    then show ?thesis using h d inv by (auto simp: rtf_insert_def insert_absorb)
  next
    case True
    obtain r' where upd: "r' = r\<lparr>rtf_used := (rtf_used r)[unat h := 1], rtf_slots := (rtf_slots r)[unat h := Some key],
                rtf_n_keys := rtf_n_keys r + 1\<rparr>" by blast
    have len: "length (rtf_slots r) = 2 ^ k" "length (rtf_used r) = 2 ^ k" using inv by (simp_all add: rtf_inv_def)
    have used: "rtf_used r' ! unat g \<noteq> 0 \<longleftrightarrow> g = h \<or> rtf_used r ! unat g \<noteq> 0" for g
      using b len by (cases "g = h") (simp_all add: upd nth_list_update word_unat_eq_iff)
    have slot: "rtf_slots r' ! unat g = (if g = h then Some key else rtf_slots r ! unat g)" for g
      using b len by (simp add: upd nth_list_update word_unat_eq_iff)
    have found: "\<exists>key. rtf_slots r' ! unat g = Some key \<and> rtf_find hash key r' = Some g"
      if g: "in_ring k g" "rtf_used r' ! unat g \<noteq> 0" for g
    proof (cases "g = h")
      case True
      then show ?thesis using find_same [OF inv h \<open>rtf_used r ! unat h = 0\<close> upd] slot by simp
    next
      case False
      then have "rtf_used r ! unat g \<noteq> 0" using g(2) used by simp
      moreover obtain key' where "rtf_slots r ! unat g = Some key'" "rtf_find hash key' r = Some g"
        using inv g(1) calculation by (auto simp: rtf_inv_def)
      ultimately show ?thesis using find_other [OF inv h \<open>rtf_used r ! unat h = 0\<close> _ _ False upd] slot False by simp
    qed
    have "{g :: u64. in_ring k g \<and> rtf_used r' ! unat g \<noteq> 0} = insert h {g. in_ring k g \<and> rtf_used r ! unat g \<noteq> 0}"
      using used d(1) by auto
    then have "card {g :: u64. in_ring k g \<and> rtf_used r' ! unat g \<noteq> 0} = Suc (card {g :: u64. in_ring k g \<and> rtf_used r ! unat g \<noteq> 0})"
      using True by simp
    then have inv': "rtf_inv hash k r'" using inv found by (simp add: rtf_inv_def upd)
    have "rtf_keys_of r' = insert key (rtf_keys_of r)"
    proof (rule set_eqI)
      fix x
      have "x \<in> rtf_keys_of r' \<longleftrightarrow> x = key \<or> (\<exists>g :: u64. in_ring k g \<and> g \<noteq> h \<and> rtf_used r ! unat g \<noteq> 0 \<and> rtf_slots r ! unat g = Some x)"
        using keys_slot [OF inv', of x] d(1) used slot by (metis option.inject)
      also have "\<dots> \<longleftrightarrow> x = key \<or> x \<in> rtf_keys_of r" using keys_slot [OF inv, of x] True by metis
      finally show "x \<in> rtf_keys_of r' \<longleftrightarrow> x \<in> insert key (rtf_keys_of r)" by simp
    qed
    moreover have "rtf_insert hash key r = Some r'" using h True by (simp add: rtf_insert_def upd)
    moreover have "rtf_is_date r' = rtf_is_date r" "rtf_val_index r' = rtf_val_index r" by (simp_all add: upd)
    ultimately show ?thesis using inv' by blast
  qed
qed

lemma fill_steps:
  "rtf_inv hash k r \<Longrightarrow> rtf_n_keys r + int (length keys) \<le> 2 ^ k \<Longrightarrow>
     \<exists>r'. rtf_fill hash keys r = Some r' \<and> rtf_inv hash k r' \<and> rtf_keys_of r' = set keys \<union> rtf_keys_of r
       \<and> rtf_is_date r' = rtf_is_date r \<and> rtf_val_index r' = rtf_val_index r"
proof (induction keys arbitrary: r)
  case (Cons key keys)
  have room: "rtf_n_keys r < 2 ^ k" using Cons.prems(2) by simp
  obtain r1 where r1: "rtf_insert hash key r = Some r1" "rtf_inv hash k r1" "rtf_keys_of r1 = insert key (rtf_keys_of r)"
    "rtf_is_date r1 = rtf_is_date r" "rtf_val_index r1 = rtf_val_index r"
    using insert_step [OF Cons.prems(1) room] by blast
  have "card (rtf_keys_of r1) \<le> Suc (card (rtf_keys_of r))" unfolding r1(3) by (rule card_insert_le_m1) simp_all
  then have "rtf_n_keys r1 + int (length keys) \<le> 2 ^ k"
    using Cons.prems(2) card_keys [OF r1(2)] card_keys [OF Cons.prems(1)] by simp
  from Cons.IH [OF r1(2) this] r1 show ?case by auto
qed simp

lemma empty_inv:
  assumes "k \<le> 63"
  shows "rtf_inv hash k (rtf_empty (2 ^ k) vi)" "rtf_keys_of (rtf_empty (2 ^ k) vi) = {}"
proof -
  have u: "unat (2 ^ k :: u64) = 2 ^ k" by (rule unat_pow [OF assms])
  have z: "rtf_used (rtf_empty (2 ^ k) vi) ! unat h = 0" if "in_ring k h" for h :: u64
    using that in_ring_64 [OF assms] u by (simp add: rtf_empty_def)
  have "{h :: u64. in_ring k h \<and> rtf_used (rtf_empty (2 ^ k) vi) ! unat h \<noteq> 0} = {}" using z by blast
  then show "rtf_inv hash k (rtf_empty (2 ^ k) vi)"
    using assms u z by (auto simp: rtf_inv_def rtf_empty_def mask_eq_exp_minus_1)
  show "rtf_keys_of (rtf_empty (2 ^ k) vi) = {}" using u by (auto simp: rtf_keys_of_def rtf_empty_def)
qed

section \<open>Properties\<close>

lemma make_fill:
  assumes n: "0 \<le> n" "n < 2 ^ 31" "nat n \<le> length keys"
  shows "\<exists>k r. 4 \<le> k \<and> 2 * nat n \<le> 2 ^ k \<and> unitseam_rtf_make hash keys n vi = Some r \<and> rtf_inv hash k r
    \<and> rtf_keys_of r = set (take (nat n) keys) \<and> \<not> rtf_is_date r \<and> rtf_val_index r = vi"
proof -
  obtain k where k: "4 \<le> k" "k \<le> 63" "rtf_cap 61 (word_of_int n * 2) 16 = Some (2 ^ k)" "2 * nat n \<le> 2 ^ k"
    using rtf_cap_made [OF n(1,2)] by blast
  let ?e = "rtf_empty (2 ^ k) vi"
  have e: "rtf_n_keys ?e = 0" "\<not> rtf_is_date ?e" "rtf_val_index ?e = vi" by (simp_all add: rtf_empty_def)
  have "int (length (take (nat n) keys)) \<le> 2 ^ k"
  proof -
    have "length (take (nat n) keys) \<le> 2 ^ k" using k(4) by simp
    then show ?thesis by (metis of_nat_le_iff of_nat_numeral of_nat_power)
  qed
  then have "rtf_n_keys ?e + int (length (take (nat n) keys)) \<le> 2 ^ k" using e(1) by simp
  from fill_steps [OF empty_inv(1) [OF k(2), of hash] this] obtain r where
    "rtf_fill hash (take (nat n) keys) ?e = Some r" "rtf_inv hash k r"
    "rtf_keys_of r = set (take (nat n) keys)" "rtf_is_date r = rtf_is_date ?e" "rtf_val_index r = rtf_val_index ?e"
    using empty_inv(2) [OF k(2), of vi] by auto
  then show ?thesis using k e by (intro exI [of _ k] exI [of _ r]) (simp add: unitseam_rtf_make_def)
qed

text \<open>
  C1. For every hash function and every \<open>n >= 0\<close>, building the filter ends, the filter holds exactly
  the first \<open>n\<close> keys and counts each once; and the probe for any 64-bit key, in the filter or not,
  ends, in a used slot exactly when the key is one of them.
\<close>

theorem rtf_make_exact:
  assumes "0 \<le> n" "n < 2 ^ 31" "nat n \<le> length keys"
  shows "\<exists>r. unitseam_rtf_make hash keys n vi = Some r \<and> rtf_keys_of r = set (take (nat n) keys)
    \<and> unitseam_rtf_n_keys r = int (card (set (take (nat n) keys)))
    \<and> \<not> rtf_is_date r \<and> rtf_val_index r = vi
    \<and> (\<forall>key. \<exists>h. rtf_find hash key r = Some h \<and> (rtf_used r ! unat h \<noteq> 0 \<longleftrightarrow> key \<in> set (take (nat n) keys)))"
proof -
  obtain k r where k: "4 \<le> k" "2 * nat n \<le> 2 ^ k" and r: "unitseam_rtf_make hash keys n vi = Some r" "rtf_inv hash k r"
    "rtf_keys_of r = set (take (nat n) keys)" "\<not> rtf_is_date r" "rtf_val_index r = vi"
    using make_fill [OF assms] by blast
  have c: "rtf_n_keys r = int (card (set (take (nat n) keys)))" using card_keys [OF r(2)] r(3) by simp
  have "card (set (take (nat n) keys)) \<le> nat n" using card_length [of "take (nat n) keys"] by simp
  moreover have "(0 :: nat) < 2 ^ k" by simp
  ultimately have "card (set (take (nat n) keys)) < 2 ^ k" using k(2) by linarith
  then have "rtf_n_keys r < 2 ^ k" unfolding c by (metis of_nat_less_iff of_nat_numeral of_nat_power)
  from find_returns [OF r(2) this] find_decides(2) [OF r(2)] have
    "\<exists>h. rtf_find hash key r = Some h \<and> (rtf_used r ! unat h \<noteq> 0 \<longleftrightarrow> key \<in> rtf_keys_of r)" for key
    by blast
  then show ?thesis using r c by (intro exI [of _ r]) (simp add: unitseam_rtf_n_keys_def)
qed

theorem rtf_make_exact_witness:
  "\<exists>r. unitseam_rtf_make (\<lambda>_. 3) [7, 9, 7] 3 0 = Some r \<and> unitseam_rtf_n_keys r = 2"
proof -
  obtain r where "unitseam_rtf_make (\<lambda>_. 3) [7, 9, 7] 3 0 = Some r"
    "unitseam_rtf_n_keys r = int (card (set (take (nat 3) [7, 9, 7 :: u64])))"
    using rtf_make_exact [of 3 "[7, 9, 7]" "\<lambda>_. 3" 0] by auto
  moreover have "set (take (nat 3) [7, 9, 7 :: u64]) = {7, 9}" by auto
  moreover have "card {7, 9 :: u64} = 2" by (simp add: card_insert_if)
  ultimately show ?thesis by auto
qed

text \<open>
  C31. The doubling loop ends exactly for the non-negative \<open>int\<close> counts: a negative one becomes, as
  \<open>UINT64\<close>, a bound that no 64-bit power of two reaches, and no number of doublings ends the loop.
\<close>

theorem rtf_cap_ends_iff:
  assumes "- (2 ^ 31) \<le> n" "n < 2 ^ 31"
  shows "(\<exists>fuel cap. rtf_cap fuel (word_of_int n * 2) 16 = Some cap) \<longleftrightarrow> 0 \<le> n"
proof (cases "0 \<le> n")
  case True
  then show ?thesis using rtf_cap_made [OF True assms(2)] by blast
next
  case False
  have "rtf_cap fuel (word_of_int n * 2) (2 ^ 4) = None" for fuel
    by (rule rtf_cap_never [OF double_negative_unat]) (use assms False in simp_all)
  then show ?thesis using False by simp
qed

theorem rtf_cap_ends_iff_witness: "\<forall>fuel. rtf_cap fuel (word_of_int (- 1) * 2) 16 = None"
proof -
  have "(\<exists>fuel cap. rtf_cap fuel (word_of_int (- 1) * 2) 16 = Some cap) \<longleftrightarrow> (0 :: int) \<le> - 1"
    by (rule rtf_cap_ends_iff) simp_all
  then show ?thesis by (metis not_None_eq not_one_le_zero neg_0_le_iff_le)
qed

text \<open>
  C32. The capacity is the smallest power of two from 16 on that is at least twice the count, so at
  least half of the table stays free.
\<close>

theorem rtf_cap_least:
  assumes "0 \<le> n" "n < 2 ^ 31"
  shows "\<exists>k. rtf_cap 61 (word_of_int n * 2) 16 = Some (2 ^ k) \<and> 16 \<le> (2 :: nat) ^ k \<and> 2 * nat n \<le> 2 ^ k
    \<and> (\<forall>j. 16 \<le> (2 :: nat) ^ j \<and> 2 * nat n \<le> 2 ^ j \<longrightarrow> k \<le> j)"
proof -
  obtain k where k: "4 \<le> k" "rtf_cap 61 (word_of_int n * 2) 16 = Some (2 ^ k)" "2 * nat n \<le> 2 ^ k"
    "k = 4 \<or> 2 ^ k < 4 * nat n"
    using rtf_cap_made [OF assms] by blast
  have "(2 :: nat) ^ 4 \<le> 2 ^ k" using k(1) by (intro power_increasing) simp_all
  moreover have "k \<le> j" if j: "16 \<le> (2 :: nat) ^ j" "2 * nat n \<le> 2 ^ j" for j
  proof (rule ccontr)
    assume "\<not> k \<le> j"
    moreover have "4 \<le> j" using j(1) power_le_imp_le_exp [of "2 :: nat" 4 j] by simp
    ultimately have "k \<noteq> 4" and s: "Suc j \<le> k" by simp_all
    have "(2 :: nat) ^ Suc j \<le> 2 ^ k" using s by (intro power_increasing) simp_all
    then show False using k(4) \<open>k \<noteq> 4\<close> j(2) by simp
  qed
  ultimately show ?thesis using k by (intro exI [of _ k]) auto
qed

theorem rtf_cap_least_witness: "\<exists>k. rtf_cap 61 (word_of_int 9 * 2) 16 = Some (2 ^ k) \<and> k \<le> 5"
  using rtf_cap_least [of 9] by (auto intro: exI [of _ 5])

text \<open>
  Attaching puts one filter on both nodes, also when the join node and the probe node are the same,
  copies its key count, zeroes the four counters and touches no other node.
\<close>

theorem rtf_attach_both:
  assumes "nodes' = unitseam_rtf_attach j t f cell filters nodes"
  shows "hj_rtf (nodes' j) = Some f \<and> xn_rtf (nodes' t) = Some f \<and> xn_rtf_val (nodes' t) = Some cell
    \<and> hj_rtf_keys (nodes' j) = unitseam_rtf_n_keys (filters f)
    \<and> hj_rtf_rows (nodes' j) = 0 \<and> hj_rtf_dropped (nodes' j) = 0
    \<and> xn_rtf_rows (nodes' t) = 0 \<and> xn_rtf_dropped (nodes' t) = 0
    \<and> (\<forall>x. x \<noteq> j \<longrightarrow> x \<noteq> t \<longrightarrow> nodes' x = nodes x)"
  using assms by (auto simp: unitseam_rtf_attach_def unitseam_rtf_n_keys_def Let_def)

theorem rtf_attach_both_witness:
  "xn_rtf (unitseam_rtf_attach 1 1 5 8 (\<lambda>_. rtf_empty 16 0) (\<lambda>_. \<lparr>hj_rtf = None, hj_rtf_keys = 3, hj_rtf_rows = 4,
     hj_rtf_dropped = 5, xn_rtf = None, xn_rtf_val = None, xn_rtf_rows = 6, xn_rtf_dropped = 7\<rparr>) 1) = Some 5"
  using rtf_attach_both [OF refl] by blast

end
