(* ===== verification/GbyEvict.thy ===== *)
theory GbyEvict
  imports Ring
begin

text \<open>
  The eviction scenario of \<open>src/unit/query/query_executor.gby_cache_evicted/hooks.cpp\<close>: a hand-built
  page-batch GROUP BY cache whose \<open>n\<close> groups form one linear-probe cluster, the note of the groups
  taken for evicted, the engine's \<open>qexec_gby_cache_evicted\<close> over that note, and the count of what is
  left. The engine's three functions (the pool reset, the eviction, the lookup) and the cache size are
  parameters.
\<close>

section \<open>The cache\<close>

text \<open>
  \<open>QEXEC_GBY_ENTRY\<close>: \<open>ge_value\<close> is the index into \<open>vals\<close> that the pointer means,
  \<open>ge_bytes\<close> the pool buffer that holds the key, \<open>ge_key\<close> the key copy (\<open>None\<close>: NULL).
\<close>

record gby_entry =
  ge_bytes :: nat
  ge_hash :: u32
  ge_len :: int
  ge_value :: nat
  ge_key :: "nat option"
  ge_count :: int
  ge_placed :: int

text \<open>
  \<open>QEXEC_BATCH_GBY\<close>, the first byte of each pool buffer and the \<open>batch_slot\<close> of each value.
\<close>

record batch_gby =
  bg_cache :: "gby_entry list"
  bg_pool_free :: "nat list"
  bg_n_pool_free :: nat
  bg_n_cached :: int
  bg_key_pool :: "nat \<Rightarrow> u8"
  bg_batch_slot :: "nat \<Rightarrow> int"

text \<open>The cache as allocated: only the lengths are set, to -1; \<open>junk\<close> is what \<open>malloc\<close> left.\<close>

definition gby_fresh :: "nat \<Rightarrow> (nat \<Rightarrow> gby_entry) \<Rightarrow> (nat \<Rightarrow> u8) \<Rightarrow> nat list \<Rightarrow> batch_gby" where
  "gby_fresh slots junk bytes pool =
     \<lparr>bg_cache = map (\<lambda>k. (junk k)\<lparr>ge_len := - 1\<rparr>) [0..<slots], bg_pool_free = pool, bg_n_pool_free = 0,
      bg_n_cached = 0, bg_key_pool = bytes, bg_batch_slot = (\<lambda>_. 0)\<rparr>"

definition gby_free_slot :: "nat \<Rightarrow> int \<Rightarrow> batch_gby \<Rightarrow> u32 option" where
  "gby_free_slot slots home st =
     probe (\<lambda>s. \<not> 0 \<le> ge_len (bg_cache st ! unat s)) (of_nat slots - 1) slots (word_of_int home AND (of_nat slots - 1))"

text \<open>
  Filling slot \<open>s\<close> for group \<open>i\<close>: the next pool buffer with the group's byte as the key, the
  entry, the value's \<open>batch_slot\<close> and the count.
\<close>

definition gby_put :: "u32 \<Rightarrow> u32 \<Rightarrow> nat \<Rightarrow> 'a batch_gby_scheme \<Rightarrow> 'a batch_gby_scheme" where
  "gby_put s hsh i st =
     (let np = bg_n_pool_free st - 1;
          buf = bg_pool_free st ! np;
          e = (bg_cache st ! unat s)\<lparr>ge_bytes := buf, ge_hash := hsh, ge_len := 1, ge_value := i,
                 ge_key := None, ge_count := 0, ge_placed := 0\<rparr>
      in st\<lparr>bg_cache := (bg_cache st)[unat s := e], bg_n_pool_free := np,
            bg_key_pool := (bg_key_pool st)(buf := of_nat i),
            bg_batch_slot := (bg_batch_slot st)(i := uint s), bg_n_cached := bg_n_cached st + 1\<rparr>)"

text \<open>One pass of the build loop: group \<open>i\<close> of the cluster and, unless it is kept, its note.\<close>

definition gby_place ::
    "nat \<Rightarrow> int \<Rightarrow> u32 \<Rightarrow> nat \<Rightarrow> batch_gby \<times> (nat \<times> int) list \<Rightarrow> (batch_gby \<times> (nat \<times> int) list) option" where
  "gby_place slots home keep_mask i = (\<lambda>(st, noted).
     (case gby_free_slot slots home st of None \<Rightarrow> None
      | Some s \<Rightarrow> Some (gby_put s (word_of_int home) i st,
                        if \<not> bit keep_mask i then noted @ [(i, uint s)] else noted)))"

primrec gby_build ::
    "nat \<Rightarrow> int \<Rightarrow> u32 \<Rightarrow> nat list \<Rightarrow> batch_gby \<times> (nat \<times> int) list \<Rightarrow> (batch_gby \<times> (nat \<times> int) list) option" where
  "gby_build slots home keep_mask [] s = Some s"
| "gby_build slots home keep_mask (i # is) s =
     (case gby_place slots home keep_mask i s of None \<Rightarrow> None | Some s' \<Rightarrow> gby_build slots home keep_mask is s')"

text \<open>The counts the scenario returns.\<close>

record evict_counts =
  ec_n_left :: int
  ec_pool_balanced :: bool
  ec_stale_found :: nat
  ec_stale_slot :: int
  ec_kept_found :: nat

text \<open>One pass of the counting loop; \<open>look\<close> is \<open>qexec_gby_cache_find\<close>: the slot of the entry.\<close>

definition gby_count ::
    "(batch_gby \<Rightarrow> u8 \<Rightarrow> int \<Rightarrow> u32 \<Rightarrow> nat option) \<Rightarrow> batch_gby \<Rightarrow> int \<Rightarrow> u32 \<Rightarrow> nat \<Rightarrow> evict_counts \<Rightarrow> evict_counts" where
  "gby_count look st home keep_mask i c =
     (let e = look st (of_nat i) 1 (word_of_int home)
      in if bit keep_mask i
         then (case e of Some s \<Rightarrow> (if ge_value (bg_cache st ! s) = i then c\<lparr>ec_kept_found := ec_kept_found c + 1\<rparr> else c)
               | None \<Rightarrow> c)
         else (case e of Some s \<Rightarrow> c\<lparr>ec_stale_found := ec_stale_found c + 1, ec_stale_slot := int s\<rparr> | None \<Rightarrow> c))"

definition unitseam_gby_evict_scenario_keep ::
    "nat \<Rightarrow> (batch_gby \<Rightarrow> batch_gby) \<Rightarrow> (batch_gby \<Rightarrow> (nat \<times> int) list \<Rightarrow> batch_gby) \<Rightarrow>
     (batch_gby \<Rightarrow> u8 \<Rightarrow> int \<Rightarrow> u32 \<Rightarrow> nat option) \<Rightarrow> batch_gby \<Rightarrow> nat \<Rightarrow> int \<Rightarrow> u32 \<Rightarrow> evict_counts option" where
  "unitseam_gby_evict_scenario_keep slots pool_reset evicted look fresh n home keep_mask =
     (case gby_build slots home keep_mask [0..<n] (pool_reset fresh, []) of None \<Rightarrow> None
      | Some (st, noted) \<Rightarrow>
         (let st1 = evicted st noted
          in Some (fold (gby_count look st1 home keep_mask) [0..<n]
               \<lparr>ec_n_left = bg_n_cached st1,
                ec_pool_balanced = (int (bg_n_pool_free st1) + bg_n_cached st1 = int (slots div 2)),
                ec_stale_found = 0, ec_stale_slot = - 1, ec_kept_found = 0\<rparr>)))"

definition unitseam_gby_evict_scenario ::
    "nat \<Rightarrow> (batch_gby \<Rightarrow> batch_gby) \<Rightarrow> (batch_gby \<Rightarrow> (nat \<times> int) list \<Rightarrow> batch_gby) \<Rightarrow>
     (batch_gby \<Rightarrow> u8 \<Rightarrow> int \<Rightarrow> u32 \<Rightarrow> nat option) \<Rightarrow> batch_gby \<Rightarrow> nat \<Rightarrow> int \<Rightarrow> (int \<times> nat \<times> int) option" where
  "unitseam_gby_evict_scenario slots pool_reset evicted look fresh n_evict home =
     map_option (\<lambda>c. (ec_n_left c, ec_stale_found c, ec_stale_slot c))
       (unitseam_gby_evict_scenario_keep slots pool_reset evicted look fresh n_evict home 0)"

section \<open>The cluster\<close>

text \<open>
  A cache with its first \<open>m\<close> groups filled in, over a pool of \<open>2 ^ k div 2\<close> distinct buffers:
  group \<open>i\<close> in slot \<open>pos i\<close>, with the buffer popped \<open>i\<close>-th.
\<close>

definition gby_filled :: "nat \<Rightarrow> (nat \<Rightarrow> u32) \<Rightarrow> (nat \<Rightarrow> u32) \<Rightarrow> nat list \<Rightarrow> nat \<Rightarrow> 'a batch_gby_scheme \<Rightarrow> bool" where
  "gby_filled k pos hsh pool m st \<longleftrightarrow>
     length (bg_cache st) = 2 ^ k \<and> bg_pool_free st = pool \<and> bg_n_pool_free st = 2 ^ k div 2 - m \<and> bg_n_cached st = int m \<and>
     (\<forall>s :: u32. in_ring k s \<longrightarrow> (0 \<le> ge_len (bg_cache st ! unat s) \<longleftrightarrow> (\<exists>i < m. s = pos i))) \<and>
     (\<forall>i < m. let e = bg_cache st ! unat (pos i) in
        ge_len e = 1 \<and> ge_value e = i \<and> ge_hash e = hsh i \<and> ge_key e = None \<and> ge_count e = 0 \<and> ge_placed e = 0 \<and>
        ge_bytes e = pool ! (2 ^ k div 2 - 1 - i) \<and> bg_key_pool st (ge_bytes e) = of_nat i \<and>
        bg_batch_slot st i = uint (pos i))"

text \<open>The cluster of the eviction scenario, with its note.\<close>

definition gby_made :: "nat \<Rightarrow> int \<Rightarrow> u32 \<Rightarrow> nat list \<Rightarrow> nat \<Rightarrow> batch_gby \<times> (nat \<times> int) list \<Rightarrow> bool" where
  "gby_made k home keep_mask pool m = (\<lambda>(st, noted).
     gby_filled k (ring_pos k (word_of_int home)) (\<lambda>_. word_of_int home) pool m st \<and>
     noted = map (\<lambda>i. (i, uint (ring_pos k (word_of_int home :: u32) i))) (filter (\<lambda>i. \<not> bit keep_mask i) [0..<m]))"

lemma ring_mask: "k < 32 \<Longrightarrow> of_nat (2 ^ k) - 1 = (mask k :: u32)"
  by (simp add: mask_eq_exp_minus_1)

lemma ring_pos_masked: "ring_pos k (h AND mask k) t = ring_pos k (h :: u32) t" if "k \<le> 32"
proof -
  have "unat (ring_pos k (h AND mask k) t) = unat (ring_pos k h t)"
    using that by (simp add: unat_ring_pos unat_and_mask mod_add_left_eq)
  then show ?thesis by (simp add: word_unat_eq_iff)
qed

lemma gby_free_slot_made:
  assumes k: "k < 32" and m: "m < 2 ^ k" and made: "gby_made k home keep_mask pool m (st, noted)"
  shows "gby_free_slot (2 ^ k) home st = Some (ring_pos k (word_of_int home) m)"
proof -
  have k': "k \<le> LENGTH(32)" using k by simp
  have occ: "0 \<le> ge_len (bg_cache st ! unat s) \<longleftrightarrow> (\<exists>i < m. s = ring_pos k (word_of_int home) i)"
    if "in_ring k s" for s :: u32
    using made that by (simp add: gby_made_def gby_filled_def)
  let ?stop = "\<lambda>s :: u32. \<not> 0 \<le> ge_len (bg_cache st ! unat s)"
  let ?home = "word_of_int home AND mask k :: u32"
  have pos: "ring_pos k (word_of_int home) t = ring_pos k ?home t" for t
    using k by (simp add: ring_pos_masked)
  have stop: "?stop (ring_pos k (word_of_int home) m)"
  proof -
    have "\<not> (\<exists>i < m. ring_pos k (word_of_int home :: u32) m = ring_pos k (word_of_int home) i)"
      using ring_pos_inj [OF k', of "word_of_int home" m] m by (metis less_irrefl less_trans)
    then show ?thesis using occ [OF ring_pos_in] by blast
  qed
  have go: "\<not> ?stop (ring_pos k ?home t)" if "t < m" for t
    using occ [OF ring_pos_in, of "word_of_int home" t] that pos by auto
  have "probe ?stop (mask k) (2 ^ k) ?home = Some (ring_pos k (word_of_int home) m)"
    by (rule probe_SomeI [where stop = ?stop, OF k' in_ring_masked m pos stop go])
  then show ?thesis unfolding gby_free_slot_def ring_mask [OF k] .
qed

lemma gby_put_filled:
  assumes k: "k < 32" and m: "m < 2 ^ k div 2" and pool: "distinct pool" "length pool = 2 ^ k div 2"
    and pos: "\<And>i. in_ring k (pos i)" "\<And>i. i < m \<Longrightarrow> pos i \<noteq> pos m"
    and made: "gby_filled k pos hsh pool m st"
  shows "gby_filled k pos hsh pool (Suc m) (gby_put (pos m) (hsh m) m st)"
proof -
  let ?half = "2 ^ k div 2 :: nat"
  have k': "k \<le> LENGTH(32)" using k by simp
  obtain np buf e where d: "np = bg_n_pool_free st - 1" "buf = bg_pool_free st ! np"
    "e = (bg_cache st ! unat (pos m))\<lparr>ge_bytes := buf, ge_hash := hsh m, ge_len := 1, ge_value := m,
                     ge_key := None, ge_count := 0, ge_placed := 0\<rparr>" by blast
  obtain st' where r: "st' = st\<lparr>bg_cache := (bg_cache st)[unat (pos m) := e], bg_n_pool_free := np,
                      bg_key_pool := (bg_key_pool st)(buf := of_nat m),
                      bg_batch_slot := (bg_batch_slot st)(m := uint (pos m)), bg_n_cached := bg_n_cached st + 1\<rparr>" by blast
  have len: "length (bg_cache st) = 2 ^ k" and np: "np = ?half - 1 - m" "buf = pool ! (?half - 1 - m)"
    and old: "bg_n_cached st = int m" "bg_pool_free st = pool"
    using made d by (simp_all add: gby_filled_def)
  have b: "unat (pos i) < 2 ^ k" for i using in_ring_unat [OF k'] pos(1) by blast
  have ne: "unat (pos i) \<noteq> unat (pos m)" if "i < m" for i using pos(2) [OF that] by (simp add: word_unat_eq_iff)
  have occ: "0 \<le> ge_len (bg_cache st' ! unat s) \<longleftrightarrow> (\<exists>i < Suc m. s = pos i)" if s: "in_ring k s" for s :: u32
  proof (cases "s = pos m")
    case True
    then show ?thesis using b [of m] len by (auto simp: r d(3))
  next
    case False
    then have "unat s \<noteq> unat (pos m)" by (simp add: word_unat_eq_iff)
    moreover have "0 \<le> ge_len (bg_cache st ! unat s) \<longleftrightarrow> (\<exists>i < m. s = pos i)" using made s by (simp add: gby_filled_def)
    ultimately show ?thesis using False by (simp add: r less_Suc_eq ex_disj_distrib) blast
  qed
  have entry: "let e = bg_cache st' ! unat (pos i) in
        ge_len e = 1 \<and> ge_value e = i \<and> ge_hash e = hsh i \<and> ge_key e = None \<and> ge_count e = 0 \<and> ge_placed e = 0 \<and>
        ge_bytes e = pool ! (?half - 1 - i) \<and> bg_key_pool st' (ge_bytes e) = of_nat i \<and>
        bg_batch_slot st' i = uint (pos i)" if "i < Suc m" for i
  proof (cases "i = m")
    case True
    then show ?thesis using b [of m] len by (simp add: r d(3) np(2) Let_def)
  next
    case False
    then have i: "i < m" using that by simp
    then have "pool ! (?half - 1 - i) \<noteq> buf" unfolding np(2) using pool m by (simp add: nth_eq_iff_index_eq)
    moreover have "let e = bg_cache st ! unat (pos i) in
        ge_len e = 1 \<and> ge_value e = i \<and> ge_hash e = hsh i \<and> ge_key e = None \<and> ge_count e = 0 \<and> ge_placed e = 0 \<and>
        ge_bytes e = pool ! (?half - 1 - i) \<and> bg_key_pool st (ge_bytes e) = of_nat i \<and>
        bg_batch_slot st i = uint (pos i)" using made i by (simp add: gby_filled_def)
    ultimately show ?thesis using ne [OF i] False by (auto simp: r Let_def)
  qed
  have "gby_filled k pos hsh pool (Suc m) st'"
    unfolding gby_filled_def using occ entry len old np m by (simp add: r)
  moreover have "gby_put (pos m) (hsh m) m st = st'" unfolding gby_put_def Let_def r d by simp
  ultimately show ?thesis by simp
qed

lemma gby_place_made:
  assumes k: "k < 32" and m: "m < 2 ^ k div 2" and pool: "distinct pool" "length pool = 2 ^ k div 2"
    and made: "gby_made k home keep_mask pool m (st, noted)"
  shows "\<exists>st' noted'. gby_place (2 ^ k) home keep_mask m (st, noted) = Some (st', noted')
    \<and> gby_made k home keep_mask pool (Suc m) (st', noted')"
proof -
  let ?pos = "ring_pos k (word_of_int home :: u32)"
  have m2: "m < 2 ^ k" using m by simp
  have ne: "?pos i \<noteq> ?pos m" if "i < m" for i
    using ring_pos_inj [of k "word_of_int home :: u32" i m] that m2 k by auto
  have "gby_filled k ?pos (\<lambda>_. word_of_int home) pool (Suc m) (gby_put (?pos m) (word_of_int home) m st)"
    using made by (intro gby_put_filled [where pos = ?pos and hsh = "\<lambda>_. word_of_int home", OF k m pool ring_pos_in ne])
      (simp_all add: gby_made_def)
  then show ?thesis
    unfolding gby_place_def prod.case gby_free_slot_made [OF k m2 made] using made by (simp add: gby_made_def)
qed

lemma gby_build_made:
  assumes k: "k < 32" and pool: "distinct pool" "length pool = 2 ^ k div 2"
  shows "gby_made k home keep_mask pool m s \<Longrightarrow> m + n \<le> 2 ^ k div 2 \<Longrightarrow>
    \<exists>s'. gby_build (2 ^ k) home keep_mask [m..<m + n] s = Some s' \<and> gby_made k home keep_mask pool (m + n) s'"
proof (induction n arbitrary: m s)
  case (Suc n)
  obtain st noted where s: "s = (st, noted)" by (cases s)
  have "m < 2 ^ k div 2" using Suc.prems(2) by simp
  then obtain st' noted' where p: "gby_place (2 ^ k) home keep_mask m (st, noted) = Some (st', noted')"
    "gby_made k home keep_mask pool (Suc m) (st', noted')"
    using gby_place_made [OF k _ pool] Suc.prems(1) s by blast
  have "Suc m + n \<le> 2 ^ k div 2" using Suc.prems(2) by simp
  from Suc.IH [OF p(2) this] obtain s' where
    "gby_build (2 ^ k) home keep_mask [Suc m..<Suc m + n] (st', noted') = Some s'"
    "gby_made k home keep_mask pool (Suc m + n) s'" by blast
  moreover have "[m..<m + Suc n] = m # [Suc m..<Suc m + n]" by (simp add: upt_conv_Cons)
  ultimately show ?case using p(1) s by simp
qed simp

lemma gby_fresh_made:
  assumes k: "k < 32" and pool: "length pool = 2 ^ k div 2"
    and reset: "pool_reset (gby_fresh (2 ^ k) junk bytes free) =
      (gby_fresh (2 ^ k) junk bytes free)\<lparr>bg_pool_free := pool, bg_n_pool_free := 2 ^ k div 2\<rparr>"
  shows "gby_made k home keep_mask pool 0 (pool_reset (gby_fresh (2 ^ k) junk bytes free), [])"
proof -
  have "ge_len (bg_cache (gby_fresh (2 ^ k) junk bytes free) ! unat s) = - 1" if "in_ring k s" for s :: u32
  proof -
    have "unat s < 2 ^ k" using that in_ring_unat [of k s] k by simp
    then show ?thesis by (simp add: gby_fresh_def)
  qed
  then show ?thesis unfolding gby_made_def gby_filled_def reset by (simp add: gby_fresh_def)
qed

section \<open>The counts\<close>

lemma gby_count_fold:
  "fold (gby_count look st home keep_mask) is c =
     c\<lparr>ec_kept_found := ec_kept_found c + length (filter (\<lambda>i. bit keep_mask i \<and>
          (\<exists>s. look st (of_nat i) 1 (word_of_int home) = Some s \<and> ge_value (bg_cache st ! s) = i)) is),
       ec_stale_found := ec_stale_found c + length (filter (\<lambda>i. \<not> bit keep_mask i \<and>
          look st (of_nat i) 1 (word_of_int home) \<noteq> None) is),
       ec_stale_slot := (case rev (filter (\<lambda>i. \<not> bit keep_mask i \<and> look st (of_nat i) 1 (word_of_int home) \<noteq> None) is) of
          [] \<Rightarrow> ec_stale_slot c | i # _ \<Rightarrow> int (the (look st (of_nat i) 1 (word_of_int home))))\<rparr>"
proof (induction "is" arbitrary: c)
  case (Cons i "is")
  show ?case unfolding fold_simps o_apply Cons.IH
    by (auto simp: gby_count_def Let_def split: option.splits list.splits)
qed simp

section \<open>Properties\<close>

lemma filter_empty_iff: "length (filter P xs) = 0 \<longleftrightarrow> (\<forall>x \<in> set xs. \<not> P x)"
  by (simp add: filter_empty_conv)

lemma filter_full_iff: "length (filter (\<lambda>x. Q x \<and> P x) xs) = length (filter Q xs) \<longleftrightarrow> (\<forall>x \<in> set xs. Q x \<longrightarrow> P x)"
proof (induction xs)
  case (Cons x xs)
  have "length (filter (\<lambda>x. Q x \<and> P x) xs) \<le> length (filter Q xs)" by (induction xs) auto
  then show ?case using Cons.IH by (cases "Q x"; cases "P x"; simp)
qed simp

text \<open>The groups of the cluster that are kept.\<close>

definition gby_kept :: "nat \<Rightarrow> u32 \<Rightarrow> int" where
  "gby_kept n keep_mask = int (length (filter (\<lambda>i. bit keep_mask i) [0..<n]))"

text \<open>
  What the scenario's numbers are made for: the engine's state after the eviction has as many
  entries as groups were kept, every other buffer back in the pool, each kept group found with its
  own value and no evicted group found.
\<close>

definition evict_right :: "nat \<Rightarrow> (batch_gby \<Rightarrow> u8 \<Rightarrow> int \<Rightarrow> u32 \<Rightarrow> nat option) \<Rightarrow> batch_gby \<Rightarrow> nat \<Rightarrow> int \<Rightarrow> u32 \<Rightarrow> bool" where
  "evict_right slots look st n home keep_mask \<longleftrightarrow>
     bg_n_cached st = gby_kept n keep_mask \<and> int (bg_n_pool_free st) = int (slots div 2) - gby_kept n keep_mask \<and>
     (\<forall>i < n. if bit keep_mask i
        then (\<exists>s. look st (of_nat i) 1 (word_of_int home) = Some s \<and> ge_value (bg_cache st ! s) = i)
        else look st (of_nat i) 1 (word_of_int home) = None)"

lemma counts_right:
  "fold (gby_count look st home keep_mask) [0..<n]
     \<lparr>ec_n_left = bg_n_cached st, ec_pool_balanced = (int (bg_n_pool_free st) + bg_n_cached st = int (slots div 2)),
      ec_stale_found = 0, ec_stale_slot = - 1, ec_kept_found = 0\<rparr>
   = \<lparr>ec_n_left = gby_kept n keep_mask, ec_pool_balanced = True, ec_stale_found = 0, ec_stale_slot = - 1,
      ec_kept_found = nat (gby_kept n keep_mask)\<rparr> \<longleftrightarrow> evict_right slots look st n home keep_mask"
proof -
  let ?look = "\<lambda>i. look st (of_nat i) 1 (word_of_int home)"
  let ?stale = "filter (\<lambda>i. \<not> bit keep_mask i \<and> ?look i \<noteq> None) [0..<n]"
  let ?own = "\<lambda>i. \<exists>s. ?look i = Some s \<and> ge_value (bg_cache st ! s) = i"
  have st: "length ?stale = 0 \<longleftrightarrow> (\<forall>i < n. \<not> bit keep_mask i \<longrightarrow> ?look i = None)"
    unfolding filter_empty_iff by auto
  have kp: "length (filter (\<lambda>i. bit keep_mask i \<and> ?own i) [0..<n]) = nat (gby_kept n keep_mask) \<longleftrightarrow>
      (\<forall>i < n. bit keep_mask i \<longrightarrow> ?own i)"
    unfolding gby_kept_def nat_int filter_full_iff by auto
  have slot: "length ?stale = 0 \<Longrightarrow> (case rev ?stale of [] \<Rightarrow> - 1 | i # _ \<Rightarrow> int (the (?look i))) = - 1" by simp
  have "fold (gby_count look st home keep_mask) [0..<n]
     \<lparr>ec_n_left = bg_n_cached st, ec_pool_balanced = (int (bg_n_pool_free st) + bg_n_cached st = int (slots div 2)),
      ec_stale_found = 0, ec_stale_slot = - 1, ec_kept_found = 0\<rparr>
   = \<lparr>ec_n_left = gby_kept n keep_mask, ec_pool_balanced = True, ec_stale_found = 0, ec_stale_slot = - 1,
      ec_kept_found = nat (gby_kept n keep_mask)\<rparr> \<longleftrightarrow>
     bg_n_cached st = gby_kept n keep_mask \<and> int (bg_n_pool_free st) + bg_n_cached st = int (slots div 2) \<and>
     length ?stale = 0 \<and> length (filter (\<lambda>i. bit keep_mask i \<and> ?own i) [0..<n]) = nat (gby_kept n keep_mask)"
    unfolding gby_count_fold using slot by auto
  also have "\<dots> \<longleftrightarrow> evict_right slots look st n home keep_mask"
    unfolding st kp evict_right_def by auto
  finally show ?thesis .
qed

text \<open>
  C28. The build loop always ends and makes one cluster: group \<open>i\<close> sits \<open>i\<close> slots after the home
  slot, wrapping at the end of the table, each with a pool buffer of its own that holds its key, the
  counters agree with it, and the note names exactly the groups that are not kept, with their slots.
\<close>

theorem evict_cluster_built:
  assumes "k < 32" "distinct pool" "length pool = 2 ^ k div 2" "n \<le> 2 ^ k div 2"
    and "pool_reset (gby_fresh (2 ^ k) junk bytes free) =
      (gby_fresh (2 ^ k) junk bytes free)\<lparr>bg_pool_free := pool, bg_n_pool_free := 2 ^ k div 2\<rparr>"
  shows "\<exists>s. gby_build (2 ^ k) home keep_mask [0..<n] (pool_reset (gby_fresh (2 ^ k) junk bytes free), []) = Some s
    \<and> gby_made k home keep_mask pool n s"
  using gby_build_made [OF assms(1-3) gby_fresh_made [where pool_reset = pool_reset, OF assms(1,3,5)],
      of n home keep_mask] assms(4) by simp

definition any_entry :: gby_entry where
  "any_entry = \<lparr>ge_bytes = 9, ge_hash = 8, ge_len = 7, ge_value = 6, ge_key = Some 3, ge_count = 5, ge_placed = 4\<rparr>"

theorem evict_cluster_built_witness:
  "\<exists>s. gby_build 8 7 2 [0..<3] (gby_fresh 8 (\<lambda>_. any_entry) (\<lambda>_. 0) [0, 1, 2, 3]\<lparr>bg_n_pool_free := 4\<rparr>, []) = Some s
    \<and> gby_made 3 7 2 [0, 1, 2, 3] 3 s"
  using evict_cluster_built [of 3 "[0, 1, 2, 3]" 3 "\<lambda>st. st\<lparr>bg_pool_free := [0, 1, 2, 3], bg_n_pool_free := 4\<rparr>"
      "\<lambda>_. any_entry" "\<lambda>_. 0" "[0, 1, 2, 3]" 7 2] by (simp add: gby_fresh_def)

text \<open>
  C5. The eviction scenario returns the numbers of a right eviction (as many left as kept, pool
  balanced, none stale, all kept found) exactly when the engine's state after the eviction is right.
\<close>

theorem evict_scenario_decides:
  assumes "k < 32" "distinct pool" "length pool = 2 ^ k div 2" "n \<le> 2 ^ k div 2"
    and "pool_reset (gby_fresh (2 ^ k) junk bytes free) =
      (gby_fresh (2 ^ k) junk bytes free)\<lparr>bg_pool_free := pool, bg_n_pool_free := 2 ^ k div 2\<rparr>"
  shows "\<exists>st noted. gby_made k home keep_mask pool n (st, noted) \<and>
    (unitseam_gby_evict_scenario_keep (2 ^ k) pool_reset evicted look (gby_fresh (2 ^ k) junk bytes free) n home keep_mask
       = Some \<lparr>ec_n_left = gby_kept n keep_mask, ec_pool_balanced = True, ec_stale_found = 0, ec_stale_slot = - 1,
               ec_kept_found = nat (gby_kept n keep_mask)\<rparr>
     \<longleftrightarrow> evict_right (2 ^ k) look (evicted st noted) n home keep_mask)"
proof -
  obtain st noted where b: "gby_build (2 ^ k) home keep_mask [0..<n] (pool_reset (gby_fresh (2 ^ k) junk bytes free), [])
      = Some (st, noted)" "gby_made k home keep_mask pool n (st, noted)"
    using gby_build_made [OF assms(1-3) gby_fresh_made [where pool_reset = pool_reset, OF assms(1,3,5)],
        of n home keep_mask] assms(4) by auto
  show ?thesis
    by (intro exI conjI, rule b(2))
      (simp only: unitseam_gby_evict_scenario_keep_def b(1) option.case prod.case Let_def option.inject counts_right)
qed

theorem evict_scenario_decides_witness:
  "unitseam_gby_evict_scenario_keep 8 (\<lambda>st. st\<lparr>bg_pool_free := [0, 1, 2, 3], bg_n_pool_free := 4\<rparr>)
     (\<lambda>st noted. st\<lparr>bg_n_cached := 0, bg_n_pool_free := 4\<rparr>) (\<lambda>_ _ _ _. None)
     (gby_fresh 8 (\<lambda>_. any_entry) (\<lambda>_. 0) [0, 1, 2, 3]) 3 7 0
   = Some \<lparr>ec_n_left = 0, ec_pool_balanced = True, ec_stale_found = 0, ec_stale_slot = - 1, ec_kept_found = 0\<rparr>"
proof -
  have k0: "gby_kept 3 0 = 0" by (simp add: gby_kept_def)
  have "evict_right 8 (\<lambda>_ _ _ _. None) (st\<lparr>bg_n_cached := 0, bg_n_pool_free := 4\<rparr>) 3 7 0" for st
    by (simp add: evict_right_def k0)
  then show ?thesis
    using evict_scenario_decides [of 3 "[0, 1, 2, 3]" 3 "\<lambda>st. st\<lparr>bg_pool_free := [0, 1, 2, 3], bg_n_pool_free := 4\<rparr>"
      "\<lambda>_. any_entry" "\<lambda>_. 0" "[0, 1, 2, 3]" 7 0 "\<lambda>st noted. st\<lparr>bg_n_cached := 0, bg_n_pool_free := 4\<rparr>"
      "\<lambda>_ _ _ _. None"] k0 by (simp add: gby_fresh_def)
qed

end
