(* ===== verification/GbyFlush.thy ===== *)
theory GbyFlush
  imports GbyEvict
begin

text \<open>
  The flush and cache scenarios of \<open>src/unit/query/query_executor.h_gby_flush_replay/hooks.cpp\<close>: the
  fakes that record what the GROUP BY node's flush hands to the aggregates, to the hash table and to
  its callbacks; the state the flush is driven on; and the report read back from the records. The
  engine's functions (flush, cache add, find, clear, hash, pool reset) are parameters. A function that
  calls fakes answers the list of its calls: no fake's answer depends on an earlier call.
\<close>

definition H_MAX_ROWS :: nat where "H_MAX_ROWS = 256"
definition H_MAX_CALLS :: nat where "H_MAX_CALLS = 64"

section \<open>The fakes\<close>

text \<open>The static records of the fakes. Pointers are addresses, \<open>None\<close> the null pointer.\<close>

record h_recorder =
  h_get_keys :: "nat \<Rightarrow> nat option"
  h_n_get :: nat
  h_get_result :: "nat option"
  h_eval_acc :: "nat \<Rightarrow> nat option"
  h_eval_n :: "nat \<Rightarrow> int"
  h_eval_sel :: "nat \<Rightarrow> nat \<Rightarrow> int"
  h_n_eval :: nat
  h_n_dump :: nat
  h_n_copy :: nat
  h_n_free_key :: nat
  h_n_sync :: nat

text \<open>\<open>for (j = 0; j < n && j < H_MAX_ROWS; j++) to[j] = from[j]\<close>.\<close>

fun copy_rows :: "nat \<Rightarrow> (nat \<Rightarrow> int) \<Rightarrow> nat \<Rightarrow> int \<Rightarrow> (nat \<Rightarrow> int) \<Rightarrow> nat \<Rightarrow> int" where
  "copy_rows 0 src j n dst = dst"
| "copy_rows (Suc room) src j n dst =
     (if int j < n then copy_rows room src (Suc j) n (dst(j := src j)) else dst)"

definition qdata_evaluate_aggregate_batch ::
    "nat option \<Rightarrow> (nat \<Rightarrow> int) \<Rightarrow> int \<Rightarrow> h_recorder \<Rightarrow> int \<times> h_recorder" where
  "qdata_evaluate_aggregate_batch alt_acc_list sel n_sel r =
     (0,
      (if h_n_eval r < H_MAX_CALLS
       then r\<lparr>h_eval_acc := (h_eval_acc r)(h_n_eval r := alt_acc_list),
              h_eval_n := (h_eval_n r)(h_n_eval r := n_sel),
              h_eval_sel := (h_eval_sel r)(h_n_eval r := copy_rows H_MAX_ROWS sel 0 n_sel (h_eval_sel r (h_n_eval r))),
              h_n_eval := h_n_eval r + 1\<rparr>
       else r\<lparr>h_n_eval := h_n_eval r + 1\<rparr>))"

definition qdata_get_agg_hvalue_size :: "'v \<Rightarrow> bool \<Rightarrow> int" where
  "qdata_get_agg_hvalue_size val ret_delta = 0"

definition mht_get :: "nat option \<Rightarrow> h_recorder \<Rightarrow> nat option \<times> h_recorder" where
  "mht_get key r =
     (h_get_result r,
      (if h_n_get r < H_MAX_CALLS * 4 then r\<lparr>h_get_keys := (h_get_keys r)(h_n_get r := key), h_n_get := h_n_get r + 1\<rparr>
       else r\<lparr>h_n_get := h_n_get r + 1\<rparr>))"

definition qdata_save_agg_htable_to_list :: "h_recorder \<Rightarrow> int \<times> h_recorder" where
  "qdata_save_agg_htable_to_list r = (0, r\<lparr>h_n_dump := h_n_dump r + 1\<rparr>)"

definition qdata_copy_agg_hkey :: "nat \<Rightarrow> h_recorder \<Rightarrow> nat option \<times> h_recorder" where
  "qdata_copy_agg_hkey fresh_block r = (Some fresh_block, r\<lparr>h_n_copy := h_n_copy r + 1\<rparr>)"

definition qdata_free_agg_hkey :: "h_recorder \<Rightarrow> h_recorder" where
  "qdata_free_agg_hkey r = r\<lparr>h_n_free_key := h_n_free_key r + 1\<rparr>"

definition h_sync :: "h_recorder \<Rightarrow> h_recorder" where
  "h_sync r = r\<lparr>h_n_sync := h_n_sync r + 1\<rparr>"

text \<open>A call of a fake by the engine, with the arguments the fake looks at.\<close>

datatype fake_call =
    EvalBatch "nat option" "nat \<Rightarrow> int" int
  | MhtGet "nat option"
  | SaveHtable
  | CopyKey nat
  | FreeKey
  | Sync

fun fake_step :: "fake_call \<Rightarrow> h_recorder \<Rightarrow> h_recorder" where
  "fake_step (EvalBatch acc sel n) r = snd (qdata_evaluate_aggregate_batch acc sel n r)"
| "fake_step (MhtGet key) r = snd (mht_get key r)"
| "fake_step SaveHtable r = snd (qdata_save_agg_htable_to_list r)"
| "fake_step (CopyKey b) r = snd (qdata_copy_agg_hkey b r)"
| "fake_step FreeKey r = qdata_free_agg_hkey r"
| "fake_step Sync r = h_sync r"

definition fake_steps :: "fake_call list \<Rightarrow> h_recorder \<Rightarrow> h_recorder" where
  "fake_steps = fold fake_step"

section \<open>The flush scenario\<close>

record h_flush_result =
  hr_done :: int
  hr_n_calls :: int
  hr_call_group :: "nat \<Rightarrow> int"
  hr_call_n :: "nat \<Rightarrow> int"
  hr_call_sel :: "nat \<Rightarrow> nat \<Rightarrow> int"
  hr_n_touch :: int
  hr_touch_group :: "nat \<Rightarrow> int"
  hr_off :: int
  hr_dumps :: int
  hr_syncs :: int
  hr_tuple_count_after :: int
  hr_state_after :: int
  hr_evictions_after :: int
  hr_n_cached_after :: int
  hr_value_tuple_count :: "nat \<Rightarrow> int"
  hr_counts_reset :: int
  hr_sel_restored :: int

text \<open>The table's context, the flush's further state beside the cache, and the batch.\<close>

record agg_context =
  ac_state :: int
  ac_tuple_count :: int
  ac_group_count :: int
  ac_evictions :: int

record flush_state = batch_gby +
  fs_accumulators :: "nat \<Rightarrow> nat option"
  fs_tuple_count :: "nat \<Rightarrow> int"
  fs_cap :: nat
  fs_pend_row :: "nat \<Rightarrow> int"
  fs_pend_ent :: "nat \<Rightarrow> int"
  fs_off :: bool

datatype sel_pointer = Caller_sel | Other_sel nat

record expr_batch =
  eb_sel :: sel_pointer
  eb_n_sel :: int

text \<open>What the flush leaves: its code, \<open>*done\<close>, the states and the calls it made.\<close>

record flush_outcome =
  fo_rc :: int
  fo_done :: int
  fo_st :: flush_state
  fo_ctx :: agg_context
  fo_batch :: expr_batch
  fo_calls :: "fake_call list"

definition h_slot :: "nat \<Rightarrow> nat \<Rightarrow> u32" where
  "h_slot slots g = word_of_int (37 * int g + 5) AND (of_nat slots - 1)"

text \<open>One group of the set-up: its value, its cache entry and its key buffer.\<close>

definition h_group :: "nat \<Rightarrow> nat \<Rightarrow> nat \<Rightarrow> flush_state \<times> (nat \<Rightarrow> int) \<Rightarrow> flush_state \<times> (nat \<Rightarrow> int)" where
  "h_group slots accs g = (\<lambda>(st, slot_of).
     (let slot = h_slot slots g;
          st1 = gby_put slot slot g st
      in (st1\<lparr>fs_accumulators := (fs_accumulators st1)(g := Some (accs + g)),
              fs_tuple_count := (fs_tuple_count st1)(g := 0)\<rparr>,
          slot_of(g := uint slot))))"

definition h_pend :: "(nat \<Rightarrow> int) \<Rightarrow> (nat \<Rightarrow> nat) \<Rightarrow> (nat \<Rightarrow> int) \<Rightarrow> nat \<Rightarrow> flush_state \<Rightarrow> flush_state" where
  "h_pend rows grp slot_of t st =
     st\<lparr>fs_pend_row := (fs_pend_row st)(t := rows t), fs_pend_ent := (fs_pend_ent st)(t := slot_of (grp t))\<rparr>"

definition h_key :: "nat \<Rightarrow> (nat \<Rightarrow> int) \<Rightarrow> nat \<Rightarrow> flush_state \<Rightarrow> flush_state" where
  "h_key keys slot_of g st =
     st\<lparr>bg_cache := (bg_cache st)[nat (slot_of g) := (bg_cache st ! nat (slot_of g))\<lparr>ge_key := Some (keys + g)\<rparr>]\<rparr>"

definition h_entry_fresh :: "gby_entry \<Rightarrow> gby_entry" where
  "h_entry_fresh e = e\<lparr>ge_len := - 1, ge_bytes := 0, ge_key := None\<rparr>"

text \<open>
  \<open>st\<close> starts zeroed with the allocated arrays' contents arbitrary (\<open>junk\<close>); \<open>accs\<close> and
  \<open>keys\<close> are the addresses of the static arrays.
\<close>

definition h_flush_setup ::
    "nat \<Rightarrow> (flush_state \<Rightarrow> flush_state) \<Rightarrow> nat \<Rightarrow> nat \<Rightarrow> flush_state \<Rightarrow> nat \<Rightarrow> (nat \<Rightarrow> int) \<Rightarrow> (nat \<Rightarrow> nat) \<Rightarrow> nat \<Rightarrow> flush_state" where
  "h_flush_setup slots pool_reset accs keys junk n rows grp ng =
     (let st0 = pool_reset (junk\<lparr>bg_cache := map h_entry_fresh (bg_cache junk), bg_n_pool_free := 0, bg_n_cached := 0, fs_off := False\<rparr>);
          (st1, slot_of) = fold (h_group slots accs) [0..<ng] (st0, \<lambda>_. 0);
          st2 = st1\<lparr>fs_cap := H_MAX_ROWS\<rparr>;
          st3 = fold (h_pend rows grp slot_of) [0..<n] st2
      in fold (h_key keys slot_of) [0..<ng] st3)"

text \<open>The group a recorded pointer belongs to: -1 when it is none of the \<open>ng\<close>.\<close>

definition h_group_of :: "nat \<Rightarrow> nat \<Rightarrow> nat option \<Rightarrow> int" where
  "h_group_of base ng p = fold (\<lambda>g res. if p = Some (base + g) then int g else res) [0..<ng] (- 1)"

text \<open>Reading the records back: one pass over the recorded calls, one over the touches.\<close>

definition h_read_call :: "h_recorder \<Rightarrow> nat \<Rightarrow> nat \<Rightarrow> nat \<Rightarrow> h_flush_result \<Rightarrow> h_flush_result" where
  "h_read_call r accs ng k res =
     res\<lparr>hr_call_group := (hr_call_group res)(k := h_group_of accs ng (h_eval_acc r k)),
         hr_call_n := (hr_call_n res)(k := h_eval_n r k),
         hr_call_sel := (hr_call_sel res)(k := copy_rows H_MAX_ROWS (h_eval_sel r k) 0 (h_eval_n r k) (hr_call_sel res k))\<rparr>"

definition h_read_touch :: "h_recorder \<Rightarrow> nat \<Rightarrow> nat \<Rightarrow> nat \<Rightarrow> h_flush_result \<Rightarrow> h_flush_result" where
  "h_read_touch r keys ng k res =
     res\<lparr>hr_touch_group := (hr_touch_group res)(k := h_group_of keys ng (h_get_keys r k))\<rparr>"

definition h_read_value :: "flush_state \<Rightarrow> nat \<Rightarrow> h_flush_result \<Rightarrow> h_flush_result" where
  "h_read_value st g res = res\<lparr>hr_value_tuple_count := (hr_value_tuple_count res)(g := fs_tuple_count st g)\<rparr>"

definition h_counts_reset :: "gby_entry list \<Rightarrow> int" where
  "h_counts_reset cache = fold (\<lambda>e res. if 0 \<le> ge_len e \<and> ge_count e \<noteq> 0 then 0 else res) cache 1"

definition h_result_zero :: h_flush_result where
  "h_result_zero = \<lparr>hr_done = 0, hr_n_calls = 0, hr_call_group = (\<lambda>_. 0), hr_call_n = (\<lambda>_. 0), hr_call_sel = (\<lambda>_ _. 0),
     hr_n_touch = 0, hr_touch_group = (\<lambda>_. 0), hr_off = 0, hr_dumps = 0, hr_syncs = 0, hr_tuple_count_after = 0,
     hr_state_after = 0, hr_evictions_after = 0, hr_n_cached_after = 0, hr_value_tuple_count = (\<lambda>_. 0),
     hr_counts_reset = 0, hr_sel_restored = 0\<rparr>"

definition h_flush_report :: "nat \<Rightarrow> nat \<Rightarrow> nat \<Rightarrow> flush_outcome \<Rightarrow> h_recorder \<Rightarrow> h_flush_result" where
  "h_flush_report accs keys ng out r =
     (let res0 = h_result_zero\<lparr>hr_done := fo_done out, hr_n_calls := int (h_n_eval r)\<rparr>;
          res1 = fold (h_read_call r accs ng) [0..<min (h_n_eval r) H_MAX_CALLS] res0;
          res2 = fold (h_read_touch r keys ng) [0..<min (h_n_get r) H_MAX_CALLS] (res1\<lparr>hr_n_touch := int (h_n_get r)\<rparr>);
          st = fo_st out; ctx = fo_ctx out;
          res3 = res2\<lparr>hr_off := (if fs_off st then 1 else 0), hr_dumps := int (h_n_dump r), hr_syncs := int (h_n_sync r),
                   hr_tuple_count_after := ac_tuple_count ctx, hr_state_after := ac_state ctx,
                   hr_evictions_after := ac_evictions ctx, hr_n_cached_after := bg_n_cached st\<rparr>;
          res4 = fold (h_read_value st) [0..<ng] res3
      in res4\<lparr>hr_counts_reset := h_counts_reset (bg_cache st),
              hr_sel_restored := (if eb_sel (fo_batch out) = Caller_sel \<and> eb_n_sel (fo_batch out) = 77 then 1 else 0)\<rparr>)"

definition h_flush_scenario ::
    "nat \<Rightarrow> (flush_state \<Rightarrow> flush_state) \<Rightarrow> int \<Rightarrow>
     (nat option \<Rightarrow> flush_state \<Rightarrow> agg_context \<Rightarrow> expr_batch \<Rightarrow> (nat \<Rightarrow> int) \<Rightarrow> nat \<Rightarrow> flush_outcome) \<Rightarrow>
     nat \<Rightarrow> nat \<Rightarrow> flush_state \<Rightarrow> nat \<Rightarrow> (nat \<Rightarrow> int) \<Rightarrow> (nat \<Rightarrow> nat) \<Rightarrow> nat \<Rightarrow> int \<Rightarrow> int \<Rightarrow> h_recorder \<Rightarrow>
     int \<times> h_flush_result \<times> h_recorder" where
  "h_flush_scenario slots pool_reset accept_all flush accs keys junk n rows grp ng tuple_count0 group_count0 r =
     (let r0 = r\<lparr>h_n_get := 0, h_n_eval := 0, h_n_dump := 0, h_n_sync := 0\<rparr>;
          ctx = \<lparr>ac_state = accept_all, ac_tuple_count = tuple_count0, ac_group_count = group_count0, ac_evictions = 0\<rparr>;
          st = h_flush_setup slots pool_reset accs keys junk n rows grp ng;
          batch = \<lparr>eb_sel = Caller_sel, eb_n_sel = 77\<rparr>;
          out = flush (h_get_result r0) st ctx batch (\<lambda>t. 1000 + int t) n;
          r1 = fake_steps (fo_calls out) r0
      in (fo_rc out, h_flush_report accs keys ng out r1, r1))"

section \<open>The records\<close>

lemma copy_rows_at: "copy_rows room src j n dst i = (if j \<le> i \<and> i < j + room \<and> int i < n then src i else dst i)"
proof (induction room arbitrary: j dst)
  case (Suc room)
  show ?case
  proof (cases "int j < n")
    case True
    have "copy_rows (Suc room) src j n dst i = copy_rows room src (Suc j) n (dst(j := src j)) i" using True by simp
    also have "\<dots> = (if Suc j \<le> i \<and> i < Suc j + room \<and> int i < n then src i else (dst(j := src j)) i)" by (rule Suc.IH)
    also have "\<dots> = (if j \<le> i \<and> i < j + Suc room \<and> int i < n then src i else dst i)" using True by auto
    finally show ?thesis .
  qed auto
qed simp

lemma h_group_of_iff:
  "h_group_of base ng p = (case p of None \<Rightarrow> - 1 | Some a \<Rightarrow> if base \<le> a \<and> a < base + ng then int (a - base) else - 1)"
proof (induction ng)
  case (Suc ng)
  then show ?case by (cases p) (auto simp: h_group_of_def)
qed (cases p; simp add: h_group_of_def)

text \<open>The calls of one kind in a list of calls.\<close>

fun evals_of :: "fake_call list \<Rightarrow> (nat option \<times> (nat \<Rightarrow> int) \<times> int) list" where
  "evals_of [] = []"
| "evals_of (EvalBatch acc sel n # cs) = (acc, sel, n) # evals_of cs"
| "evals_of (_ # cs) = evals_of cs"

fun touches_of :: "fake_call list \<Rightarrow> nat option list" where
  "touches_of [] = []"
| "touches_of (MhtGet key # cs) = key # touches_of cs"
| "touches_of (_ # cs) = touches_of cs"

lemmas fake_defs = qdata_evaluate_aggregate_batch_def mht_get_def qdata_save_agg_htable_to_list_def
  qdata_copy_agg_hkey_def qdata_free_agg_hkey_def h_sync_def

lemma calls_Cons:
  "evals_of (c # cs) = evals_of [c] @ evals_of cs" "touches_of (c # cs) = touches_of [c] @ touches_of cs"
  by (cases c; simp)+

lemma fake_step_counts:
  "h_n_eval (fake_step c r) = h_n_eval r + length (evals_of [c])"
  "h_n_get (fake_step c r) = h_n_get r + length (touches_of [c])"
  "h_n_dump (fake_step c r) = h_n_dump r + (if c = SaveHtable then 1 else 0)"
  "h_n_free_key (fake_step c r) = h_n_free_key r + (if c = FreeKey then 1 else 0)"
  "h_n_sync (fake_step c r) = h_n_sync r + (if c = Sync then 1 else 0)"
  "h_n_copy (fake_step c r) = h_n_copy r + (if \<exists>b. c = CopyKey b then 1 else 0)"
  "h_get_result (fake_step c r) = h_get_result r"
  by (cases c; simp add: fake_defs)+

lemma fake_steps_Cons [simp]: "fake_steps [] r = r" "fake_steps (c # cs) r = fake_steps cs (fake_step c r)"
  by (simp_all add: fake_steps_def)

lemma fake_steps_counts:
  "h_n_eval (fake_steps cs r) = h_n_eval r + length (evals_of cs)"
  "h_n_get (fake_steps cs r) = h_n_get r + length (touches_of cs)"
  "h_n_dump (fake_steps cs r) = h_n_dump r + count_list cs SaveHtable"
  "h_n_free_key (fake_steps cs r) = h_n_free_key r + count_list cs FreeKey"
  "h_n_sync (fake_steps cs r) = h_n_sync r + count_list cs Sync"
  "h_n_copy (fake_steps cs r) = h_n_copy r + length (filter (\<lambda>c. \<exists>b. c = CopyKey b) cs)"
  "h_get_result (fake_steps cs r) = h_get_result r"
proof (induction cs arbitrary: r)
  case (Cons c cs)
  case 1 show ?case using Cons.IH(1) by (simp add: fake_step_counts calls_Cons [of c cs])
  case 2 show ?case using Cons.IH(2) by (simp add: fake_step_counts calls_Cons [of c cs])
  case 3 show ?case using Cons.IH(3) by (simp add: fake_step_counts)
  case 4 show ?case using Cons.IH(4) by (simp add: fake_step_counts)
  case 5 show ?case using Cons.IH(5) by (simp add: fake_step_counts)
  case 6 show ?case using Cons.IH(6) by (simp add: fake_step_counts)
  case 7 show ?case using Cons.IH(7) by (simp add: fake_step_counts)
qed simp_all

text \<open>The records of the evaluations, within the sizes of the arrays.\<close>

definition same_eval :: "nat option \<times> (nat \<Rightarrow> int) \<times> int \<Rightarrow> h_recorder \<Rightarrow> nat \<Rightarrow> bool" where
  "same_eval = (\<lambda>(acc, sel, n) r k. h_eval_acc r k = acc \<and> h_eval_n r k = n \<and>
     (\<forall>j < H_MAX_ROWS. int j < n \<longrightarrow> h_eval_sel r k j = sel j))"

lemma fake_step_keeps:
  "k < h_n_eval r \<Longrightarrow> h_eval_acc (fake_step c r) k = h_eval_acc r k \<and> h_eval_n (fake_step c r) k = h_eval_n r k
     \<and> h_eval_sel (fake_step c r) k = h_eval_sel r k"
  "k < h_n_get r \<Longrightarrow> h_get_keys (fake_step c r) k = h_get_keys r k"
  by (cases c; simp add: fake_defs)+

lemma fake_steps_keeps_eval:
  "k < h_n_eval r \<Longrightarrow> h_eval_acc (fake_steps cs r) k = h_eval_acc r k \<and> h_eval_n (fake_steps cs r) k = h_eval_n r k
     \<and> h_eval_sel (fake_steps cs r) k = h_eval_sel r k"
proof (induction cs arbitrary: r)
  case (Cons c cs)
  then show ?case using Cons.IH [of "fake_step c r"] fake_step_keeps(1) [of k r c] by (simp add: fake_step_counts(1))
qed simp

lemma fake_steps_keeps_touch: "k < h_n_get r \<Longrightarrow> h_get_keys (fake_steps cs r) k = h_get_keys r k"
proof (induction cs arbitrary: r)
  case (Cons c cs)
  then show ?case using Cons.IH [of "fake_step c r"] fake_step_keeps(2) [of k r c] by (simp add: fake_step_counts(2))
qed simp

lemma evals_recorded:
  "i < length (evals_of cs) \<Longrightarrow> h_n_eval r + i < H_MAX_CALLS \<Longrightarrow>
     same_eval (evals_of cs ! i) (fake_steps cs r) (h_n_eval r + i)"
proof (induction cs arbitrary: r i)
  case (Cons c cs)
  show ?case
  proof (cases "evals_of [c]")
    case Nil
    then show ?thesis using Cons.IH [of i "fake_step c r"] Cons.prems calls_Cons(1) [of c cs] by (simp add: fake_step_counts)
  next
    case (Cons ev rest)
    then obtain acc sel n where c: "c = EvalBatch acc sel n" by (cases c) auto
    show ?thesis
    proof (cases i)
      case 0
      have k: "h_n_eval r < h_n_eval (fake_step c r)" unfolding fake_step_counts(1) by (simp add: c)
      have "same_eval (acc, sel, n) (fake_step c r) (h_n_eval r)"
        using Cons.prems(2) 0 by (simp add: same_eval_def c fake_defs copy_rows_at)
      then show ?thesis using fake_steps_keeps_eval [OF k, of cs] 0 by (simp add: same_eval_def c)
    next
      case (Suc j)
      have n1: "h_n_eval (fake_step c r) = Suc (h_n_eval r)" unfolding fake_step_counts(1) by (simp add: c)
      have t: "evals_of (c # cs) ! Suc j = evals_of cs ! j" by (simp add: c)
      show ?thesis using Cons.IH [of j "fake_step c r"] Cons.prems Suc unfolding n1 by (simp add: t) (simp add: c)
    qed
  qed
qed simp

lemma touches_recorded:
  "i < length (touches_of cs) \<Longrightarrow> h_n_get r + i < H_MAX_CALLS * 4 \<Longrightarrow>
     h_get_keys (fake_steps cs r) (h_n_get r + i) = touches_of cs ! i"
proof (induction cs arbitrary: r i)
  case (Cons c cs)
  show ?case
  proof (cases "touches_of [c]")
    case Nil
    then show ?thesis using Cons.IH [of i "fake_step c r"] Cons.prems calls_Cons(2) [of c cs] by (simp add: fake_step_counts)
  next
    case (Cons key rest)
    then obtain key where c: "c = MhtGet key" by (cases c) auto
    show ?thesis
    proof (cases i)
      case 0
      have k: "h_n_get r < h_n_get (fake_step c r)" unfolding fake_step_counts(2) by (simp add: c)
      have "h_get_keys (fake_step c r) (h_n_get r) = key" using Cons.prems(2) 0 by (simp add: c fake_defs)
      then show ?thesis using fake_steps_keeps_touch [OF k, of cs] 0 by (simp add: c)
    next
      case (Suc j)
      have n1: "h_n_get (fake_step c r) = Suc (h_n_get r)" unfolding fake_step_counts(2) by (simp add: c)
      have t: "touches_of (c # cs) ! Suc j = touches_of cs ! j" by (simp add: c)
      show ?thesis using Cons.IH [of j "fake_step c r"] Cons.prems Suc unfolding n1 by (simp add: t) (simp add: c)
    qed
  qed
qed simp

section \<open>The report\<close>

lemma prefix_upd: "x = F m \<Longrightarrow> (\<lambda>k. if k < m then F k else G k)(m := x) = (\<lambda>k. if k < Suc m then F k else G k)"
  by (auto simp: fun_eq_iff less_Suc_eq)

lemma read_calls:
  "fold (h_read_call r accs ng) [0..<m] res = res\<lparr>
     hr_call_group := (\<lambda>k. if k < m then h_group_of accs ng (h_eval_acc r k) else hr_call_group res k),
     hr_call_n := (\<lambda>k. if k < m then h_eval_n r k else hr_call_n res k),
     hr_call_sel := (\<lambda>k. if k < m then copy_rows H_MAX_ROWS (h_eval_sel r k) 0 (h_eval_n r k) (hr_call_sel res k)
                      else hr_call_sel res k)\<rparr>"
proof (induction m)
  case (Suc m)
  have "fold (h_read_call r accs ng) [0..<Suc m] res = h_read_call r accs ng m (fold (h_read_call r accs ng) [0..<m] res)"
    by simp
  then show ?case unfolding Suc.IH h_read_call_def by (simp add: prefix_upd)
qed simp

lemma read_touches:
  "fold (h_read_touch r keys ng) [0..<m] res = res\<lparr>
     hr_touch_group := (\<lambda>k. if k < m then h_group_of keys ng (h_get_keys r k) else hr_touch_group res k)\<rparr>"
proof (induction m)
  case (Suc m)
  have "fold (h_read_touch r keys ng) [0..<Suc m] res = h_read_touch r keys ng m (fold (h_read_touch r keys ng) [0..<m] res)"
    by simp
  then show ?case unfolding Suc.IH h_read_touch_def by (simp add: prefix_upd)
qed simp

lemma read_tuple_counts:
  "fold (h_read_value st) [0..<m] res = res\<lparr>
     hr_value_tuple_count := (\<lambda>g. if g < m then fs_tuple_count st g else hr_value_tuple_count res g)\<rparr>"
proof (induction m)
  case (Suc m)
  have "fold (h_read_value st) [0..<Suc m] res = h_read_value st m (fold (h_read_value st) [0..<m] res)" by simp
  then show ?case unfolding Suc.IH h_read_value_def by (simp add: prefix_upd)
qed simp

lemma counts_reset_iff: "h_counts_reset cache = 1 \<longleftrightarrow> (\<forall>e \<in> set cache. 0 \<le> ge_len e \<longrightarrow> ge_count e = 0)"
proof -
  have "fold (\<lambda>e res. if 0 \<le> ge_len e \<and> ge_count e \<noteq> 0 then 0 else res) cache b
      = (if \<forall>e \<in> set cache. 0 \<le> ge_len e \<longrightarrow> ge_count e = 0 then b else (0 :: int))" for b
    by (induction cache arbitrary: b) auto
  then show ?thesis unfolding h_counts_reset_def by simp
qed

lemmas report_simps = h_flush_report_def Let_def read_calls read_touches read_tuple_counts h_result_zero_def

text \<open>What a reader of the report takes the engine to have done: the group and the rows of each evaluation.\<close>

definition h_decode :: "h_flush_result \<Rightarrow> (int \<times> int list) list" where
  "h_decode res = map (\<lambda>k. (hr_call_group res k, map (hr_call_sel res k) [0..<nat (hr_call_n res k)])) [0..<nat (hr_n_calls res)]"

definition h_decode_touch :: "h_flush_result \<Rightarrow> int list" where
  "h_decode_touch res = map (hr_touch_group res) [0..<nat (hr_n_touch res)]"

definition recorder_zero :: h_recorder where
  "recorder_zero = \<lparr>h_get_keys = (\<lambda>_. None), h_n_get = 0, h_get_result = None, h_eval_acc = (\<lambda>_. None), h_eval_n = (\<lambda>_. 0),
     h_eval_sel = (\<lambda>_ _. 0), h_n_eval = 0, h_n_dump = 0, h_n_copy = 0, h_n_free_key = 0, h_n_sync = 0\<rparr>"

text \<open>
  C4. Within the sizes of the arrays the report is a faithful account of what the engine's flush called,
  whatever the records held before: the evaluations in their order, each with its group (-1 for
  accumulators of no group) and its rows, the touches with their groups, and the numbers of dumps and
  callbacks; and the two flags say what they are named for.
\<close>

theorem flush_report_faithful:
  assumes run: "h_flush_scenario slots pool_reset accept_all flush accs keys junk n rows grp ng tc gc r = (rc, res, r')"
    and out: "out = flush (h_get_result r) (h_flush_setup slots pool_reset accs keys junk n rows grp ng)
        \<lparr>ac_state = accept_all, ac_tuple_count = tc, ac_group_count = gc, ac_evictions = 0\<rparr>
        \<lparr>eb_sel = Caller_sel, eb_n_sel = 77\<rparr> (\<lambda>t. 1000 + int t) n"
    and fits: "length (evals_of (fo_calls out)) \<le> H_MAX_CALLS" "length (touches_of (fo_calls out)) \<le> H_MAX_CALLS"
      "list_all (\<lambda>(acc, sel, k). k \<le> int H_MAX_ROWS) (evals_of (fo_calls out))"
  shows "h_decode res = map (\<lambda>(acc, sel, k). (h_group_of accs ng acc, map sel [0..<nat k])) (evals_of (fo_calls out))
    \<and> h_decode_touch res = map (h_group_of keys ng) (touches_of (fo_calls out))
    \<and> rc = fo_rc out \<and> hr_done res = fo_done out
    \<and> hr_dumps res = int (count_list (fo_calls out) SaveHtable) \<and> hr_syncs res = int (count_list (fo_calls out) Sync)
    \<and> (hr_counts_reset res = 1 \<longleftrightarrow> (\<forall>e \<in> set (bg_cache (fo_st out)). 0 \<le> ge_len e \<longrightarrow> ge_count e = 0))
    \<and> (hr_sel_restored res = 1 \<longleftrightarrow> fo_batch out = \<lparr>eb_sel = Caller_sel, eb_n_sel = 77\<rparr>)"
proof -
  obtain r0 where r0: "r0 = r\<lparr>h_n_get := 0, h_n_eval := 0, h_n_dump := 0, h_n_sync := 0\<rparr>" by blast
  have z: "h_n_get r0 = 0" "h_n_eval r0 = 0" "h_n_dump r0 = 0" "h_n_sync r0 = 0" "h_get_result r0 = h_get_result r"
    by (simp_all add: r0)
  have "h_flush_scenario slots pool_reset accept_all flush accs keys junk n rows grp ng tc gc r =
      (fo_rc out, h_flush_report accs keys ng out (fake_steps (fo_calls out) r0), fake_steps (fo_calls out) r0)"
    by (simp add: h_flush_scenario_def Let_def out r0)
  then have r': "r' = fake_steps (fo_calls out) r0" and res: "res = h_flush_report accs keys ng out r'" and rc: "rc = fo_rc out"
    using run by auto
  let ?evs = "evals_of (fo_calls out)" and ?ts = "touches_of (fo_calls out)"
  have n: "h_n_eval r' = length ?evs" "h_n_get r' = length ?ts" unfolding r' fake_steps_counts z by simp_all
  have m: "min (length ?evs) H_MAX_CALLS = length ?evs" "min (length ?ts) H_MAX_CALLS = length ?ts" using fits by simp_all
  have "h_decode res = map (\<lambda>(acc, sel, k). (h_group_of accs ng acc, map sel [0..<nat k])) ?evs"
  proof (rule nth_equalityI)
    show "length (h_decode res) = length (map (\<lambda>(acc, sel, k). (h_group_of accs ng acc, map sel [0..<nat k])) ?evs)"
      by (simp add: h_decode_def res report_simps n)
    fix k assume "k < length (h_decode res)"
    then have k: "k < length ?evs" by (simp add: h_decode_def res report_simps n)
    obtain acc sel c where e: "?evs ! k = (acc, sel, c)" by (cases "?evs ! k")
    have c: "c \<le> int H_MAX_ROWS" using fits(3) k e by (auto simp: list_all_length)
    have se: "same_eval (acc, sel, c) r' k"
      using evals_recorded [OF k, of r0] k fits(1) unfolding z r' e by simp
    have rows: "map (copy_rows H_MAX_ROWS (h_eval_sel r' k) 0 c (\<lambda>_. 0)) [0..<nat c] = map sel [0..<nat c]"
      using se c by (auto simp: same_eval_def copy_rows_at)
    show "h_decode res ! k = map (\<lambda>(acc, sel, k). (h_group_of accs ng acc, map sel [0..<nat k])) ?evs ! k"
      using k se rows by (simp add: h_decode_def res report_simps n m e same_eval_def)
  qed
  moreover have "h_decode_touch res = map (h_group_of keys ng) ?ts"
  proof (rule nth_equalityI)
    show "length (h_decode_touch res) = length (map (h_group_of keys ng) ?ts)"
      by (simp add: h_decode_touch_def res report_simps n)
    fix k assume "k < length (h_decode_touch res)"
    then have k: "k < length ?ts" by (simp add: h_decode_touch_def res report_simps n)
    have "h_get_keys r' k = ?ts ! k" using touches_recorded [OF k, of r0] k fits(2) unfolding z r' by simp
    then show "h_decode_touch res ! k = map (h_group_of keys ng) ?ts ! k"
      using k by (simp add: h_decode_touch_def res report_simps n m)
  qed
  moreover have "hr_dumps res = int (count_list (fo_calls out) SaveHtable)" "hr_syncs res = int (count_list (fo_calls out) Sync)"
    unfolding res r' by (simp_all add: report_simps fake_steps_counts z)
  moreover have "hr_done res = fo_done out" by (simp add: res report_simps)
  moreover have "hr_counts_reset res = 1 \<longleftrightarrow> (\<forall>e \<in> set (bg_cache (fo_st out)). 0 \<le> ge_len e \<longrightarrow> ge_count e = 0)"
    by (simp add: res report_simps counts_reset_iff)
  moreover have "hr_sel_restored res = 1 \<longleftrightarrow> fo_batch out = \<lparr>eb_sel = Caller_sel, eb_n_sel = 77\<rparr>"
    by (cases "fo_batch out") (simp add: res report_simps)
  ultimately show ?thesis using rc by blast
qed

definition any_flush :: "nat option \<Rightarrow> flush_state \<Rightarrow> agg_context \<Rightarrow> expr_batch \<Rightarrow> (nat \<Rightarrow> int) \<Rightarrow> nat \<Rightarrow> flush_outcome" where
  "any_flush p st ctx batch sel n = \<lparr>fo_rc = 0, fo_done = int n, fo_st = st, fo_ctx = ctx, fo_batch = batch,
     fo_calls = [MhtGet (Some 200), EvalBatch (Some 101) (\<lambda>j. 10 * int j) 2, EvalBatch None sel 1, Sync]\<rparr>"

definition any_flush_state :: flush_state where
  "any_flush_state = \<lparr>bg_cache = replicate 8 any_entry, bg_pool_free = [], bg_n_pool_free = 9, bg_n_cached = 8,
     bg_key_pool = (\<lambda>_. 0), bg_batch_slot = (\<lambda>_. 7), fs_accumulators = (\<lambda>_. None), fs_tuple_count = (\<lambda>_. 6), fs_cap = 5,
     fs_pend_row = (\<lambda>_. 4), fs_pend_ent = (\<lambda>_. 3), fs_off = True\<rparr>"

theorem flush_report_faithful_witness:
  "\<exists>rc res r'. h_flush_scenario 8 (\<lambda>st. st) 0 any_flush 100 200 any_flush_state 2 (\<lambda>t. 10 * int t) (\<lambda>t. t) 3 5 6 recorder_zero = (rc, res, r')
     \<and> h_decode res = [(1, [0, 10]), (- 1, [1000])] \<and> h_decode_touch res = [0] \<and> hr_syncs res = 1"
proof -
  obtain rc res r' where run: "h_flush_scenario 8 (\<lambda>st. st) 0 any_flush 100 200 any_flush_state 2 (\<lambda>t. 10 * int t) (\<lambda>t. t) 3 5 6 recorder_zero = (rc, res, r')"
    by (cases "h_flush_scenario 8 (\<lambda>st. st) 0 any_flush 100 200 any_flush_state 2 (\<lambda>t. 10 * int t) (\<lambda>t. t) 3 5 6 recorder_zero") auto
  obtain out where out: "out = any_flush (h_get_result recorder_zero) (h_flush_setup 8 (\<lambda>st. st) 100 200 any_flush_state 2 (\<lambda>t. 10 * int t) (\<lambda>t. t) 3)
        \<lparr>ac_state = 0, ac_tuple_count = 5, ac_group_count = 6, ac_evictions = 0\<rparr>
        \<lparr>eb_sel = Caller_sel, eb_n_sel = 77\<rparr> (\<lambda>t. 1000 + int t) 2" by blast
  have calls: "fo_calls out = [MhtGet (Some 200), EvalBatch (Some 101) (\<lambda>j. 10 * int j) 2, EvalBatch None (\<lambda>t. 1000 + int t) 1, Sync]"
    by (simp add: out any_flush_def)
  have two: "[0..<2] = [0, 1]" "[0..<nat 1] = [0]" by (simp_all add: upt_rec numeral_eq_Suc)
  have "h_decode res = [(1, [0, 10]), (- 1, [1000])] \<and> h_decode_touch res = [0] \<and> hr_syncs res = 1"
    using flush_report_faithful [OF run out] unfolding calls
    by (simp add: H_MAX_CALLS_def H_MAX_ROWS_def h_group_of_iff two)
  then show ?thesis using run by blast
qed

section \<open>The set-up\<close>

text \<open>37 is odd, so the home slots of up to \<open>slots\<close> groups are distinct.\<close>

lemma h_slot_unat: "k < 32 \<Longrightarrow> unat (h_slot (2 ^ k) g) = (37 * g + 5) mod 2 ^ k"
proof -
  assume k: "k < 32"
  have "word_of_int (37 * int g + 5) = (of_nat (37 * g + 5) :: u32)" by simp
  then have "unat (h_slot (2 ^ k) g) = unat (of_nat (37 * g + 5) :: u32) mod 2 ^ k"
    unfolding h_slot_def ring_mask [OF k] unat_and_mask by simp
  also have "\<dots> = (37 * g + 5) mod 2 ^ k"
    unfolding unat_of_nat using mod_pow_pow [of k 32 "37 * g + 5"] k by simp
  finally show ?thesis .
qed

lemma h_slot_in: "k < 32 \<Longrightarrow> in_ring k (h_slot (2 ^ k) g)"
  unfolding h_slot_def by (simp only: ring_mask in_ring_masked)

lemma h_slot_inj:
  assumes k: "k < 32" and g: "g < 2 ^ k" "g' < 2 ^ k" and e: "h_slot (2 ^ k) g = h_slot (2 ^ k) g'"
  shows "g = g'"
proof -
  have odd: "coprime ((2 :: nat) ^ k) 37" by simp
  have le: "x = y" if x: "(37 * x + 5) mod 2 ^ k = (37 * y + 5) mod 2 ^ k" "y \<le> x" "x < 2 ^ k" for x y :: nat
  proof -
    have "2 ^ k dvd (37 * x + 5) - (37 * y + 5)"
      using x(1,2) mod_eq_dvd_iff_nat [of "37 * y + 5" "37 * x + 5" "2 ^ k"] by simp
    then have "2 ^ k dvd 37 * (x - y)" by (simp add: diff_mult_distrib2)
    then have "2 ^ k dvd x - y" using odd by (simp add: coprime_dvd_mult_right_iff)
    moreover have "x - y < 2 ^ k" using x(3) by simp
    ultimately show ?thesis using x(2) by (metis diff_is_0_eq dvd_imp_le le_antisym neq0_conv not_le)
  qed
  have "(37 * g + 5) mod 2 ^ k = (37 * g' + 5) mod 2 ^ k" using e h_slot_unat [OF k] by metis
  then show ?thesis using le [of g g'] le [of g' g] g by (cases "g' \<le> g") auto
qed

text \<open>The groups in place, with what the flush scenario sets beside the cache.\<close>

definition h_groups_made :: "nat \<Rightarrow> nat \<Rightarrow> nat list \<Rightarrow> nat \<Rightarrow> flush_state \<times> (nat \<Rightarrow> int) \<Rightarrow> bool" where
  "h_groups_made k accs pool m = (\<lambda>(st, slot_of).
     gby_filled k (h_slot (2 ^ k)) (h_slot (2 ^ k)) pool m st \<and>
     (\<forall>g < m. fs_accumulators st g = Some (accs + g) \<and> fs_tuple_count st g = 0 \<and> slot_of g = uint (h_slot (2 ^ k) g)) \<and>
     \<not> fs_off st)"

lemma gby_put_flush [simp]:
  "fs_accumulators (gby_put s hsh i st) = fs_accumulators st" "fs_tuple_count (gby_put s hsh i st) = fs_tuple_count st"
  "fs_off (gby_put s hsh i st) = fs_off st"
  by (simp_all add: gby_put_def Let_def)

lemma gby_filled_more:
  "gby_filled k pos hsh pool m (st\<lparr>fs_accumulators := a, fs_tuple_count := t\<rparr>) = gby_filled k pos hsh pool m st"
  by (simp add: gby_filled_def)

lemma h_group_made:
  assumes k: "k < 32" and m: "m < 2 ^ k div 2" and pool: "distinct pool" "length pool = 2 ^ k div 2"
    and made: "h_groups_made k accs pool m (st, slot_of)"
  shows "h_groups_made k accs pool (Suc m) (h_group (2 ^ k) accs m (st, slot_of))"
proof -
  have ne: "h_slot (2 ^ k) i \<noteq> h_slot (2 ^ k) m" if "i < m" for i
  proof -
    have "m < 2 ^ k" using m by (rule less_le_trans) simp
    then show ?thesis using h_slot_inj [OF k, of i m] that by auto
  qed
  have "gby_filled k (h_slot (2 ^ k)) (h_slot (2 ^ k)) pool (Suc m) (gby_put (h_slot (2 ^ k) m) (h_slot (2 ^ k) m) m st)"
    using made by (intro gby_put_filled [where pos = "h_slot (2 ^ k)" and hsh = "h_slot (2 ^ k)", OF k m pool h_slot_in [OF k] ne]) (simp_all add: h_groups_made_def)
  then show ?thesis using made
    by (simp add: h_groups_made_def h_group_def Let_def gby_filled_more less_Suc_eq)
qed

lemma h_groups_fold:
  assumes k: "k < 32" and pool: "distinct pool" "length pool = 2 ^ k div 2" and start: "h_groups_made k accs pool 0 s0"
  shows "m \<le> 2 ^ k div 2 \<Longrightarrow> h_groups_made k accs pool m (fold (h_group (2 ^ k) accs) [0..<m] s0)"
proof (induction m)
  case (Suc m)
  then show ?case
    using h_group_made [OF k _ pool, of m accs "fst (fold (h_group (2 ^ k) accs) [0..<m] s0)"
        "snd (fold (h_group (2 ^ k) accs) [0..<m] s0)"] by simp
qed (simp add: start)

text \<open>The pending rows.\<close>

lemma h_pend_fold:
  "fold (h_pend rows grp slot_of) [0..<n] st = st\<lparr>
     fs_pend_row := (\<lambda>t. if t < n then rows t else fs_pend_row st t),
     fs_pend_ent := (\<lambda>t. if t < n then slot_of (grp t) else fs_pend_ent st t)\<rparr>"
proof (induction n)
  case (Suc n)
  have "fold (h_pend rows grp slot_of) [0..<Suc n] st = h_pend rows grp slot_of n (fold (h_pend rows grp slot_of) [0..<n] st)"
    by simp
  then show ?case unfolding Suc.IH h_pend_def by (simp add: prefix_upd)
qed simp

text \<open>The key pointers, written last.\<close>

lemma h_key_fold:
  assumes inj: "\<And>g g'. g < m \<Longrightarrow> g' < m \<Longrightarrow> slot_of g = slot_of g' \<Longrightarrow> g = g'"
    and b: "\<And>g. g < m \<Longrightarrow> 0 \<le> slot_of g \<and> nat (slot_of g) < length (bg_cache st)"
  shows "\<exists>cache. fold (h_key keys slot_of) [0..<m] st = st\<lparr>bg_cache := cache\<rparr> \<and> length cache = length (bg_cache st) \<and>
    (\<forall>g < m. cache ! nat (slot_of g) = (bg_cache st ! nat (slot_of g))\<lparr>ge_key := Some (keys + g)\<rparr>) \<and>
    (\<forall>i. (\<forall>g < m. i \<noteq> nat (slot_of g)) \<longrightarrow> cache ! i = bg_cache st ! i)"
  using assms
proof (induction m)
  case (Suc m)
  obtain cache where IH: "fold (h_key keys slot_of) [0..<m] st = st\<lparr>bg_cache := cache\<rparr>" "length cache = length (bg_cache st)"
    "\<And>g. g < m \<Longrightarrow> cache ! nat (slot_of g) = (bg_cache st ! nat (slot_of g))\<lparr>ge_key := Some (keys + g)\<rparr>"
    "\<And>i. \<forall>g < m. i \<noteq> nat (slot_of g) \<Longrightarrow> cache ! i = bg_cache st ! i"
    using Suc.IH Suc.prems by (metis less_SucI)
  have ne: "nat (slot_of g) \<noteq> nat (slot_of m)" if "g < m" for g
  proof -
    have "slot_of g \<noteq> slot_of m" using Suc.prems(1) [of g m] that by auto
    then show ?thesis using Suc.prems(2) [of g] Suc.prems(2) [of m] that by auto
  qed
  have "\<forall>g < m. nat (slot_of m) \<noteq> nat (slot_of g)" using ne by metis
  then have at_m: "cache ! nat (slot_of m) = bg_cache st ! nat (slot_of m)" using IH(4) by blast
  have bm: "nat (slot_of m) < length cache" using Suc.prems(2) [of m] IH(2) by simp
  obtain cache' where c': "cache' = cache[nat (slot_of m) := (cache ! nat (slot_of m))\<lparr>ge_key := Some (keys + m)\<rparr>]" by blast
  have "fold (h_key keys slot_of) [0..<Suc m] st = h_key keys slot_of m (st\<lparr>bg_cache := cache\<rparr>)" using IH(1) by simp
  then have "fold (h_key keys slot_of) [0..<Suc m] st = st\<lparr>bg_cache := cache'\<rparr>" by (simp add: h_key_def c')
  moreover have "cache' ! nat (slot_of g) = (bg_cache st ! nat (slot_of g))\<lparr>ge_key := Some (keys + g)\<rparr>" if "g < Suc m" for g
    using that IH(3) [of g] ne [of g] bm at_m by (cases "g = m") (simp_all add: c')
  moreover have "cache' ! i = bg_cache st ! i" if "\<forall>g < Suc m. i \<noteq> nat (slot_of g)" for i
  proof -
    have "i \<noteq> nat (slot_of m)" "\<forall>g < m. i \<noteq> nat (slot_of g)" using that by auto
    then show ?thesis using IH(4) [of i] by (simp add: c')
  qed
  ultimately show ?case using IH(2) c' by (intro exI [of _ cache']) simp
qed (auto intro: exI [of _ "bg_cache st"])

text \<open>What the flush is driven on.\<close>

definition h_flush_ready :: "nat \<Rightarrow> nat \<Rightarrow> nat \<Rightarrow> nat list \<Rightarrow> nat \<Rightarrow> (nat \<Rightarrow> int) \<Rightarrow> (nat \<Rightarrow> nat) \<Rightarrow> nat \<Rightarrow> flush_state \<Rightarrow> bool" where
  "h_flush_ready k accs keys pool n rows grp ng st \<longleftrightarrow>
     inj_on (h_slot (2 ^ k)) {..<ng} \<and>
     (\<forall>s. in_ring k s \<longrightarrow> (0 \<le> ge_len (bg_cache st ! unat s) \<longleftrightarrow> s \<in> h_slot (2 ^ k) ` {..<ng})) \<and>
     (\<forall>g < ng. let e = bg_cache st ! unat (h_slot (2 ^ k) g) in
        ge_value e = g \<and> ge_len e = 1 \<and> ge_hash e = h_slot (2 ^ k) g \<and> ge_key e = Some (keys + g) \<and>
        ge_count e = 0 \<and> ge_placed e = 0 \<and> ge_bytes e \<in> set pool \<and> bg_key_pool st (ge_bytes e) = of_nat g \<and>
        bg_batch_slot st g = uint (h_slot (2 ^ k) g) \<and> fs_accumulators st g = Some (accs + g) \<and> fs_tuple_count st g = 0) \<and>
     (\<forall>t < n. fs_pend_row st t = rows t \<and> ge_value (bg_cache st ! nat (fs_pend_ent st t)) = grp t) \<and>
     bg_n_cached st = int ng \<and> bg_n_pool_free st + ng = 2 ^ k div 2 \<and> fs_cap st = H_MAX_ROWS \<and> \<not> fs_off st"

text \<open>
  C12. The set-up of the flush: whatever the allocated arrays held, every group gets a slot of its own
  with its value, its key and its pool buffer, no other slot is occupied, each pending row names its
  group's entry, and the counters agree.
\<close>

theorem flush_setup_ready:
  assumes k: "k < 32" and pool: "distinct pool" "length pool = 2 ^ k div 2" and junk: "length (bg_cache junk) = 2 ^ k"
    and reset: "\<And>st. pool_reset st = st\<lparr>bg_pool_free := pool, bg_n_pool_free := 2 ^ k div 2\<rparr>"
    and ng: "ng \<le> 2 ^ k div 2" and grp: "\<And>t. t < n \<Longrightarrow> grp t < ng"
  shows "h_flush_ready k accs keys pool n rows grp ng (h_flush_setup (2 ^ k) pool_reset accs keys junk n rows grp ng)"
proof -
  let ?slot = "h_slot (2 ^ k)"
  obtain st0 where st0: "st0 = pool_reset (junk\<lparr>bg_cache := map h_entry_fresh (bg_cache junk), bg_n_pool_free := 0,
      bg_n_cached := 0, fs_off := False\<rparr>)" by blast
  have free: "ge_len (bg_cache st0 ! unat s) = - 1" if "in_ring k s" for s :: u32
  proof -
    have "unat s < 2 ^ k" using that in_ring_unat [of k s] k by simp
    then show ?thesis by (simp add: st0 reset junk h_entry_fresh_def)
  qed
  have start: "h_groups_made k accs pool 0 (st0, \<lambda>_. 0)"
    using free by (simp add: h_groups_made_def gby_filled_def) (simp add: st0 reset junk)
  obtain st1 slot_of where st1: "fold (h_group (2 ^ k) accs) [0..<ng] (st0, \<lambda>_. 0) = (st1, slot_of)"
    by (cases "fold (h_group (2 ^ k) accs) [0..<ng] (st0, \<lambda>_. 0)")
  have made: "h_groups_made k accs pool ng (st1, slot_of)"
    using h_groups_fold [OF k pool start ng] st1 by simp
  obtain st3 where st3: "st3 = fold (h_pend rows grp slot_of) [0..<n] (st1\<lparr>fs_cap := H_MAX_ROWS\<rparr>)" by blast
  have c3: "bg_cache st3 = bg_cache st1" by (simp add: st3 h_pend_fold)
  have sl: "slot_of g = uint (?slot g)" "nat (slot_of g) = unat (?slot g)" if "g < ng" for g
    using made that by (simp_all add: h_groups_made_def)
  have len: "length (bg_cache st1) = 2 ^ k" using made by (simp add: h_groups_made_def gby_filled_def)
  have lt: "g < 2 ^ k" if "g < ng" for g
  proof -
    have "g < 2 ^ k div 2" using that ng by simp
    then show ?thesis by (rule less_le_trans) simp
  qed
  have inj: "g = g'" if "g < ng" "g' < ng" "?slot g = ?slot g'" for g g'
    using h_slot_inj [OF k lt [OF that(1)] lt [OF that(2)] that(3)] .
  have b: "unat (?slot g) < 2 ^ k" for g using in_ring_unat [of k "?slot g"] h_slot_in [OF k] k by simp
  have "\<exists>cache. fold (h_key keys slot_of) [0..<ng] st3 = st3\<lparr>bg_cache := cache\<rparr> \<and> length cache = length (bg_cache st3) \<and>
    (\<forall>g < ng. cache ! nat (slot_of g) = (bg_cache st3 ! nat (slot_of g))\<lparr>ge_key := Some (keys + g)\<rparr>) \<and>
    (\<forall>i. (\<forall>g < ng. i \<noteq> nat (slot_of g)) \<longrightarrow> cache ! i = bg_cache st3 ! i)"
    by (rule h_key_fold) (use sl inj b len c3 in \<open>auto simp: word_uint_eq_iff\<close>)
  then obtain cache where raw: "fold (h_key keys slot_of) [0..<ng] st3 = st3\<lparr>bg_cache := cache\<rparr>"
    "\<forall>g < ng. cache ! nat (slot_of g) = (bg_cache st3 ! nat (slot_of g))\<lparr>ge_key := Some (keys + g)\<rparr>"
    "\<forall>i. (\<forall>g < ng. i \<noteq> nat (slot_of g)) \<longrightarrow> cache ! i = bg_cache st3 ! i" by blast
  have cache: "fold (h_key keys slot_of) [0..<ng] st3 = st3\<lparr>bg_cache := cache\<rparr>"
    "\<And>g. g < ng \<Longrightarrow> cache ! unat (?slot g) = (bg_cache st1 ! unat (?slot g))\<lparr>ge_key := Some (keys + g)\<rparr>"
    "\<And>i. \<forall>g < ng. i \<noteq> unat (?slot g) \<Longrightarrow> cache ! i = bg_cache st1 ! i"
    using raw sl(2) by (simp_all add: c3)
  have made_st: "h_flush_setup (2 ^ k) pool_reset accs keys junk n rows grp ng = st3\<lparr>bg_cache := cache\<rparr>"
    unfolding h_flush_setup_def st0 [symmetric] Let_def st1 prod.case st3 [symmetric] by (rule cache(1))
  have occ: "0 \<le> ge_len (cache ! unat s) \<longleftrightarrow> s \<in> ?slot ` {..<ng}" if s: "in_ring k s" for s :: u32
  proof -
    have "0 \<le> ge_len (bg_cache st1 ! unat s) \<longleftrightarrow> (\<exists>g < ng. s = ?slot g)"
      using made s by (simp add: h_groups_made_def gby_filled_def)
    moreover have "ge_len (cache ! unat s) = ge_len (bg_cache st1 ! unat s)"
    proof (cases "\<exists>g < ng. s = ?slot g")
      case True
      then show ?thesis using cache(2) by auto
    next
      case False
      then have "\<forall>g < ng. unat s \<noteq> unat (?slot g)" by (simp add: word_unat_eq_iff)
      then show ?thesis using cache(3) by simp
    qed
    ultimately show ?thesis by auto
  qed
  have entry: "let e = bg_cache st1 ! unat (?slot g) in
        ge_len e = 1 \<and> ge_value e = g \<and> ge_hash e = ?slot g \<and> ge_key e = None \<and> ge_count e = 0 \<and> ge_placed e = 0 \<and>
        ge_bytes e = pool ! (2 ^ k div 2 - 1 - g) \<and> bg_key_pool st1 (ge_bytes e) = of_nat g \<and>
        bg_batch_slot st1 g = uint (?slot g)" if "g < ng" for g
    using made that by (simp add: h_groups_made_def gby_filled_def)
  have pb: "pool ! (2 ^ k div 2 - 1 - g) \<in> set pool" if "g < ng" for g
    using that ng pool(2) by (intro nth_mem) simp
  have ready_entry: "let e = cache ! unat (?slot g) in
        ge_value e = g \<and> ge_len e = 1 \<and> ge_hash e = ?slot g \<and> ge_key e = Some (keys + g) \<and>
        ge_count e = 0 \<and> ge_placed e = 0 \<and> ge_bytes e \<in> set pool \<and> bg_key_pool st1 (ge_bytes e) = of_nat g \<and>
        bg_batch_slot st1 g = uint (?slot g) \<and> fs_accumulators st1 g = Some (accs + g) \<and> fs_tuple_count st1 g = 0"
    if "g < ng" for g
    using entry [OF that] pb [OF that] cache(2) [OF that] made that by (auto simp: Let_def h_groups_made_def)
  have pend: "ge_value (cache ! nat (slot_of (grp t))) = grp t" if "t < n" for t
    using ready_entry [OF grp [OF that]] sl(2) [OF grp [OF that]] by (simp add: Let_def)
  have "bg_n_pool_free st1 + ng = 2 ^ k div 2" "bg_n_cached st1 = int ng" "\<not> fs_off st1"
    using made ng by (simp_all add: h_groups_made_def gby_filled_def)
  moreover have "inj_on ?slot {..<ng}" by (rule inj_onI) (use inj in auto)
  ultimately show ?thesis unfolding made_st h_flush_ready_def using occ ready_entry pend
    by (simp add: st3 h_pend_fold)
qed

theorem flush_setup_ready_witness:
  "h_flush_ready 3 100 200 [0, 1, 2, 3] 2 (\<lambda>t. 10 * int t) (\<lambda>t. t) 3
     (h_flush_setup 8 (\<lambda>st. st\<lparr>bg_pool_free := [0, 1, 2, 3], bg_n_pool_free := 4\<rparr>) 100 200 any_flush_state 2
        (\<lambda>t. 10 * int t) (\<lambda>t. t) 3)"
  using flush_setup_ready [of 3 "[0, 1, 2, 3]" any_flush_state
      "\<lambda>st. st\<lparr>bg_pool_free := [0, 1, 2, 3], bg_n_pool_free := 4\<rparr>" 3 2 "\<lambda>t. t" 100 200 "\<lambda>t. 10 * int t"]
  by (simp add: any_flush_state_def)

end
