(* ===== verification/GbyCache.thy ===== *)
theory GbyCache
  imports GbyFlush
begin

text \<open>
  The two cache scenarios of \<open>src/unit/query/query_executor.h_gby_flush_replay/hooks.cpp\<close>: adding
  \<open>n\<close> keys that name \<open>n\<close> groups, and adding two keys that name one. The engine's add, lookup,
  clear and hash are parameters; the hash table's answer is the fake \<open>mht_get\<close>'s
  \<open>h_get_result\<close>. A pointer to a group's value is its index.
\<close>

section \<open>The scenarios\<close>

text \<open>\<open>memcpy (key, &v, 4)\<close> of a non-negative \<open>int\<close> on the little-endian platform.\<close>

definition key_of_int :: "int \<Rightarrow> u8 list" where
  "key_of_int v = [word_of_int v, word_of_int (v div 256), word_of_int (v div 256 ^ 2), word_of_int (v div 256 ^ 3)]"

text \<open>\<open>memset (&st, 0, sizeof (st))\<close>, and the values' \<open>batch_slot\<close> -1.\<close>

definition gby_zero :: batch_gby where
  "gby_zero = \<lparr>bg_cache = [], bg_pool_free = [], bg_n_pool_free = 0, bg_n_cached = 0, bg_key_pool = (\<lambda>_. 0),
     bg_batch_slot = (\<lambda>_. - 1)\<rparr>"

text \<open>The engine's side: what an add leaves and the fakes it called; the slot a lookup finds.\<close>

record gby_engine =
  en_hash :: "u8 list \<Rightarrow> u32"
  en_add :: "nat option \<Rightarrow> batch_gby \<Rightarrow> u8 list \<Rightarrow> u32 \<Rightarrow> batch_gby \<times> fake_call list"
  en_find :: "batch_gby \<Rightarrow> u8 list \<Rightarrow> u32 \<Rightarrow> nat option"
  en_clear :: "batch_gby \<Rightarrow> fake_call list"

definition gby_add_key :: "gby_engine \<Rightarrow> nat \<Rightarrow> u8 list \<Rightarrow> batch_gby \<times> h_recorder \<Rightarrow> batch_gby \<times> h_recorder" where
  "gby_add_key en v key = (\<lambda>(st, r).
     (let r1 = r\<lparr>h_get_result := Some v\<rparr>;
          (st1, calls) = en_add en (h_get_result r1) st key (en_hash en key)
      in (st1, fake_steps calls r1)))"

definition h_cache_add_scenario :: "gby_engine \<Rightarrow> nat \<Rightarrow> h_recorder \<Rightarrow> (int \<times> bool \<times> bool \<times> nat \<times> nat) \<times> h_recorder" where
  "h_cache_add_scenario en n r =
     (let (st, r1) = fold (\<lambda>i. gby_add_key en i (key_of_int (int i))) [0..<n]
                       (gby_zero, r\<lparr>h_n_copy := 0, h_n_free_key := 0\<rparr>);
          first = key_of_int 0;
          found_first = (en_find en st first (en_hash en first) \<noteq> None);
          last_key = key_of_int (int n - 1);
          e = en_find en st last_key (en_hash en last_key);
          found_last = (case e of None \<Rightarrow> False
                        | Some s \<Rightarrow> ge_value (bg_cache st ! s) = n - 1 \<and> bg_batch_slot st (n - 1) = int s)
      in ((bg_n_cached st, found_first, found_last, h_n_copy r1, h_n_free_key r1), fake_steps (en_clear en st) r1))"

definition h_cache_same_group_scenario ::
    "gby_engine \<Rightarrow> h_recorder \<Rightarrow> (int \<times> bool \<times> bool \<times> bool \<times> nat \<times> nat) \<times> h_recorder" where
  "h_cache_same_group_scenario en r =
     (let a = [97, 0, 0, 0]; b = [65, 0, 0, 0];
          (st, r1) = gby_add_key en 0 b (gby_add_key en 0 a (gby_zero, r\<lparr>h_n_copy := 0, h_n_free_key := 0\<rparr>));
          ea = en_find en st a (en_hash en a);
          eb = en_find en st b (en_hash en b);
          found_a = (case ea of None \<Rightarrow> False | Some s \<Rightarrow> ge_value (bg_cache st ! s) = 0);
          found_b = (case eb of None \<Rightarrow> False | Some s \<Rightarrow> ge_value (bg_cache st ! s) = 0);
          slot_is_b = (case eb of None \<Rightarrow> False | Some s \<Rightarrow> bg_batch_slot st 0 = int s)
      in ((bg_n_cached st, found_a, found_b, slot_is_b, h_n_copy r1, h_n_free_key r1), fake_steps (en_clear en st) r1))"

section \<open>What the cache promises\<close>

text \<open>
  The contract the suite states of the cache: at most \<open>half\<close> entries, starting over when full; a
  group keeps one entry, the later bytes replacing the earlier; one key copy per entry, given back
  when the entry goes; a value's \<open>batch_slot\<close> names its entry. \<open>entries\<close> is the cache's content
  in the order of the adds, \<open>ok\<close> the cache's own invariant.
\<close>

definition gby_room :: "nat \<Rightarrow> nat \<Rightarrow> (u8 list \<times> nat) list \<Rightarrow> (u8 list \<times> nat) list" where
  "gby_room half v es =
     (if v \<in> snd ` set es then filter (\<lambda>e. snd e \<noteq> v) es else if length es = half then [] else es)"

definition gby_promise ::
    "nat \<Rightarrow> (batch_gby \<Rightarrow> bool) \<Rightarrow> (batch_gby \<Rightarrow> (u8 list \<times> nat) list) \<Rightarrow> gby_engine \<Rightarrow> bool" where
  "gby_promise half ok entries en \<longleftrightarrow>
     ok gby_zero \<and> entries gby_zero = [] \<and>
     (\<forall>st. ok st \<longrightarrow> bg_n_cached st = int (length (entries st))) \<and>
     (\<forall>st key v. ok st \<longrightarrow> length key = 4 \<longrightarrow> key \<notin> fst ` set (entries st) \<longrightarrow>
        (case en_add en (Some v) st key (en_hash en key) of (st1, calls) \<Rightarrow>
           ok st1 \<and> entries st1 = gby_room half v (entries st) @ [(key, v)] \<and>
           length (filter (\<lambda>c. \<exists>b. c = CopyKey b) calls) = 1 \<and>
           count_list calls FreeKey + length (gby_room half v (entries st)) = length (entries st))) \<and>
     (\<forall>st key. ok st \<longrightarrow> length key = 4 \<longrightarrow>
        (case en_find en st key (en_hash en key) of
           None \<Rightarrow> key \<notin> fst ` set (entries st)
         | Some s \<Rightarrow> (\<exists>v. (key, v) \<in> set (entries st) \<and> ge_value (bg_cache st ! s) = v \<and> bg_batch_slot st v = int s)))"

lemma key_of_int_length [simp]: "length (key_of_int v) = 4"
  by (simp add: key_of_int_def)

lemma key_of_int_inj:
  assumes "0 \<le> v" "v < 2 ^ 32" "0 \<le> w" "w < 2 ^ 32" "key_of_int v = key_of_int w"
  shows "v = w"
proof -
  have sum: "x = x mod 256 + 256 * ((x div 256) mod 256 + 256 * ((x div 256 ^ 2) mod 256 + 256 * ((x div 256 ^ 3) mod 256)))"
    if x: "0 \<le> x" "x < 2 ^ 32" for x :: int
  proof -
    have a: "x div 256 ^ 2 = x div 256 div 256" "x div 256 ^ 3 = x div 256 div 256 div 256"
      by (simp_all add: div_mult2_eq [symmetric] zdiv_zmult2_eq [symmetric] power2_eq_square power3_eq_cube)
    have b: "0 \<le> x div 256 div 256 div 256" "x div 256 div 256 div 256 < 256" using x by (simp_all add: div_less_iff_less_mult)
    obtain y where y: "y = x div 256" by blast
    obtain z where z: "z = y div 256" by blast
    obtain u where u: "u = z div 256" by blast
    have "x = x mod 256 + 256 * y" "y = y mod 256 + 256 * z" "z = z mod 256 + 256 * u"
      unfolding y z u by (simp_all add: mod_mult_div_eq)
    moreover have "u mod 256 = u" using b unfolding y z u by simp
    ultimately show ?thesis unfolding a y [symmetric] z [symmetric] u [symmetric] by simp
  qed
  have byte: "x mod 256 = y mod 256" if "word_of_int x = (word_of_int y :: u8)" for x y
    using arg_cong [OF that, of uint] by (simp add: uint_word_of_int)
  have "v mod 256 = w mod 256" "(v div 256) mod 256 = (w div 256) mod 256"
    "(v div 256 ^ 2) mod 256 = (w div 256 ^ 2) mod 256" "(v div 256 ^ 3) mod 256 = (w div 256 ^ 3) mod 256"
    using assms(5) unfolding key_of_int_def list.inject by (intro byte; simp only: simp_thms)+
  then show ?thesis using sum [OF assms(1,2)] sum [OF assms(3,4)] by metis
qed

text \<open>One add, under the promise.\<close>

lemma promise_parts:
  assumes "gby_promise half ok entries en"
  shows "\<forall>st key v. ok st \<longrightarrow> length key = 4 \<longrightarrow> key \<notin> fst ` set (entries st) \<longrightarrow>
        (case en_add en (Some v) st key (en_hash en key) of (st1, calls) \<Rightarrow>
           ok st1 \<and> entries st1 = gby_room half v (entries st) @ [(key, v)] \<and>
           length (filter (\<lambda>c. \<exists>b. c = CopyKey b) calls) = 1 \<and>
           count_list calls FreeKey + length (gby_room half v (entries st)) = length (entries st))"
    "\<forall>st key. ok st \<longrightarrow> length key = 4 \<longrightarrow>
        (case en_find en st key (en_hash en key) of
           None \<Rightarrow> key \<notin> fst ` set (entries st)
         | Some s \<Rightarrow> (\<exists>v. (key, v) \<in> set (entries st) \<and> ge_value (bg_cache st ! s) = v \<and> bg_batch_slot st v = int s))"
  using assms unfolding gby_promise_def by - (elim conjE, assumption)+

lemma gby_add_step:
  assumes p: "gby_promise half ok entries en" and ok: "ok st" and key: "length key = 4" "key \<notin> fst ` set (entries st)"
    and run: "gby_add_key en v key (st, r) = (st', r')"
  shows "ok st'" "entries st' = gby_room half v (entries st) @ [(key, v)]" "h_n_copy r' = h_n_copy r + 1"
    "h_n_free_key r' + length (gby_room half v (entries st)) = h_n_free_key r + length (entries st)"
proof -
  obtain st1 calls where add: "en_add en (Some v) st key (en_hash en key) = (st1, calls)"
    by (cases "en_add en (Some v) st key (en_hash en key)")
  have r: "st' = st1" "r' = fake_steps calls (r\<lparr>h_get_result := Some v\<rparr>)"
    using run by (simp_all add: gby_add_key_def add)
  have "case en_add en (Some v) st key (en_hash en key) of (st1, calls) \<Rightarrow>
           ok st1 \<and> entries st1 = gby_room half v (entries st) @ [(key, v)] \<and>
           length (filter (\<lambda>c. \<exists>b. c = CopyKey b) calls) = 1 \<and>
           count_list calls FreeKey + length (gby_room half v (entries st)) = length (entries st)"
    using promise_parts(1) [OF p] ok key by (elim allE impE) assumption+
  then have q: "ok st1" "entries st1 = gby_room half v (entries st) @ [(key, v)]"
    "length (filter (\<lambda>c. \<exists>b. c = CopyKey b) calls) = 1"
    "count_list calls FreeKey + length (gby_room half v (entries st)) = length (entries st)"
    unfolding add prod.case by blast+
  show "ok st'" "entries st' = gby_room half v (entries st) @ [(key, v)]" using q(1,2) r(1) by simp_all
  show "h_n_copy r' = h_n_copy r + 1" using q(3) unfolding r(2) fake_steps_counts by simp
  show "h_n_free_key r' + length (gby_room half v (entries st)) = h_n_free_key r + length (entries st)"
    using q(4) unfolding r(2) fake_steps_counts by simp
qed

lemma gby_look:
  assumes "gby_promise half ok entries en" "ok st" "length key = 4"
  shows "case en_find en st key (en_hash en key) of
           None \<Rightarrow> key \<notin> fst ` set (entries st)
         | Some s \<Rightarrow> (\<exists>v. (key, v) \<in> set (entries st) \<and> ge_value (bg_cache st ! s) = v \<and> bg_batch_slot st v = int s)"
  using promise_parts(2) [OF assms(1)] assms(2,3) by (elim allE impE) assumption+

text \<open>The index of the first key still cached after \<open>n\<close> adds.\<close>

definition first_cached :: "nat \<Rightarrow> nat \<Rightarrow> nat" where
  "first_cached half n = (if n = 0 then 0 else (n - 1) div half * half)"

lemma first_cached_Suc:
  assumes "0 < half"
  shows "first_cached half (Suc n) = (if n - first_cached half n = half then n else first_cached half n)"
    "first_cached half n \<le> n" "n - first_cached half n \<le> half"
proof -
  have *: "first_cached half (Suc n) = (if n - first_cached half n = half then n else first_cached half n)
      \<and> first_cached half n \<le> n \<and> n - first_cached half n \<le> half"
  proof (cases n)
    case (Suc m)
    have d: "m = m div half * half + m mod half" by simp
    have l: "m mod half < half" using assms by simp
    have f: "first_cached half n = m div half * half" "first_cached half (Suc n) = Suc m div half * half"
      by (simp_all add: first_cached_def Suc)
    have gap: "n - first_cached half n = Suc (m mod half)" using d Suc f(1) by linarith
    show ?thesis
    proof (cases "Suc (m mod half) = half")
      case True
      have "Suc m = Suc (m div half) * half" using d True by (metis add.commute add_Suc_right mult_Suc)
      then have "Suc m div half * half = Suc m" using assms by (metis nonzero_mult_div_cancel_right neq0_conv)
      then show ?thesis using gap True f d Suc by simp
    next
      case False
      then have "Suc m div half = m div half" by (simp add: div_Suc mod_Suc)
      then show ?thesis using gap False f l d Suc by (metis Suc_leI le_add1 le_Suc_eq)
    qed
  qed (use assms in \<open>simp add: first_cached_def\<close>)
  then show "first_cached half (Suc n) = (if n - first_cached half n = half then n else first_cached half n)"
    "first_cached half n \<le> n" "n - first_cached half n \<le> half" by blast+
qed

lemma gby_adds:
  assumes p: "gby_promise half ok entries en" and half: "0 < half" and start: "h_n_copy r = 0" "h_n_free_key r = 0"
  shows "n \<le> 2 ^ 31 \<Longrightarrow> fold (\<lambda>i. gby_add_key en i (key_of_int (int i))) [0..<n] (gby_zero, r) = (st', r') \<Longrightarrow>
    ok st' \<and> entries st' = map (\<lambda>i. (key_of_int (int i), i)) [first_cached half n..<n] \<and>
    h_n_copy r' = n \<and> h_n_free_key r' = first_cached half n"
proof (induction n arbitrary: st' r')
  case 0
  then show ?case using p start by (simp add: gby_promise_def first_cached_def)
next
  case (Suc n)
  obtain st1 r1 where before: "fold (\<lambda>i. gby_add_key en i (key_of_int (int i))) [0..<n] (gby_zero, r) = (st1, r1)"
    by (cases "fold (\<lambda>i. gby_add_key en i (key_of_int (int i))) [0..<n] (gby_zero, r)")
  then have run: "gby_add_key en n (key_of_int (int n)) (st1, r1) = (st', r')" using Suc.prems(2) by simp
  let ?f = "first_cached half n" and ?es = "map (\<lambda>i. (key_of_int (int i), i)) [first_cached half n..<n]"
  have IH: "ok st1" "entries st1 = ?es" "h_n_copy r1 = n" "h_n_free_key r1 = ?f"
    using Suc.IH [OF _ before] Suc.prems(1) by simp_all
  have fresh: "key_of_int (int n) \<notin> fst ` set (entries st1)"
  proof
    assume "key_of_int (int n) \<in> fst ` set (entries st1)"
    then obtain i where "i < n" "key_of_int (int n) = key_of_int (int i)" unfolding IH(2) by auto
    then show False using key_of_int_inj [of "int n" "int i"] Suc.prems(1) by simp
  qed
  note step = gby_add_step [OF p IH(1) key_of_int_length fresh run]
  have "n \<notin> snd ` set ?es" by auto
  then have room: "gby_room half n (entries st1) = (if n - ?f = half then [] else ?es)"
    unfolding IH(2) gby_room_def by simp
  note f = first_cached_Suc [OF half, of n]
  have "entries st' = map (\<lambda>i. (key_of_int (int i), i)) [first_cached half (Suc n)..<Suc n]"
    unfolding step(2) room f(1) using f(2) by simp
  moreover have "h_n_free_key r' = first_cached half (Suc n)"
    using step(4) f(2) unfolding room unfolding f(1) IH(2,4) by (simp split: if_splits)
  ultimately show ?case using step(1,3) IH(3) by simp
qed

section \<open>Properties\<close>

text \<open>
  A cache of one entry that keeps the promise: each add replaces what there is. The entry's
  \<open>ge_bytes\<close> holds the four key bytes as a number. It shows that the promise can be kept.
\<close>

definition one_num :: "u8 list \<Rightarrow> nat" where
  "one_num key = unat (key ! 0) + 256 * (unat (key ! 1) + 256 * (unat (key ! 2) + 256 * unat (key ! 3)))"

definition one_entry :: "u8 list \<Rightarrow> nat \<Rightarrow> gby_entry" where
  "one_entry key v = any_entry\<lparr>ge_bytes := one_num key, ge_value := v\<rparr>"

definition one_entries :: "batch_gby \<Rightarrow> (u8 list \<times> nat) list" where
  "one_entries st = map (\<lambda>e. (key_of_int (int (ge_bytes e)), ge_value e)) (bg_cache st)"

definition one_ok :: "batch_gby \<Rightarrow> bool" where
  "one_ok st \<longleftrightarrow> bg_n_cached st = int (length (bg_cache st)) \<and>
     (bg_cache st = [] \<or> (\<exists>key v. length key = 4 \<and> bg_cache st = [one_entry key v] \<and> bg_batch_slot st v = 0))"

definition one_engine :: gby_engine where
  "one_engine = \<lparr>en_hash = (\<lambda>_. 0),
     en_add = (\<lambda>v st key h. (st\<lparr>bg_cache := [one_entry key (the v)], bg_n_cached := 1,
        bg_batch_slot := (bg_batch_slot st)(the v := 0)\<rparr>,
        CopyKey 0 # (if bg_cache st = [] then [] else [FreeKey]))),
     en_find = (\<lambda>st key h. if bg_cache st \<noteq> [] \<and> ge_bytes (bg_cache st ! 0) = one_num key then Some 0 else None),
     en_clear = (\<lambda>st. [])\<rparr>"

lemma one_num_bytes:
  assumes "length key = 4"
  shows "key_of_int (int (one_num key)) = key"
proof -
  obtain a b c d where key: "key = [a, b, c, d]"
    using assms by (auto simp: numeral_eq_Suc length_Suc_conv)
  have byte: "word_of_int (int (unat x) + 256 * y) = x" for x :: u8 and y
  proof -
    have "word_of_int (256 * y) = (0 :: u8)" by (simp only: word_uint_eq_iff uint_word_of_int unsigned_0) simp
    then show ?thesis by (simp only: of_int_add of_int_mult) simp
  qed
  have shift: "(int (unat x) + 256 * y) div 256 = y" for x :: u8 and y
  proof -
    have "0 \<le> int (unat x)" "int (unat x) < 256" using uint_lt2p [of x] by simp_all
    then show ?thesis by simp
  qed
  have d2: "x div 256 ^ 2 = x div 256 div 256" "x div 256 ^ 3 = x div 256 div 256 div 256" for x :: int
    by (simp_all add: zdiv_zmult2_eq [symmetric] power2_eq_square power3_eq_cube)
  have top: "word_of_int (int (unat d)) = d" using byte [of d 0] by simp
  show ?thesis
    unfolding key_of_int_def one_num_def key d2 by (simp only: nth_Cons_0 nth_Cons_Suc One_nat_def numeral_2_eq_2 numeral_3_eq_3
        of_nat_add of_nat_mult of_nat_numeral byte shift top)
qed

lemma one_promise: "gby_promise 1 one_ok one_entries one_engine"
proof -
  have es: "one_entries st = [] \<or> (\<exists>key v. length key = 4 \<and> bg_cache st = [one_entry key v] \<and> one_entries st = [(key, v)]
      \<and> bg_batch_slot st v = 0)" if "one_ok st" for st
    using that one_num_bytes by (auto simp: one_ok_def one_entries_def one_entry_def)
  have empty: "bg_cache st = [] \<longleftrightarrow> one_entries st = []" for st by (simp add: one_entries_def)
  show ?thesis unfolding gby_promise_def
  proof (intro conjI allI impI)
    show "one_ok gby_zero" "one_entries gby_zero = []" by (simp_all add: one_ok_def gby_zero_def one_entries_def)
    fix st assume ok: "one_ok st"
    show "bg_n_cached st = int (length (one_entries st))" using ok by (simp add: one_ok_def one_entries_def)
    have inj: "k = k'" if "length k' = 4" "length k = 4" "one_num k = one_num k'" for k k'
      using one_num_bytes [OF that(1)] one_num_bytes [OF that(2)] that(3) by simp
    fix key :: "u8 list" assume len: "length key = 4"
    show "case en_find one_engine st key (en_hash one_engine key) of
           None \<Rightarrow> key \<notin> fst ` set (one_entries st)
         | Some s \<Rightarrow> (\<exists>v. (key, v) \<in> set (one_entries st) \<and> ge_value (bg_cache st ! s) = v \<and> bg_batch_slot st v = int s)"
      using es [OF ok] empty [of st] by (auto simp: one_engine_def one_entry_def dest: inj [OF len] inj [OF len, symmetric])
    fix v
    show "case en_add one_engine (Some v) st key (en_hash one_engine key) of (st1, calls) \<Rightarrow>
           one_ok st1 \<and> one_entries st1 = gby_room 1 v (one_entries st) @ [(key, v)] \<and>
           length (filter (\<lambda>c. \<exists>b. c = CopyKey b) calls) = 1 \<and>
           count_list calls FreeKey + length (gby_room 1 v (one_entries st)) = length (one_entries st)"
      using es [OF ok]
    proof (elim disjE exE conjE)
      assume "one_entries st = []"
      then have "bg_cache st = []" using empty by blast
      then show ?thesis using one_num_bytes [OF len] len
        by (simp add: one_engine_def one_ok_def one_entries_def one_entry_def gby_room_def exI [of _ key] exI [of _ v])
    next
      fix key' v' assume "length key' = 4" "bg_cache st = [one_entry key' v']" "one_entries st = [(key', v')]"
      then show ?thesis using one_num_bytes [OF len] one_num_bytes [of key'] len
        by (simp add: one_engine_def one_ok_def one_entries_def one_entry_def gby_room_def exI [of _ key] exI [of _ v])
    qed
  qed
qed

text \<open>
  C33. The add scenario, over any cache that keeps the promise with room for \<open>half\<close> entries: it
  counts the adds since the last start-over, finds the first key exactly when the cache never started
  over, always finds the last one in the slot its value names, and has made one copy per add and given
  back all but those still held.
\<close>

theorem cache_add_counts:
  assumes "gby_promise half ok entries en" "0 < half" "0 < n" "n \<le> 1024"
  shows "fst (h_cache_add_scenario en n r) =
    (int ((n - 1) mod half) + 1, n \<le> half, True, n, n - ((n - 1) mod half + 1))"
proof -
  let ?r = "r\<lparr>h_n_copy := 0, h_n_free_key := 0\<rparr>" and ?f = "first_cached half n"
  obtain st r1 where run: "fold (\<lambda>i. gby_add_key en i (key_of_int (int i))) [0..<n] (gby_zero, ?r) = (st, r1)"
    by (cases "fold (\<lambda>i. gby_add_key en i (key_of_int (int i))) [0..<n] (gby_zero, ?r)")
  have adds: "ok st" "entries st = map (\<lambda>i. (key_of_int (int i), i)) [?f..<n]" "h_n_copy r1 = n" "h_n_free_key r1 = ?f"
    using gby_adds [OF assms(1,2), of ?r n st r1] run assms(4) by simp_all
  have d: "n - 1 = (n - 1) div half * half + (n - 1) mod half" by simp
  have "?f = (n - 1) div half * half" using assms(3) by (simp add: first_cached_def)
  then have f: "?f = n - ((n - 1) mod half + 1)" "?f \<le> n" "?f < n" using assms(3) d by linarith+
  have "(n - 1) mod half \<le> n - 1" by simp
  then have "n - ?f = (n - 1) mod half + 1" using f(1) assms(3) by linarith
  moreover have "bg_n_cached st = int (length (entries st))" using assms(1) adds(1) unfolding gby_promise_def by blast
  ultimately have cached: "bg_n_cached st = int ((n - 1) mod half) + 1" unfolding adds(2) by simp
  have eq: "key_of_int (int i) = key_of_int (int j) \<longleftrightarrow> i = j" if "i < n" "j < n" for i j
    using key_of_int_inj [of "int i" "int j"] that assms(4) by auto
  have key: "key_of_int (int i) \<in> fst ` set (entries st) \<longleftrightarrow> ?f \<le> i" if "i < n" for i
  proof
    assume "key_of_int (int i) \<in> fst ` set (entries st)"
    then obtain j where "?f \<le> j" "j < n" "key_of_int (int i) = key_of_int (int j)" unfolding adds(2) by auto
    then show "?f \<le> i" using eq [OF that, of j] by simp
  next
    assume "?f \<le> i"
    then show "key_of_int (int i) \<in> fst ` set (entries st)" using that unfolding adds(2) by (auto simp: image_iff)
  qed
  have own: "v = i" if "(key_of_int (int i), v) \<in> set (entries st)" "i < n" for i v
    using that eq [of i v] unfolding adds(2) by auto
  note look = gby_look [OF assms(1) adds(1)]
  have found: "en_find en st k (en_hash en k) \<noteq> None \<longleftrightarrow> k \<in> fst ` set (entries st)" if "length k = 4" for k
    using look [OF that] by (cases "en_find en st k (en_hash en k)") (auto intro: rev_image_eqI)
  have first: "(en_find en st (key_of_int 0) (en_hash en (key_of_int 0)) \<noteq> None) \<longleftrightarrow> ?f = 0"
    using found [of "key_of_int 0"] key [of 0] assms(3) by simp
  have "?f = 0 \<longleftrightarrow> n \<le> half"
  proof
    assume "?f = 0"
    then show "n \<le> half" using first_cached_Suc(3) [OF assms(2), of n] by simp
  next
    assume "n \<le> half"
    then show "?f = 0" using assms(3) by (simp add: first_cached_def)
  qed
  then have ff: "(en_find en st (key_of_int 0) (en_hash en (key_of_int 0)) \<noteq> None) \<longleftrightarrow> n \<le> half" using first by simp
  have lastk: "key_of_int (int n - 1) = key_of_int (int (n - 1))" using assms(3) by (simp add: of_nat_diff)
  have fl: "(case en_find en st (key_of_int (int n - 1)) (en_hash en (key_of_int (int n - 1))) of None \<Rightarrow> False
      | Some s \<Rightarrow> ge_value (bg_cache st ! s) = n - 1 \<and> bg_batch_slot st (n - 1) = int s)"
    using look [of "key_of_int (int (n - 1))"] key [of "n - 1"] own [of "n - 1"] f assms(3) unfolding lastk
    by (auto split: option.splits)
  show ?thesis
    unfolding h_cache_add_scenario_def run prod.case Let_def fst_conv using cached ff fl adds(3,4) f(1) by simp
qed

theorem cache_add_counts_witness: "fst (h_cache_add_scenario one_engine 3 recorder_zero) = (1, False, True, 3, 2)"
  using cache_add_counts [OF one_promise, of 3 recorder_zero] by simp

text \<open>
  Two byte strings of one group: over any cache that keeps the promise, one entry is left, the
  later bytes find the group in the slot its value names, the earlier bytes find nothing, and one of
  the two key copies has been given back.
\<close>

theorem same_group_one_entry:
  assumes "gby_promise half ok entries en" "0 < half"
  shows "fst (h_cache_same_group_scenario en r) = (1, False, True, True, 2, 1)"
proof -
  let ?a = "[97, 0, 0, 0] :: u8 list" and ?b = "[65, 0, 0, 0] :: u8 list"
  let ?r = "r\<lparr>h_n_copy := 0, h_n_free_key := 0\<rparr>"
  obtain st1 r1 where r1: "gby_add_key en 0 ?a (gby_zero, ?r) = (st1, r1)" by (cases "gby_add_key en 0 ?a (gby_zero, ?r)")
  obtain st r2 where r2: "gby_add_key en 0 ?b (st1, r1) = (st, r2)" by (cases "gby_add_key en 0 ?b (st1, r1)")
  have z: "ok gby_zero" "entries gby_zero = []" using assms(1) by (simp_all add: gby_promise_def)
  have sa: "ok st1" "entries st1 = [(?a, 0)]" "h_n_copy r1 = 1" "h_n_free_key r1 = 0"
    using gby_add_step [OF assms(1) z(1) _ _ r1] z(2) assms(2) by (simp_all add: gby_room_def)
  have sb: "ok st" "entries st = [(?b, 0)]" "h_n_copy r2 = 2" "h_n_free_key r2 = 1"
    using gby_add_step [OF assms(1) sa(1) _ _ r2] sa by (simp_all add: gby_room_def)
  have n: "bg_n_cached st = 1" using assms(1) sb(1,2) unfolding gby_promise_def by fastforce
  have fa: "(case en_find en st ?a (en_hash en ?a) of None \<Rightarrow> False | Some s \<Rightarrow> ge_value (bg_cache st ! s) = 0) = False"
    using gby_look [OF assms(1) sb(1), of ?a] unfolding sb(2) by (simp split: option.splits)
  have fb: "case en_find en st ?b (en_hash en ?b) of None \<Rightarrow> False | Some s \<Rightarrow> ge_value (bg_cache st ! s) = 0"
    "case en_find en st ?b (en_hash en ?b) of None \<Rightarrow> False | Some s \<Rightarrow> bg_batch_slot st 0 = int s"
    using gby_look [OF assms(1) sb(1), of ?b] unfolding sb(2) by (auto split: option.splits)
  show ?thesis
    unfolding h_cache_same_group_scenario_def Let_def r1 r2 prod.case fst_conv using n fa fb sb(3,4) by simp
qed

theorem same_group_one_entry_witness:
  "fst (h_cache_same_group_scenario one_engine recorder_zero) = (1, False, True, True, 2, 1)"
  using same_group_one_entry [OF one_promise] by simp

end
