(* ===== verification/KeptTrees.thy ===== *)
theory KeptTrees
  imports Prelude "HOL-Library.Multiset"
begin

text \<open>
  The registry of kept prepared trees as \<open>src/unit/compat/db_vdb.kept_tree_registry\<close> drives it:
  \<open>hooks.cpp\<close> reaches the registry at either of its two shapes (take and put back, or lookup) and
  repeats the EXECUTE choreography of each; \<open>test.cpp\<close> runs random sequences of statements and checks
  four invariants after each. The registry itself is a parameter: the functions of \<open>kept_api\<close> over
  a state \<open>'w\<close>, a function absent at a revision being \<open>None\<close>. Sessions are numbers.
\<close>

section \<open>The hooks\<close>

record 'w kept_api =
  ka_take :: "(string \<Rightarrow> string \<Rightarrow> 'w \<Rightarrow> nat option \<times> 'w) option"
  ka_put_back :: "(nat \<Rightarrow> 'w \<Rightarrow> 'w) option"
  ka_lookup :: "(string \<Rightarrow> string \<Rightarrow> 'w \<Rightarrow> nat option \<times> 'w) option"
  ka_unlink :: "string \<Rightarrow> 'w \<Rightarrow> nat option \<times> 'w"
  ka_close :: "nat \<Rightarrow> 'w \<Rightarrow> 'w"
  ka_remove :: "string \<Rightarrow> 'w \<Rightarrow> 'w"
  ka_register :: "nat \<Rightarrow> string \<Rightarrow> nat \<Rightarrow> 'w \<Rightarrow> bool \<times> 'w"
  ka_free_all :: "'w \<Rightarrow> 'w"
  ka_kept_trees :: "'w \<Rightarrow> nat option"
  ka_set_kept_trees :: "nat option \<Rightarrow> 'w \<Rightarrow> 'w"
  ka_mk :: "string \<Rightarrow> int \<Rightarrow> bool \<Rightarrow> 'w \<Rightarrow> nat \<times> 'w"
  ka_set_next :: "nat \<Rightarrow> nat \<Rightarrow> 'w \<Rightarrow> 'w"

text \<open>The templates: the result, \<open>*present\<close> and the state.\<close>

definition unitseam_take_t :: "'w kept_api \<Rightarrow> string \<Rightarrow> string \<Rightarrow> 'w \<Rightarrow> nat option \<times> bool \<times> 'w" where
  "unitseam_take_t api name text w =
     (case ka_take api of None \<Rightarrow> (None, False, w) | Some f \<Rightarrow> (case f name text w of (s, w1) \<Rightarrow> (s, True, w1)))"

definition unitseam_lookup_t :: "'w kept_api \<Rightarrow> string \<Rightarrow> string \<Rightarrow> 'w \<Rightarrow> nat option \<times> bool \<times> 'w" where
  "unitseam_lookup_t api name text w =
     (case ka_lookup api of None \<Rightarrow> (None, False, w) | Some f \<Rightarrow> (case f name text w of (s, w1) \<Rightarrow> (s, True, w1)))"

definition unitseam_put_back_t :: "'w kept_api \<Rightarrow> nat \<Rightarrow> 'w \<Rightarrow> bool \<times> 'w" where
  "unitseam_put_back_t api kept w = (case ka_put_back api of None \<Rightarrow> (False, w) | Some f \<Rightarrow> (True, f kept w))"

definition unitseam_take :: "'w kept_api \<Rightarrow> string \<Rightarrow> string \<Rightarrow> 'w \<Rightarrow> nat option \<times> bool \<times> 'w" where
  "unitseam_take = unitseam_take_t"

definition unitseam_lookup :: "'w kept_api \<Rightarrow> string \<Rightarrow> string \<Rightarrow> 'w \<Rightarrow> nat option \<times> bool \<times> 'w" where
  "unitseam_lookup = unitseam_lookup_t"

definition unitseam_put_back :: "'w kept_api \<Rightarrow> nat \<Rightarrow> 'w \<Rightarrow> bool \<times> 'w" where
  "unitseam_put_back = unitseam_put_back_t"

definition unitseam_has_take_t :: "'w kept_api \<Rightarrow> bool" where
  "unitseam_has_take_t api \<longleftrightarrow> ka_take api \<noteq> None"

definition unitseam_shape :: "'w kept_api \<Rightarrow> int" where
  "unitseam_shape api = (if unitseam_has_take_t api then 1 else 0)"

definition unitseam_exec_checkout :: "'w kept_api \<Rightarrow> string \<Rightarrow> string \<Rightarrow> 'w \<Rightarrow> nat option \<times> 'w" where
  "unitseam_exec_checkout api name text w =
     (if unitseam_shape api = 1 then (case unitseam_take_t api name text w of (s, p, w1) \<Rightarrow> (s, w1))
      else (case unitseam_lookup_t api name text w of (s, p, w1) \<Rightarrow> (s, w1)))"

definition unitseam_exec_return_ok :: "'w kept_api \<Rightarrow> nat \<Rightarrow> 'w \<Rightarrow> 'w" where
  "unitseam_exec_return_ok api kept w = (if unitseam_shape api = 1 then snd (unitseam_put_back_t api kept w) else w)"

definition unitseam_exec_stale :: "'w kept_api \<Rightarrow> nat \<Rightarrow> string \<Rightarrow> bool \<Rightarrow> 'w \<Rightarrow> 'w" where
  "unitseam_exec_stale api kept name signature_miss w =
     (if unitseam_shape api = 1
      then (if signature_miss then snd (unitseam_put_back_t api kept w) else ka_close api kept w)
      else if \<not> signature_miss then ka_remove api name w else w)"

definition unitseam_unlink :: "'w kept_api \<Rightarrow> string \<Rightarrow> 'w \<Rightarrow> nat option \<times> 'w" where
  "unitseam_unlink api name w = ka_unlink api name w"

definition unitseam_close :: "'w kept_api \<Rightarrow> nat \<Rightarrow> 'w \<Rightarrow> 'w" where
  "unitseam_close api kept w = ka_close api kept w"

definition unitseam_remove :: "'w kept_api \<Rightarrow> string \<Rightarrow> 'w \<Rightarrow> 'w" where
  "unitseam_remove api name w = ka_remove api name w"

definition unitseam_register :: "'w kept_api \<Rightarrow> nat \<Rightarrow> string \<Rightarrow> nat \<Rightarrow> 'w \<Rightarrow> bool \<times> 'w" where
  "unitseam_register api own name subsession w = ka_register api own name subsession w"

definition unitseam_list_head :: "'w kept_api \<Rightarrow> 'w \<Rightarrow> nat option" where
  "unitseam_list_head api w = ka_kept_trees api w"

definition unitseam_list_forget :: "'w kept_api \<Rightarrow> 'w \<Rightarrow> 'w" where
  "unitseam_list_forget api w = ka_set_kept_trees api None w"

section \<open>The random sequences\<close>

text \<open>
  What the suite reads of the registry: the list's entries (name and session), the sessions a
  close of one reaches (itself and the plans of other signatures), how often each was closed, the
  name a session was kept under, and the pool of all sessions made.
\<close>

record kept_view =
  kv_entries :: "(string \<times> nat) list"
  kv_tree :: "nat \<Rightarrow> nat list"
  kv_closes :: "nat \<Rightarrow> nat"
  kv_name :: "nat \<Rightarrow> string"
  kv_pool :: "nat list"

text \<open>The statement sequence's state: the stack of executions and the server's text per name.\<close>

record 'w kt_state =
  kt_w :: 'w
  kt_stack :: "(string \<times> nat option) list"
  kt_text :: "string \<Rightarrow> string"

definition keep :: "'w kept_api \<Rightarrow> string \<Rightarrow> string \<Rightarrow> int \<Rightarrow> 'w \<Rightarrow> 'w option" where
  "keep api name stmt sig w =
     (let (own, w1) = ka_mk api stmt 0 False w;
          (subs, w2) = ka_mk api stmt sig True w1;
          (ok, w3) = unitseam_register api own name subs (ka_set_next api own subs w2)
      in if ok then Some w3 else None)"

text \<open>An execution ends: without error, or with the kept tree stale and a fresh compilation kept.\<close>

definition kt_end :: "'w kept_api \<Rightarrow> bool \<Rightarrow> bool \<Rightarrow> string \<Rightarrow> string \<Rightarrow> int \<Rightarrow> nat option \<Rightarrow> 'w \<Rightarrow> 'w option" where
  "kt_end api is_ok miss name stmt sig kept w =
     (case kept of
        Some s \<Rightarrow> (if is_ok then Some (unitseam_exec_return_ok api s w)
                   else keep api name stmt sig (unitseam_exec_stale api s name miss w))
      | None \<Rightarrow> keep api name stmt sig w)"

inductive kt_step :: "'w kept_api \<Rightarrow> 'w kt_state \<Rightarrow> 'w kt_state \<Rightarrow> bool" for api :: "'w kept_api" where
  kt_prepare: "kt_step api st (st\<lparr>kt_w := unitseam_remove api name (kt_w st), kt_text := (kt_text st)(name := text)\<rparr>)"
| kt_deallocate: "kt_step api st (st\<lparr>kt_w := unitseam_remove api name (kt_w st)\<rparr>)"
| kt_begin: "length (kt_stack st) < 3 \<Longrightarrow> unitseam_exec_checkout api name (kt_text st name) (kt_w st) = (k, w) \<Longrightarrow>
    kt_step api st (st\<lparr>kt_w := w, kt_stack := (name, k) # kt_stack st\<rparr>)"
| kt_ends: "kt_stack st = (name, k) # stack \<Longrightarrow> kt_end api is_ok miss name (kt_text st name) sig k (kt_w st) = Some w \<Longrightarrow>
    kt_step api st (st\<lparr>kt_w := w, kt_stack := stack\<rparr>)"
| kt_keep: "kt_stack st = [] \<Longrightarrow> keep api name (kt_text st name) sig (unitseam_remove api name (kt_w st)) = Some w \<Longrightarrow>
    kt_step api st (st\<lparr>kt_w := w\<rparr>)"
| kt_session: "kt_step api st (st\<lparr>kt_w := ka_free_all api (kt_w st)\<rparr>)"

inductive kt_reach :: "'w kept_api \<Rightarrow> 'w kt_state \<Rightarrow> 'w kt_state \<Rightarrow> bool" for api :: "'w kept_api" where
  kt_start: "kt_reach api st st"
| kt_next: "kt_reach api st st' \<Longrightarrow> kt_step api st' st'' \<Longrightarrow> kt_reach api st st''"

text \<open>\<open>check_invariants\<close>: it holds when the suite's function returns the empty string.\<close>

definition check_invariants :: "kept_view \<Rightarrow> (string \<times> nat option) list \<Rightarrow> bool" where
  "check_invariants v stack \<longleftrightarrow>
     distinct (map fst (kv_entries v)) \<and>
     list_all (\<lambda>(name, s). list_all (\<lambda>c. kv_closes v c = 0) (kv_tree v s)) (kv_entries v) \<and>
     distinct (concat (map (\<lambda>(name, s). kv_tree v s) (kv_entries v))) \<and>
     list_all (\<lambda>(name, kept). case kept of None \<Rightarrow> True | Some s \<Rightarrow> kv_closes v s = 0) stack \<and>
     list_all (\<lambda>f. kv_closes v f \<le> 1) (kv_pool v)"

section \<open>What the registry promises\<close>

definition without :: "string \<Rightarrow> kept_view \<Rightarrow> kept_view" where
  "without name v = v\<lparr>kv_entries := filter (\<lambda>e. fst e \<noteq> name) (kv_entries v)\<rparr>"

definition closed_with :: "nat list \<Rightarrow> kept_view \<Rightarrow> kept_view" where
  "closed_with ss v = v\<lparr>kv_closes := (\<lambda>x. kv_closes v x + count_list ss x)\<rparr>"

definition dropped :: "string \<Rightarrow> kept_view \<Rightarrow> kept_view" where
  "dropped name v =
     (case map_of (kv_entries v) name of None \<Rightarrow> v | Some s \<Rightarrow> closed_with (kv_tree v s) (without name v))"

text \<open>
  The parts both shapes have: \<open>remove\<close> closes the name's entry, \<open>close\<close> a session with its plans,
  \<open>free_all\<close> every entry; a registration makes the session the name's one entry, and the sessions of
  the name's earlier entry are each either carried over as its plans or closed; a new session is alone.
\<close>

definition registered :: "string \<Rightarrow> nat \<Rightarrow> kept_view \<Rightarrow> kept_view \<Rightarrow> bool" where
  "registered name s v v' \<longleftrightarrow>
     (\<exists>kept gone. mset (case map_of (kv_entries v) name of None \<Rightarrow> [] | Some p \<Rightarrow> kv_tree v p) = mset kept + mset gone \<and>
        v' = closed_with gone ((without name v)\<lparr>kv_entries := (name, s) # kv_entries (without name v),
               kv_tree := (kv_tree v)(s := kv_tree v s @ kept), kv_name := (kv_name v)(s := name)\<rparr>))"

definition common_promise :: "'w kept_api \<Rightarrow> ('w \<Rightarrow> kept_view) \<Rightarrow> bool" where
  "common_promise api view \<longleftrightarrow>
     (\<forall>name w. view (ka_remove api name w) = dropped name (view w)) \<and>
     (\<forall>s w. view (ka_close api s w) = closed_with (kv_tree (view w) s) (view w)) \<and>
     (\<forall>w. view (ka_free_all api w) =
        closed_with (concat (map (\<lambda>e. kv_tree (view w) (snd e)) (kv_entries (view w)))) ((view w)\<lparr>kv_entries := []\<rparr>)) \<and>
     (\<forall>own name s w w'. ka_register api own name s w = (True, w') \<longrightarrow> registered name s (view w) (view w')) \<and>
     (\<forall>a b w. view (ka_set_next api a b w) = view w) \<and>
     (\<forall>stmt sig subs w s w'. ka_mk api stmt sig subs w = (s, w') \<longrightarrow> s \<notin> set (kv_pool (view w)) \<and>
        view w' = (view w)\<lparr>kv_pool := kv_pool (view w) @ [s], kv_tree := (kv_tree (view w))(s := [s]),
                           kv_closes := (kv_closes (view w))(s := 0)\<rparr>)"

text \<open>
  The newer shape: a take hands the entry out (off the list) or closes it; a put back makes the
  session its name's entry again, or closes it when the name has a newer one.
\<close>

definition head_promise :: "'w kept_api \<Rightarrow> ('w \<Rightarrow> kept_view) \<Rightarrow> bool" where
  "head_promise api view \<longleftrightarrow> common_promise api view \<and>
     (\<exists>take_f put. ka_take api = Some take_f \<and> ka_put_back api = Some put \<and>
       (\<forall>name text w. case take_f name text w of
          (Some s, w') \<Rightarrow> map_of (kv_entries (view w)) name = Some s \<and> view w' = without name (view w)
        | (None, w') \<Rightarrow> view w' = dropped name (view w)) \<and>
       (\<forall>s w. view (put s w) =
          (if map_of (kv_entries (view w)) (kv_name (view w) s) \<noteq> None then closed_with (kv_tree (view w) s) (view w)
           else (view w)\<lparr>kv_entries := (kv_name (view w) s, s) # kv_entries (view w)\<rparr>)))"

text \<open>The older shape: a lookup leaves the entry on the list, at the front, or closes it.\<close>

definition base_promise :: "'w kept_api \<Rightarrow> ('w \<Rightarrow> kept_view) \<Rightarrow> bool" where
  "base_promise api view \<longleftrightarrow> common_promise api view \<and> ka_take api = None \<and>
     (\<exists>look. ka_lookup api = Some look \<and>
       (\<forall>name text w. case look name text w of
          (Some s, w') \<Rightarrow> map_of (kv_entries (view w)) name = Some s \<and>
             view w' = (view w)\<lparr>kv_entries := (name, s) # kv_entries (without name (view w))\<rparr>
        | (None, w') \<Rightarrow> view w' = dropped name (view w)))"

section \<open>Ownership\<close>

text \<open>
  A list of sessions owns its trees when no session is in two of them and none of them is closed.
\<close>

definition owned :: "kept_view \<Rightarrow> nat list \<Rightarrow> bool" where
  "owned v rs \<longleftrightarrow> distinct (concat (map (kv_tree v) rs)) \<and>
     (\<forall>s \<in> set rs. s \<in> set (kv_tree v s)) \<and>
     (\<forall>x \<in> set (concat (map (kv_tree v) rs)). kv_closes v x = 0 \<and> x \<in> set (kv_pool v)) \<and>
     (\<forall>x. kv_closes v x \<le> 1)"

definition kt_inv :: "kept_view \<Rightarrow> nat list \<Rightarrow> bool" where
  "kt_inv v ks \<longleftrightarrow> distinct (map fst (kv_entries v)) \<and> owned v (map snd (kv_entries v) @ ks)"

lemma count_list_distinct: "distinct xs \<Longrightarrow> count_list xs x = (if x \<in> set xs then 1 else 0)"
  by (induction xs) auto

lemma mset_concat_map: "mset (concat (map f xs)) = sum_list (map (\<lambda>x. mset (f x)) xs)"
  by (induction xs) simp_all

lemma concat_perm:
  assumes "mset rs = mset rs'"
  shows "mset (concat (map f rs)) = mset (concat (map f rs'))"
proof -
  have "sum_list (map (\<lambda>x. mset (f x)) rs) = sum_list (map (\<lambda>x. mset (f x)) rs')"
    by (metis assms mset_map sum_mset_sum_list)
  then show ?thesis by (simp add: mset_concat_map)
qed

lemma owned_perm: "mset rs = mset rs' \<Longrightarrow> owned v rs \<Longrightarrow> owned v rs'"
  unfolding owned_def using concat_perm mset_eq_imp_distinct_iff mset_eq_setD by metis

lemma owned_tl: "owned v (s # rs) \<Longrightarrow> owned v rs"
  by (auto simp: owned_def)

lemma owned_entries: "owned (v\<lparr>kv_entries := es\<rparr>) rs = owned v rs" "owned (without n v) rs = owned v rs"
  by (simp_all add: owned_def without_def)

text \<open>Closing a tree gives it up, and what is closed stays closed once.\<close>

lemma owned_close:
  assumes "owned v (s # rs)"
  shows "owned (closed_with (kv_tree v s) v) rs"
proof -
  have d: "distinct (kv_tree v s)" "set (kv_tree v s) \<inter> set (concat (map (kv_tree v) rs)) = {}"
    using assms by (auto simp: owned_def)
  have c: "count_list (kv_tree v s) x = (if x \<in> set (kv_tree v s) then 1 else 0)" for x
    by (rule count_list_distinct [OF d(1)])
  have z: "kv_closes v x = 0" if "x \<in> set (kv_tree v s)" for x using assms that by (auto simp: owned_def)
  have "kv_closes v x + count_list (kv_tree v s) x \<le> 1" for x
    using z [of x] assms unfolding c by (auto simp: owned_def)
  moreover have "x \<notin> set (kv_tree v s)" if "x \<in> set (concat (map (kv_tree v) rs))" for x using d(2) that by blast
  ultimately show ?thesis using owned_tl [OF assms] unfolding owned_def closed_with_def by (auto simp: count_list_0_iff)
qed

text \<open>Registering: the earlier entry's sessions are carried over or closed.\<close>

lemma owned_join:
  assumes o: "owned v (p # s # rs)" and m: "mset (kv_tree v p) = mset kept + mset gone"
  shows "owned (closed_with gone (v\<lparr>kv_tree := (kv_tree v)(s := kv_tree v s @ kept), kv_name := nm\<rparr>)) (s # rs)"
proof -
  let ?v = "closed_with gone (v\<lparr>kv_tree := (kv_tree v)(s := kv_tree v s @ kept), kv_name := nm\<rparr>)"
  have set_p: "set (kv_tree v p) = set kept \<union> set gone" using arg_cong [OF m, of set_mset] by simp
  have "distinct (kv_tree v p)" using o by (simp add: owned_def)
  then have dp: "distinct kept" "distinct gone" "set kept \<inter> set gone = {}"
    using mset_eq_imp_distinct_iff [of "kv_tree v p" "kept @ gone"] m by simp_all
  have root: "x \<in> set (kv_tree v x)" if "x = p \<or> x = s \<or> x \<in> set rs" for x using o that by (auto simp: owned_def)
  have disj: "set (kv_tree v p) \<inter> set (kv_tree v s) = {}" "set (kv_tree v p) \<inter> set (concat (map (kv_tree v) rs)) = {}"
    "set (kv_tree v s) \<inter> set (concat (map (kv_tree v) rs)) = {}" "distinct (kv_tree v s)" "distinct (concat (map (kv_tree v) rs))"
    using o by (auto simp: owned_def)
  have s: "s \<notin> set rs" using disj(3) root [of s] by auto
  then have tr: "map (kv_tree ?v) rs = map (kv_tree v) rs" "kv_tree ?v s = kv_tree v s @ kept"
    by (auto simp: closed_with_def)
  have open_gone: "kv_closes v x = 0" if "x \<in> set gone" for x using o that set_p by (auto simp: owned_def)
  have le: "kv_closes ?v x \<le> 1" for x
    using open_gone [of x] o count_list_distinct [OF dp(2), of x] by (auto simp: closed_with_def owned_def)
  have "kv_closes ?v x = 0 \<and> x \<in> set (kv_pool ?v)"
    if "x \<in> set (kv_tree v s) \<or> x \<in> set kept \<or> x \<in> set (concat (map (kv_tree v) rs))" for x
  proof -
    have "x \<notin> set gone" using that disj(1,2) dp(3) set_p by blast
    moreover have "kv_closes v x = 0 \<and> x \<in> set (kv_pool v)" using o that set_p by (auto simp: owned_def)
    ultimately show ?thesis by (simp add: closed_with_def)
  qed
  moreover have "distinct (concat (map (kv_tree ?v) (s # rs)))"
    using disj dp set_p by (simp add: tr) blast
  moreover have "x \<in> set (kv_tree ?v x)" if "x \<in> set (s # rs)" for x
    using that root [of x] s by (auto simp: closed_with_def)
  ultimately show ?thesis using le by (auto simp: owned_def tr)
qed

lemma entries_split:
  assumes "distinct (map fst es)" "map_of es n = Some s"
  shows "mset (map snd es) = add_mset s (mset (map snd (filter (\<lambda>e. fst e \<noteq> n) es)))"
  using assms
proof (induction es)
  case (Cons e es)
  show ?case
  proof (cases "fst e = n")
    case True
    then have "n \<notin> fst ` set es" using Cons.prems(1) by auto
    then have "filter (\<lambda>e. fst e \<noteq> n) es = es" by (auto simp: filter_id_conv)
    then show ?thesis using True Cons.prems(2) by (cases e) simp
  next
    case False
    then show ?thesis using Cons by (cases e) simp
  qed
qed simp

lemma distinct_without: "distinct (map fst es) \<Longrightarrow> distinct (map fst (filter P es))"
  by (simp add: distinct_map_filter)

section \<open>The operations keep the invariant\<close>

lemma inv_without:
  assumes inv: "kt_inv v ks" and s: "map_of (kv_entries v) n = Some s"
  shows "kt_inv (without n v) (s # ks)"
proof -
  have "mset (map snd (kv_entries v) @ ks) = mset (map snd (kv_entries (without n v)) @ s # ks)"
    using entries_split [OF _ s] inv by (simp add: kt_inv_def without_def)
  then have "owned (without n v) (map snd (kv_entries (without n v)) @ s # ks)"
    using inv owned_perm unfolding kt_inv_def owned_entries by blast
  moreover have "distinct (map fst (kv_entries (without n v)))"
    using inv distinct_without [of "kv_entries v" "\<lambda>e. fst e \<noteq> n"] unfolding kt_inv_def without_def by simp
  ultimately show ?thesis by (simp add: kt_inv_def)
qed

lemma inv_close:
  assumes "kt_inv v (s # ks)"
  shows "kt_inv (closed_with (kv_tree v s) v) ks"
proof -
  have "mset (map snd (kv_entries v) @ s # ks) = mset (s # map snd (kv_entries v) @ ks)" by simp
  then have "owned v (s # map snd (kv_entries v) @ ks)" using assms owned_perm unfolding kt_inv_def by blast
  from owned_close [OF this] show ?thesis using assms by (simp add: kt_inv_def closed_with_def)
qed

lemma inv_dropped: "kt_inv v ks \<Longrightarrow> kt_inv (dropped n v) ks"
  using inv_close [OF inv_without, of v ks n] by (auto simp: dropped_def without_def split: option.splits)

lemma inv_put:
  assumes "kt_inv v (s # ks)" "map_of (kv_entries v) n = None"
  shows "kt_inv (v\<lparr>kv_entries := (n, s) # kv_entries v\<rparr>) ks"
proof -
  have "mset (map snd (kv_entries v) @ s # ks) = mset (s # map snd (kv_entries v) @ ks)" by simp
  then have "owned v (s # map snd (kv_entries v) @ ks)" using assms(1) owned_perm unfolding kt_inv_def by blast
  moreover have "n \<notin> fst ` set (kv_entries v)" using assms(2) by (simp add: map_of_eq_None_iff)
  ultimately show ?thesis using assms(1) by (simp add: kt_inv_def owned_entries)
qed

lemma inv_weaken: "kt_inv v (s # ks) \<Longrightarrow> kt_inv v ks"
proof -
  assume inv: "kt_inv v (s # ks)"
  have "mset (map snd (kv_entries v) @ s # ks) = mset (s # map snd (kv_entries v) @ ks)" by simp
  then have "owned v (s # map snd (kv_entries v) @ ks)" using inv owned_perm unfolding kt_inv_def by blast
  from owned_tl [OF this] show ?thesis using inv by (simp add: kt_inv_def)
qed

lemma inv_mk:
  assumes inv: "kt_inv v ks" and s: "s \<notin> set (kv_pool v)"
  shows "kt_inv (v\<lparr>kv_pool := kv_pool v @ [s], kv_tree := (kv_tree v)(s := [s]), kv_closes := (kv_closes v)(s := 0)\<rparr>) (s # ks)"
proof -
  let ?rs = "map snd (kv_entries v) @ ks"
  let ?v = "v\<lparr>kv_pool := kv_pool v @ [s], kv_tree := (kv_tree v)(s := [s]), kv_closes := (kv_closes v)(s := 0)\<rparr>"
  have o: "owned v ?rs" using inv by (simp add: kt_inv_def)
  have pool: "x \<in> set (kv_pool v)" if "x \<in> set (concat (map (kv_tree v) ?rs))" for x
    using o that unfolding owned_def by blast
  then have fresh: "s \<notin> set (concat (map (kv_tree v) ?rs))" using s by blast
  have root: "x \<in> set (kv_tree v x)" if "x \<in> set ?rs" for x using o that unfolding owned_def by blast
  have ns: "s \<notin> set ?rs"
  proof
    assume "s \<in> set ?rs"
    then have "s \<in> set (concat (map (kv_tree v) ?rs))" unfolding set_concat set_map using root by blast
    then show False using fresh by blast
  qed
  then have tr: "map (kv_tree ?v) ?rs = map (kv_tree v) ?rs" by (intro map_cong) auto
  have "owned ?v (s # ?rs)"
    unfolding owned_def
  proof (intro conjI ballI allI)
    show "distinct (concat (map (kv_tree ?v) (s # ?rs)))"
      using o fresh unfolding list.map concat.simps tr owned_def by simp
    show "x \<in> set (kv_tree ?v x)" if "x \<in> set (s # ?rs)" for x using that root [of x] by (cases "x = s") simp_all
    fix x
    show "kv_closes ?v x \<le> 1" using o by (simp add: owned_def)
    assume "x \<in> set (concat (map (kv_tree ?v) (s # ?rs)))"
    then have "x = s \<or> x \<in> set (concat (map (kv_tree v) ?rs))" unfolding list.map concat.simps tr by simp
    then show "kv_closes ?v x = 0" "x \<in> set (kv_pool ?v)" using o pool unfolding owned_def by auto
  qed
  moreover have "mset (s # ?rs) = mset (map snd (kv_entries ?v) @ s # ks)" by simp
  ultimately have "owned ?v (map snd (kv_entries ?v) @ s # ks)" using owned_perm by blast
  then show ?thesis using inv by (simp add: kt_inv_def)
qed

lemma inv_registered:
  assumes inv: "kt_inv v (s # ks)" and reg: "registered n s v v'"
  shows "kt_inv v' ks"
proof -
  obtain kept gone where m: "mset (case map_of (kv_entries v) n of None \<Rightarrow> [] | Some p \<Rightarrow> kv_tree v p) = mset kept + mset gone"
    and v': "v' = closed_with gone ((without n v)\<lparr>kv_entries := (n, s) # kv_entries (without n v),
               kv_tree := (kv_tree v)(s := kv_tree v s @ kept), kv_name := (kv_name v)(s := n)\<rparr>)"
    using reg by (auto simp: registered_def)
  let ?rest = "map snd (kv_entries (without n v)) @ ks"
  have "owned (closed_with gone (v\<lparr>kv_tree := (kv_tree v)(s := kv_tree v s @ kept), kv_name := (kv_name v)(s := n)\<rparr>)) (s # ?rest)"
  proof (cases "map_of (kv_entries v) n")
    case None
    have e: "kept = []" "gone = []" using m None by simp_all
    have "n \<notin> fst ` set (kv_entries v)" using None by (simp add: map_of_eq_None_iff)
    then have w: "kv_entries (without n v) = kv_entries v" by (auto simp: without_def filter_id_conv)
    have "mset (map snd (kv_entries v) @ s # ks) = mset (s # ?rest)" by (simp add: w)
    then have "owned v (s # ?rest)" using inv owned_perm unfolding kt_inv_def by blast
    then show ?thesis by (simp add: e closed_with_def owned_def)
  next
    case (Some p)
    have "mset (map snd (kv_entries (without n v)) @ p # s # ks) = mset (p # s # ?rest)" by simp
    moreover have "owned (without n v) (map snd (kv_entries (without n v)) @ p # s # ks)"
      using inv_without [OF inv Some] by (simp add: kt_inv_def)
    ultimately have "owned v (p # s # ?rest)" unfolding owned_entries using owned_perm by blast
    then show ?thesis by (rule owned_join) (use m Some in simp)
  qed
  moreover have "distinct (map fst (kv_entries v'))"
    using inv distinct_without [of "kv_entries v"] by (auto simp: v' closed_with_def without_def kt_inv_def)
  ultimately show ?thesis by (simp add: kt_inv_def v' closed_with_def without_def owned_def)
qed

lemma inv_free_all:
  assumes "kt_inv v ks"
  shows "kt_inv (closed_with (concat (map (\<lambda>e. kv_tree v (snd e)) (kv_entries v))) (v\<lparr>kv_entries := []\<rparr>)) ks"
proof -
  have *: "owned (closed_with (concat (map (kv_tree v) rs)) v) ks" if "owned v (rs @ ks)" for rs
    using that
  proof (induction rs arbitrary: v)
    case (Cons s rs)
    let ?v = "closed_with (kv_tree v s) v"
    have "owned ?v (rs @ ks)" using owned_close [of v s "rs @ ks"] Cons.prems by simp
    from Cons.IH [OF this] show ?case by (simp add: closed_with_def add.assoc)
  qed (simp add: closed_with_def)
  have "owned (closed_with (concat (map (kv_tree v) (map snd (kv_entries v)))) v) ks"
    by (rule *) (use assms in \<open>simp add: kt_inv_def\<close>)
  then show ?thesis by (simp add: kt_inv_def closed_with_def owned_def comp_def)
qed

section \<open>The steps\<close>

lemma common_parts:
  assumes "common_promise api view"
  shows "view (ka_remove api name w) = dropped name (view w)"
    "view (ka_close api s w) = closed_with (kv_tree (view w) s) (view w)"
    "view (ka_free_all api w) =
        closed_with (concat (map (\<lambda>e. kv_tree (view w) (snd e)) (kv_entries (view w)))) ((view w)\<lparr>kv_entries := []\<rparr>)"
    "ka_register api own name s w = (True, w') \<Longrightarrow> registered name s (view w) (view w')"
    "view (ka_set_next api a b w) = view w"
    "ka_mk api stmt sig subs w = (s, w') \<Longrightarrow> s \<notin> set (kv_pool (view w)) \<and>
        view w' = (view w)\<lparr>kv_pool := kv_pool (view w) @ [s], kv_tree := (kv_tree (view w))(s := [s]),
                           kv_closes := (kv_closes (view w))(s := 0)\<rparr>"
  using assms unfolding common_promise_def by blast+

lemma keep_inv:
  assumes p: "common_promise api view" and inv: "kt_inv (view w) ks" and run: "keep api name stmt sig w = Some w'"
  shows "kt_inv (view w') ks"
proof -
  obtain own w1 subs w2 where mk: "ka_mk api stmt 0 False w = (own, w1)" "ka_mk api stmt sig True w1 = (subs, w2)"
    and reg: "ka_register api own name subs (ka_set_next api own subs w2) = (True, w')"
    using run by (auto simp: keep_def unitseam_register_def Let_def split: prod.splits if_splits)
  have "kt_inv (view w1) ks" using common_parts(6) [OF p mk(1)] inv_mk [OF inv, of own] inv_weaken by metis
  then have "kt_inv (view w2) (subs # ks)" using common_parts(6) [OF p mk(2)] inv_mk [of "view w1" ks subs] by metis
  then show ?thesis using common_parts(4) [OF p reg] inv_registered unfolding common_parts(5) [OF p] by blast
qed

lemma head_parts:
  assumes "head_promise api view"
  shows "common_promise api view" "unitseam_shape api = 1"
    "unitseam_exec_checkout api name stmt w = (Some s, w') \<Longrightarrow>
       map_of (kv_entries (view w)) name = Some s \<and> view w' = without name (view w)"
    "unitseam_exec_checkout api name stmt w = (None, w') \<Longrightarrow> view w' = dropped name (view w)"
    "view (snd (unitseam_put_back_t api s w)) =
      (if map_of (kv_entries (view w)) (kv_name (view w) s) \<noteq> None then closed_with (kv_tree (view w) s) (view w)
       else (view w)\<lparr>kv_entries := (kv_name (view w) s, s) # kv_entries (view w)\<rparr>)"
proof -
  obtain take_f put where c: "common_promise api view" and take: "ka_take api = Some take_f" "ka_put_back api = Some put"
    and t: "\<And>name stmt w. case take_f name stmt w of
          (Some s, w') \<Rightarrow> map_of (kv_entries (view w)) name = Some s \<and> view w' = without name (view w)
        | (None, w') \<Rightarrow> view w' = dropped name (view w)"
    and b: "\<And>s w. view (put s w) =
          (if map_of (kv_entries (view w)) (kv_name (view w) s) \<noteq> None then closed_with (kv_tree (view w) s) (view w)
           else (view w)\<lparr>kv_entries := (kv_name (view w) s, s) # kv_entries (view w)\<rparr>)"
    using assms unfolding head_promise_def by blast
  show "common_promise api view" by (rule c)
  show shape: "unitseam_shape api = 1" using take by (simp add: unitseam_shape_def unitseam_has_take_t_def)
  show "unitseam_exec_checkout api name stmt w = (Some s, w') \<Longrightarrow>
       map_of (kv_entries (view w)) name = Some s \<and> view w' = without name (view w)"
    using t [where name = name and stmt = stmt and w = w] by (auto simp: unitseam_exec_checkout_def shape unitseam_take_t_def take split: prod.splits option.splits)
  show "unitseam_exec_checkout api name stmt w = (None, w') \<Longrightarrow> view w' = dropped name (view w)"
    using t [where name = name and stmt = stmt and w = w] by (auto simp: unitseam_exec_checkout_def shape unitseam_take_t_def take split: prod.splits option.splits)
  show "view (snd (unitseam_put_back_t api s w)) =
      (if map_of (kv_entries (view w)) (kv_name (view w) s) \<noteq> None then closed_with (kv_tree (view w) s) (view w)
       else (view w)\<lparr>kv_entries := (kv_name (view w) s, s) # kv_entries (view w)\<rparr>)"
    using b [of s w] by (simp add: unitseam_put_back_t_def take)
qed

lemma put_back_inv:
  assumes p: "head_promise api view" and inv: "kt_inv (view w) (s # ks)"
  shows "kt_inv (view (snd (unitseam_put_back_t api s w))) ks"
  unfolding head_parts(5) [OF p] using inv_close [OF inv] inv_put [OF inv] by simp

lemma base_parts:
  assumes "base_promise api view"
  shows "common_promise api view" "unitseam_shape api = 0"
    "unitseam_exec_checkout api name stmt w = (Some s, w') \<Longrightarrow>
       map_of (kv_entries (view w)) name = Some s \<and>
       view w' = (view w)\<lparr>kv_entries := (name, s) # kv_entries (without name (view w))\<rparr>"
    "unitseam_exec_checkout api name stmt w = (None, w') \<Longrightarrow> view w' = dropped name (view w)"
proof -
  obtain look where c: "common_promise api view" and t0: "ka_take api = None" and lk: "ka_lookup api = Some look"
    and t: "\<And>name stmt w. case look name stmt w of
          (Some s, w') \<Rightarrow> map_of (kv_entries (view w)) name = Some s \<and>
             view w' = (view w)\<lparr>kv_entries := (name, s) # kv_entries (without name (view w))\<rparr>
        | (None, w') \<Rightarrow> view w' = dropped name (view w)"
    using assms unfolding base_promise_def by blast
  show "common_promise api view" by (rule c)
  show shape: "unitseam_shape api = 0" using t0 by (simp add: unitseam_shape_def unitseam_has_take_t_def)
  show "unitseam_exec_checkout api name stmt w = (Some s, w') \<Longrightarrow>
       map_of (kv_entries (view w)) name = Some s \<and>
       view w' = (view w)\<lparr>kv_entries := (name, s) # kv_entries (without name (view w))\<rparr>"
    using t [where name = name and stmt = stmt and w = w] by (auto simp: unitseam_exec_checkout_def shape unitseam_lookup_t_def lk split: prod.splits option.splits)
  show "unitseam_exec_checkout api name stmt w = (None, w') \<Longrightarrow> view w' = dropped name (view w)"
    using t [where name = name and stmt = stmt and w = w] by (auto simp: unitseam_exec_checkout_def shape unitseam_lookup_t_def lk split: prod.splits option.splits)
qed

text \<open>The trees being executed.\<close>

definition executing :: "'w kt_state \<Rightarrow> nat list" where
  "executing st = List.map_filter snd (kt_stack st)"

lemma executing_simps [simp]:
  "executing (st\<lparr>kt_w := w\<rparr>) = executing st" "executing (st\<lparr>kt_w := w, kt_text := t\<rparr>) = executing st"
  "executing (st\<lparr>kt_w := w, kt_stack := stack\<rparr>) = List.map_filter snd stack"
  by (simp_all add: executing_def)

lemma kt_step_inv:
  assumes p: "head_promise api view" and inv: "kt_inv (view (kt_w st)) (executing st)" and step: "kt_step api st st'"
  shows "kt_inv (view (kt_w st')) (executing st')"
  using step
proof cases
  case (kt_prepare name stmt)
  then show ?thesis using inv_dropped [OF inv] common_parts(1) [OF head_parts(1) [OF p]] by (simp add: unitseam_remove_def)
next
  case (kt_deallocate name)
  then show ?thesis using inv_dropped [OF inv] common_parts(1) [OF head_parts(1) [OF p]] by (simp add: unitseam_remove_def)
next
  case (kt_begin name k w)
  show ?thesis
  proof (cases k)
    case None
    then have "view w = dropped name (view (kt_w st))" using kt_begin(3) head_parts(4) [OF p] by blast
    then show ?thesis using kt_begin(1) None inv_dropped [OF inv] by (simp add: List.map_filter_simps executing_def)
  next
    case (Some s)
    then have "map_of (kv_entries (view (kt_w st))) name = Some s \<and> view w = without name (view (kt_w st))"
      using kt_begin(3) head_parts(3) [OF p] by blast
    then show ?thesis using kt_begin(1) Some inv_without [OF inv] by (simp add: List.map_filter_simps executing_def)
  qed
next
  case (kt_ends name k stack is_ok miss sig w)
  have ex: "executing st = (case k of None \<Rightarrow> List.map_filter snd stack | Some s \<Rightarrow> s # List.map_filter snd stack)"
    by (simp add: executing_def kt_ends(2) List.map_filter_simps split: option.splits)
  have "kt_inv (view w) (List.map_filter snd stack)"
  proof (cases k)
    case None
    then show ?thesis using keep_inv [OF head_parts(1) [OF p]] inv ex kt_ends(3) by (simp add: kt_end_def)
  next
    case (Some s)
    then have inv': "kt_inv (view (kt_w st)) (s # List.map_filter snd stack)" using inv ex by simp
    have put: "kt_inv (view (snd (unitseam_put_back_t api s (kt_w st)))) (List.map_filter snd stack)"
      by (rule put_back_inv [OF p inv'])
    have closed: "kt_inv (view (ka_close api s (kt_w st))) (List.map_filter snd stack)"
      using inv_close [OF inv'] common_parts(2) [OF head_parts(1) [OF p]] by simp
    show ?thesis
    proof (cases is_ok)
      case True
      then show ?thesis using kt_ends(3) Some put
        by (simp add: kt_end_def unitseam_exec_return_ok_def head_parts(2) [OF p])
    next
      case False
      then have "keep api name (kt_text st name) sig (unitseam_exec_stale api s name miss (kt_w st)) = Some w"
        using kt_ends(3) Some by (simp add: kt_end_def)
      moreover have "kt_inv (view (unitseam_exec_stale api s name miss (kt_w st))) (List.map_filter snd stack)"
        using put closed by (simp add: unitseam_exec_stale_def head_parts(2) [OF p])
      ultimately show ?thesis using keep_inv [OF head_parts(1) [OF p]] by blast
    qed
  qed
  then show ?thesis using kt_ends(1) by simp
next
  case (kt_keep name sig w)
  have "kt_inv (view (unitseam_remove api name (kt_w st))) (executing st)"
    using inv_dropped [OF inv] common_parts(1) [OF head_parts(1) [OF p]] by (simp add: unitseam_remove_def)
  then show ?thesis using kt_keep keep_inv [OF head_parts(1) [OF p]] by simp
next
  case kt_session
  then show ?thesis using inv_free_all [OF inv] common_parts(3) [OF head_parts(1) [OF p]] by simp
qed

lemma kt_reach_inv:
  "kt_reach api st0 st \<Longrightarrow> head_promise api view \<Longrightarrow> kt_inv (view (kt_w st0)) (executing st0) \<Longrightarrow>
     kt_inv (view (kt_w st)) (executing st)"
  by (induction rule: kt_reach.induct) (auto intro: kt_step_inv)

lemma inv_checks:
  assumes inv: "kt_inv v (List.map_filter snd stack)"
  shows "check_invariants v stack"
proof -
  let ?ks = "List.map_filter snd stack" and ?es = "map snd (kv_entries v)"
  have o: "owned v (?es @ ?ks)" using inv by (simp add: kt_inv_def)
  have shut: "kv_closes v x = 0" if "r \<in> set (?es @ ?ks)" "x \<in> set (kv_tree v r)" for r x
  proof -
    have "x \<in> set (concat (map (kv_tree v) (?es @ ?ks)))" unfolding set_concat set_map using that by blast
    then show ?thesis using o unfolding owned_def by blast
  qed
  have eq: "map (\<lambda>(name, s). kv_tree v s) (kv_entries v) = map (kv_tree v) ?es" by auto
  have "distinct (concat (map (kv_tree v) ?es))" using o by (simp add: owned_def)
  then have "distinct (concat (map (\<lambda>(name, s). kv_tree v s) (kv_entries v)))" unfolding eq .
  moreover have "kv_closes v s = 0" if "(n, Some s) \<in> set stack" for n s
  proof -
    have s: "s \<in> set (?es @ ?ks)" using that by (force simp: List.map_filter_def)
    then have "s \<in> set (kv_tree v s)" using o unfolding owned_def by blast
    then show ?thesis using shut s by blast
  qed
  then have "list_all (\<lambda>(name, kept). case kept of None \<Rightarrow> True | Some s \<Rightarrow> kv_closes v s = 0) stack"
    by (auto simp: list_all_iff split: option.splits)
  moreover have "list_all (\<lambda>(name, s). list_all (\<lambda>c. kv_closes v c = 0) (kv_tree v s)) (kv_entries v)"
    using shut by (force simp: list_all_iff)
  moreover have "list_all (\<lambda>f. kv_closes v f \<le> 1) (kv_pool v)" using o by (simp add: owned_def list_all_iff)
  ultimately show ?thesis using inv by (simp add: check_invariants_def kt_inv_def)
qed

section \<open>Properties\<close>

text \<open>
  Two registries that keep the promises, one of each shape: the view itself is the state. They show
  that the promises can be kept.
\<close>

definition view_register :: "nat \<Rightarrow> string \<Rightarrow> nat \<Rightarrow> kept_view \<Rightarrow> bool \<times> kept_view" where
  "view_register own name s v =
     (True, (without name v)\<lparr>kv_entries := (name, s) # kv_entries (without name v),
        kv_tree := (kv_tree v)(s := kv_tree v s @ (case map_of (kv_entries v) name of None \<Rightarrow> [] | Some p \<Rightarrow> kv_tree v p)),
        kv_name := (kv_name v)(s := name)\<rparr>)"

definition view_mk :: "string \<Rightarrow> int \<Rightarrow> bool \<Rightarrow> kept_view \<Rightarrow> nat \<times> kept_view" where
  "view_mk stmt sig subs v =
     (let s = Suc (sum_list (kv_pool v))
      in (s, v\<lparr>kv_pool := kv_pool v @ [s], kv_tree := (kv_tree v)(s := [s]), kv_closes := (kv_closes v)(s := 0)\<rparr>))"

definition head_api :: "kept_view kept_api" where
  "head_api = \<lparr>
     ka_take = Some (\<lambda>name stmt v. case map_of (kv_entries v) name of None \<Rightarrow> (None, v) | Some s \<Rightarrow> (Some s, without name v)),
     ka_put_back = Some (\<lambda>s v. if map_of (kv_entries v) (kv_name v s) \<noteq> None then closed_with (kv_tree v s) v
        else v\<lparr>kv_entries := (kv_name v s, s) # kv_entries v\<rparr>),
     ka_lookup = None,
     ka_unlink = (\<lambda>name v. (map_of (kv_entries v) name, without name v)),
     ka_close = (\<lambda>s v. closed_with (kv_tree v s) v),
     ka_remove = dropped,
     ka_register = view_register,
     ka_free_all = (\<lambda>v. closed_with (concat (map (\<lambda>e. kv_tree v (snd e)) (kv_entries v))) (v\<lparr>kv_entries := []\<rparr>)),
     ka_kept_trees = (\<lambda>v. case kv_entries v of [] \<Rightarrow> None | e # _ \<Rightarrow> Some (snd e)),
     ka_set_kept_trees = (\<lambda>_ v. v\<lparr>kv_entries := []\<rparr>),
     ka_mk = view_mk,
     ka_set_next = (\<lambda>_ _ v. v)\<rparr>"

definition base_api :: "kept_view kept_api" where
  "base_api = head_api\<lparr>ka_take := None, ka_put_back := None,
     ka_lookup := Some (\<lambda>name stmt v. case map_of (kv_entries v) name of None \<Rightarrow> (None, v)
        | Some s \<Rightarrow> (Some s, v\<lparr>kv_entries := (name, s) # kv_entries (without name v)\<rparr>))\<rparr>"

lemma view_common:
  assumes "ka_remove api = dropped" "ka_close api = (\<lambda>s v. closed_with (kv_tree v s) v)"
    "ka_free_all api = (\<lambda>v. closed_with (concat (map (\<lambda>e. kv_tree v (snd e)) (kv_entries v))) (v\<lparr>kv_entries := []\<rparr>))"
    "ka_register api = view_register" "ka_mk api = view_mk" "ka_set_next api = (\<lambda>_ _ v. v)"
  shows "common_promise api (\<lambda>v. v)"
proof -
  have none: "closed_with [] v = v" for v by (simp add: closed_with_def)
  have reg: "registered name s v w" if "view_register own name s v = (True, w)" for own name s v w
    unfolding registered_def
    by (intro exI [of _ "case map_of (kv_entries v) name of None \<Rightarrow> [] | Some p \<Rightarrow> kv_tree v p"] exI [of _ "[]"])
      (use that in \<open>simp add: view_register_def none\<close>)
  have "Suc (sum_list xs) \<notin> set xs" for xs :: "nat list" using member_le_sum_list [of "Suc (sum_list xs)" xs] by auto
  then have mk: "s \<notin> set (kv_pool v) \<and> w = v\<lparr>kv_pool := kv_pool v @ [s], kv_tree := (kv_tree v)(s := [s]),
       kv_closes := (kv_closes v)(s := 0)\<rparr>" if "view_mk stmt sig subs v = (s, w)" for stmt sig subs v s w
    using that by (auto simp: view_mk_def Let_def)
  show ?thesis unfolding common_promise_def assms using reg mk by blast
qed

lemma head_api_promise: "head_promise head_api (\<lambda>v. v)"
proof -
  have "common_promise head_api (\<lambda>v. v)" by (rule view_common) (simp_all add: head_api_def)
  then show ?thesis unfolding head_promise_def
    by (simp add: head_api_def dropped_def split: option.splits)
qed

lemma base_api_promise: "base_promise base_api (\<lambda>v. v)"
proof -
  have "common_promise base_api (\<lambda>v. v)" by (rule view_common) (simp_all add: base_api_def head_api_def)
  then show ?thesis unfolding base_promise_def
    by (simp add: base_api_def head_api_def dropped_def split: option.splits)
qed

text \<open>
  C2. With the newer shape's choreography over any registry that keeps its promise, no sequence of
  PREPARE, DEALLOCATE, nested EXECUTE, stale trees and session changes that starts from an empty
  registry ever makes the suite's invariant check fail: one entry per name, nothing closed that the
  list or an execution still reaches, nothing closed twice.
\<close>

theorem head_sequences_safe:
  assumes "head_promise api view" "kt_reach api st0 st"
    and "kt_stack st0 = []" "kv_entries (view (kt_w st0)) = []" "\<forall>x. kv_closes (view (kt_w st0)) x = 0"
  shows "check_invariants (view (kt_w st)) (kt_stack st)"
proof (rule inv_checks)
  have "kt_inv (view (kt_w st0)) (executing st0)"
    using assms(3-5) by (simp add: kt_inv_def owned_def executing_def List.map_filter_simps)
  from kt_reach_inv [OF assms(2,1) this] show "kt_inv (view (kt_w st)) (List.map_filter snd (kt_stack st))"
    by (simp add: executing_def)
qed

definition kv_empty :: kept_view where
  "kv_empty = \<lparr>kv_entries = [], kv_tree = (\<lambda>_. []), kv_closes = (\<lambda>_. 0), kv_name = (\<lambda>_. []), kv_pool = []\<rparr>"

theorem head_sequences_safe_witness:
  "\<exists>st. kt_reach head_api \<lparr>kt_w = kv_empty, kt_stack = [], kt_text = (\<lambda>_. [])\<rparr> st \<and> kt_stack st = [(''p'', Some 2)]
     \<and> check_invariants (kt_w st) (kt_stack st)"
proof -
  let ?st0 = "\<lparr>kt_w = kv_empty, kt_stack = [], kt_text = (\<lambda>_. [])\<rparr> :: kept_view kt_state"
  obtain w1 where w1: "keep head_api ''p'' [] 1 (unitseam_remove head_api ''p'' kv_empty) = Some w1" "kv_entries w1 = [(''p'', 2)]"
    by (simp add: keep_def unitseam_register_def unitseam_remove_def head_api_def view_register_def view_mk_def
        kv_empty_def dropped_def without_def Let_def)
  let ?st1 = "?st0\<lparr>kt_w := w1\<rparr>"
  obtain k w2 where w2: "unitseam_exec_checkout head_api ''p'' [] w1 = (k, w2)" "k = Some 2"
    using w1(2) by (simp add: unitseam_exec_checkout_def unitseam_shape_def unitseam_has_take_t_def unitseam_take_t_def head_api_def)
  let ?st2 = "?st1\<lparr>kt_w := w2, kt_stack := [(''p'', k)]\<rparr>"
  have "kt_step head_api ?st0 ?st1" by (rule kt_keep [where name = "''p''" and sig = 1]) (simp_all add: w1(1))
  moreover have "kt_step head_api ?st1 ?st2"
    using kt_begin [of ?st1 head_api "''p''" k w2] w2(1) by simp
  ultimately have reach: "kt_reach head_api ?st0 ?st2" using kt_start kt_next by meson
  have "check_invariants (kt_w ?st2) (kt_stack ?st2)"
    by (rule head_sequences_safe [OF head_api_promise reach]) (simp_all add: kv_empty_def)
  then show ?thesis using reach w2(2) by (intro exI [of _ ?st2]) simp
qed

text \<open>
  C10. With the older shape's choreography the same check fails as soon as a statement nested in an
  execution drops the name: the tree found for the execution is closed while it executes.
\<close>

theorem base_nested_remove_breaks:
  assumes "base_promise api view" "unitseam_exec_checkout api name stmt w = (Some s, w1)"
    and "s \<in> set (kv_tree (view w) s)"
  shows "\<not> check_invariants (view (unitseam_remove api name w1)) ((name, Some s) # stack)"
proof -
  have v1: "view w1 = (view w)\<lparr>kv_entries := (name, s) # kv_entries (without name (view w))\<rparr>"
    using base_parts(3) [OF assms(1,2)] by blast
  have "view (unitseam_remove api name w1) = closed_with (kv_tree (view w) s) (without name (view w1))"
    unfolding unitseam_remove_def common_parts(1) [OF base_parts(1) [OF assms(1)]] by (simp add: dropped_def v1)
  then have "kv_closes (view (unitseam_remove api name w1)) s = kv_closes (view w) s + count_list (kv_tree (view w) s) s"
    by (simp add: closed_with_def without_def v1)
  moreover have "count_list (kv_tree (view w) s) s \<noteq> 0" using assms(3) by (simp add: count_list_0_iff)
  ultimately show ?thesis by (simp add: check_invariants_def)
qed

definition kv_one :: kept_view where
  "kv_one = \<lparr>kv_entries = [(''p'', 2)], kv_tree = (\<lambda>s. [s]), kv_closes = (\<lambda>_. 0), kv_name = (\<lambda>_. ''p''), kv_pool = [1, 2]\<rparr>"

theorem base_nested_remove_breaks_witness:
  "\<exists>w1. unitseam_exec_checkout base_api ''p'' [] kv_one = (Some 2, w1) \<and>
     \<not> check_invariants (unitseam_remove base_api ''p'' w1) [(''p'', Some 2)]"
proof -
  obtain w1 where w1: "unitseam_exec_checkout base_api ''p'' [] kv_one = (Some 2, w1)"
    by (simp add: unitseam_exec_checkout_def unitseam_shape_def unitseam_has_take_t_def unitseam_lookup_t_def base_api_def
        kv_one_def)
  then show ?thesis using base_nested_remove_breaks [OF base_api_promise w1] by (simp add: kv_one_def)
qed

lemma shapes_agree:
  assumes "head_promise api view" "base_promise api' view'" "view w = view' w'"
    and "unitseam_exec_checkout api name stmt w = (Some s, w1)" "unitseam_exec_checkout api' name stmt w' = (Some s', w1')"
    and "kv_name (view w) s = name"
  shows "s = s'"
    and "view (unitseam_exec_return_ok api s w1) = view' (unitseam_exec_return_ok api' s' w1')"
    and "view (unitseam_exec_stale api s name miss w1) = view' (unitseam_exec_stale api' s' name miss w1')"
proof -
  let ?v = "view w"
  note h = head_parts(3) [OF assms(1,4)] and b = base_parts(3) [OF assms(2,5)]
  show s: "s = s'" using h b assms(3) by simp
  have gone: "map_of (kv_entries (without name ?v)) name = None"
    by (auto simp: map_of_eq_None_iff without_def)
  have nm: "kv_name (without name ?v) s = name" using assms(6) by (simp add: without_def)
  have pb: "view (snd (unitseam_put_back_t api s w1)) = ?v\<lparr>kv_entries := (name, s) # kv_entries (without name ?v)\<rparr>"
    unfolding head_parts(5) [OF assms(1)] conjunct2 [OF h] nm gone by (simp add: without_def)
  show "view (unitseam_exec_return_ok api s w1) = view' (unitseam_exec_return_ok api' s' w1')"
    using pb b s assms(3) head_parts(2) [OF assms(1)] base_parts(2) [OF assms(2)] by (simp add: unitseam_exec_return_ok_def)
  have close: "view (ka_close api s w1) = closed_with (kv_tree ?v s) (without name ?v)"
    unfolding common_parts(2) [OF head_parts(1) [OF assms(1)]] conjunct2 [OF h] by (simp add: without_def)
  have rem: "view' (ka_remove api' name w1') = closed_with (kv_tree ?v s) (without name ?v)"
    unfolding common_parts(1) [OF base_parts(1) [OF assms(2)]] conjunct2 [OF b] assms(3) [symmetric] s [symmetric]
    by (simp add: dropped_def without_def filter_id_conv)
  show "view (unitseam_exec_stale api s name miss w1) = view' (unitseam_exec_stale api' s' name miss w1')"
    using pb close rem b s assms(3) head_parts(2) [OF assms(1)] base_parts(2) [OF assms(2)]
    by (simp add: unitseam_exec_stale_def)
qed

text \<open>
  When nothing is nested in the execution the two choreographies agree: from the same view, a
  checkout that finds the tree and any of the three endings (returned, stale, a miss of the
  signature) leave the same view at both shapes.
\<close>

theorem shapes_agree_uninterrupted:
  assumes "head_promise api view" "base_promise api' view'" "view w = view' w'"
    and "unitseam_exec_checkout api name stmt w = (Some s, w1)" "unitseam_exec_checkout api' name stmt w' = (Some s', w1')"
    and "kv_name (view w) s = name"
  shows "s = s' \<and> view (unitseam_exec_return_ok api s w1) = view' (unitseam_exec_return_ok api' s' w1') \<and>
    view (unitseam_exec_stale api s name True w1) = view' (unitseam_exec_stale api' s' name True w1') \<and>
    view (unitseam_exec_stale api s name False w1) = view' (unitseam_exec_stale api' s' name False w1')"
  using shapes_agree [OF assms] by blast

theorem shapes_agree_uninterrupted_witness:
  "\<exists>w1 w1'. unitseam_exec_checkout head_api ''p'' [] kv_one = (Some 2, w1) \<and>
     unitseam_exec_checkout base_api ''p'' [] kv_one = (Some 2, w1') \<and>
     unitseam_exec_stale head_api 2 ''p'' False w1 = unitseam_exec_stale base_api 2 ''p'' False w1'"
proof -
  obtain w1 where w1: "unitseam_exec_checkout head_api ''p'' [] kv_one = (Some 2, w1)"
    by (simp add: unitseam_exec_checkout_def unitseam_shape_def unitseam_has_take_t_def unitseam_take_t_def head_api_def kv_one_def)
  obtain w1' where w1': "unitseam_exec_checkout base_api ''p'' [] kv_one = (Some 2, w1')"
    by (simp add: unitseam_exec_checkout_def unitseam_shape_def unitseam_has_take_t_def unitseam_lookup_t_def base_api_def
        kv_one_def)
  show ?thesis
    using w1 w1' shapes_agree_uninterrupted [OF head_api_promise base_api_promise refl w1 w1'] by (simp add: kv_one_def)
qed

end
