(* ===== verification/BloomHooks.thy ===== *)
theory BloomHooks
  imports Prelude
begin

unbundle bit_operations_syntax

text \<open>
  The hooks of \<open>src/unit/query/query_hash_join.bloom_filter/hooks.cpp\<close>. One file serves several
  layouts of the engine's \<open>struct hjoin_bloom\<close>: the earlier one (\<open>built\<close>, \<open>disabled\<close>), the
  staged one (\<open>set_up\<close>, \<open>state\<close>, ...), and the staged one with the members of the concurrent and
  of the early-check revisions. A layout is a value here (the compile-time tests of the source become
  case distinctions on it), and a name the revision may lack is an option. The engine's functions are
  parameters. Pointers are addresses, \<open>None\<close> the null pointer.
\<close>

type_synonym ptr = "nat option"

section \<open>The layouts\<close>

record staged_part =
  sg_set_up :: bool
  sg_state :: int
  sg_off_reason :: int
  sg_first_rows :: int
  sg_threshold :: int
  sg_seen :: int
  sg_first :: "(ptr \<times> int) option"
  sg_early :: "((nat \<Rightarrow> ptr) option \<times> ptr) option"

text \<open>
  \<open>sg_first\<close> is \<open>first_xasl, first_done\<close> where the struct has them, \<open>sg_early\<close> is
  \<open>key_regus, key_cast\<close>.
\<close>

datatype bloom_part = Earlier (bp_built: bool) (bp_disabled: bool) | Staged (bp_staged: staged_part)

record hjoin_bloom =
  hb_part :: bloom_part
  hb_first_is_outer :: bool
  hb_hj_xasl :: ptr
  hb_owner_xasl :: ptr
  hb_owner_thread :: ptr
  hb_bits :: ptr
  hb_row_buf :: ptr
  hb_key :: ptr
  hb_mask :: u32
  hb_keys :: int
  hb_tested :: int
  hb_skipped :: int

definition unitseam_has_first_done :: "bloom_part \<Rightarrow> bool" where
  "unitseam_has_first_done p = (case p of Earlier _ _ \<Rightarrow> False | Staged s \<Rightarrow> sg_first s \<noteq> None)"

definition unitseam_has_key_regus :: "bloom_part \<Rightarrow> bool" where
  "unitseam_has_key_regus p = (case p of Earlier _ _ \<Rightarrow> False | Staged s \<Rightarrow> sg_early s \<noteq> None)"

section \<open>The constants\<close>

text \<open>The stand-ins of the source.\<close>

definition UNITSEAM_ABSENT_FIRST_LATE :: int where "UNITSEAM_ABSENT_FIRST_LATE = - 20"
definition UNITSEAM_ABSENT_OFF_FIRST_ROWS :: int where "UNITSEAM_ABSENT_OFF_FIRST_ROWS = - 21"
definition UNITSEAM_ABSENT_ENDED_FIRST :: int where "UNITSEAM_ABSENT_ENDED_FIRST = - 22"
definition UNITSEAM_EARLIER_NOT_BUILT :: int where "UNITSEAM_EARLIER_NOT_BUILT = - 10"
definition UNITSEAM_EARLIER_CHECKED :: int where "UNITSEAM_EARLIER_CHECKED = - 11"
definition UNITSEAM_EARLIER_OFF_LOW_SKIP :: int where "UNITSEAM_EARLIER_OFF_LOW_SKIP = - 12"
definition UNITSEAM_EARLIER_OFF_FAILED :: int where "UNITSEAM_EARLIER_OFF_FAILED = - 13"

text \<open>The names of the translation unit: those of the staged layout, the later ones optional.\<close>

record staged_names =
  sn_waiting :: int
  sn_ready :: int
  sn_off :: int
  sn_out_not_built :: int
  sn_out_checked :: int
  sn_out_off_low_skip :: int
  sn_out_off_failed :: int
  sn_min_second_rows :: int
  sn_first_per_second :: int
  sn_sample_rows :: int
  sn_min_skip_percent :: int
  sn_seen_batch :: int
  sn_out_first_late :: "int option"
  sn_out_off_first_rows :: "int option"
  sn_out_ended_first :: "int option"

record bloom_names =
  bn_staged :: "staged_names option"
  bn_concurrent :: bool
  bn_early :: bool
  bn_max_first_rows :: "int option"

definition unitseam_out_first_late :: "staged_names \<Rightarrow> int" where
  "unitseam_out_first_late n = (case sn_out_first_late n of None \<Rightarrow> UNITSEAM_ABSENT_FIRST_LATE | Some v \<Rightarrow> v)"

definition unitseam_out_off_first_rows :: "staged_names \<Rightarrow> int" where
  "unitseam_out_off_first_rows n = (case sn_out_off_first_rows n of None \<Rightarrow> UNITSEAM_ABSENT_OFF_FIRST_ROWS | Some v \<Rightarrow> v)"

definition unitseam_out_ended_first :: "staged_names \<Rightarrow> int" where
  "unitseam_out_ended_first n = (case sn_out_ended_first n of None \<Rightarrow> UNITSEAM_ABSENT_ENDED_FIRST | Some v \<Rightarrow> v)"

record unitseam_bloom_consts =
  uc_staged :: bool
  uc_waiting :: int
  uc_ready :: int
  uc_off :: int
  uc_out_not_built :: int
  uc_out_checked :: int
  uc_out_off_low_skip :: int
  uc_out_off_failed :: int
  uc_min_second_rows :: int
  uc_first_per_second :: int
  uc_sample_rows :: int
  uc_min_skip_percent :: int
  uc_seen_batch :: int
  uc_concurrent :: bool
  uc_early :: bool
  uc_out_first_late :: int
  uc_out_off_first_rows :: int
  uc_out_ended_first :: int
  uc_max_first_rows :: int

definition unitseam_bloom_consts_of :: "bloom_names \<Rightarrow> unitseam_bloom_consts" where
  "unitseam_bloom_consts_of n =
     (let conc = bn_concurrent n; early = bn_early n;
          max_rows = (case bn_max_first_rows n of None \<Rightarrow> 10000000 | Some v \<Rightarrow> v)
      in case bn_staged n of
           Some s \<Rightarrow>
             \<lparr>uc_staged = True, uc_waiting = sn_waiting s, uc_ready = sn_ready s, uc_off = sn_off s,
              uc_out_not_built = sn_out_not_built s, uc_out_checked = sn_out_checked s,
              uc_out_off_low_skip = sn_out_off_low_skip s, uc_out_off_failed = sn_out_off_failed s,
              uc_min_second_rows = sn_min_second_rows s, uc_first_per_second = sn_first_per_second s,
              uc_sample_rows = sn_sample_rows s, uc_min_skip_percent = sn_min_skip_percent s,
              uc_seen_batch = sn_seen_batch s, uc_concurrent = conc, uc_early = early,
              uc_out_first_late = unitseam_out_first_late s, uc_out_off_first_rows = unitseam_out_off_first_rows s,
              uc_out_ended_first = unitseam_out_ended_first s, uc_max_first_rows = max_rows\<rparr>
         | None \<Rightarrow>
             \<lparr>uc_staged = False, uc_waiting = 0, uc_ready = 1, uc_off = 2,
              uc_out_not_built = UNITSEAM_EARLIER_NOT_BUILT, uc_out_checked = UNITSEAM_EARLIER_CHECKED,
              uc_out_off_low_skip = UNITSEAM_EARLIER_OFF_LOW_SKIP, uc_out_off_failed = UNITSEAM_EARLIER_OFF_FAILED,
              uc_min_second_rows = 1, uc_first_per_second = 0, uc_sample_rows = 0, uc_min_skip_percent = 0,
              uc_seen_batch = 0, uc_concurrent = conc, uc_early = early,
              uc_out_first_late = UNITSEAM_ABSENT_FIRST_LATE, uc_out_off_first_rows = UNITSEAM_ABSENT_OFF_FIRST_ROWS,
              uc_out_ended_first = UNITSEAM_ABSENT_ENDED_FIRST, uc_max_first_rows = max_rows\<rparr>)"

section \<open>The view of the filter\<close>

record unitseam_bloom_view =
  uv_present :: bool
  uv_staged :: bool
  uv_set_up :: bool
  uv_state :: int
  uv_off_reason :: int
  uv_first_rows :: int
  uv_threshold :: int
  uv_seen :: int
  uv_first_is_outer :: bool
  uv_hj_xasl :: ptr
  uv_owner_xasl :: ptr
  uv_owner_thread :: ptr
  uv_bits :: ptr
  uv_row_buf :: ptr
  uv_key :: ptr
  uv_mask :: u32
  uv_keys :: int
  uv_tested :: int
  uv_skipped :: int
  uv_first_xasl :: ptr
  uv_first_done :: int
  uv_key_regus :: bool
  uv_key_cast :: ptr

definition view_zero :: unitseam_bloom_view where
  "view_zero = \<lparr>uv_present = False, uv_staged = False, uv_set_up = False, uv_state = 0, uv_off_reason = 0, uv_first_rows = 0,
     uv_threshold = 0, uv_seen = 0, uv_first_is_outer = False, uv_hj_xasl = None, uv_owner_xasl = None,
     uv_owner_thread = None, uv_bits = None, uv_row_buf = None, uv_key = None, uv_mask = 0, uv_keys = 0, uv_tested = 0,
     uv_skipped = 0, uv_first_xasl = None, uv_first_done = 0, uv_key_regus = False, uv_key_cast = None\<rparr>"

text \<open>The v5 members; of the array \<open>key_regus\<close> the view only says whether it is there.\<close>

definition unitseam_view_v5 :: "bloom_part \<Rightarrow> unitseam_bloom_view \<Rightarrow> unitseam_bloom_view" where
  "unitseam_view_v5 p v =
     (let v1 = (case p of
                  Staged s \<Rightarrow> (case sg_first s of
                      Some (x, d) \<Rightarrow> v\<lparr>uv_first_xasl := x, uv_first_done := d\<rparr>
                    | None \<Rightarrow> v\<lparr>uv_first_xasl := None, uv_first_done := - 1\<rparr>)
                | Earlier _ _ \<Rightarrow> v\<lparr>uv_first_xasl := None, uv_first_done := - 1\<rparr>)
      in (case p of
            Staged s \<Rightarrow> (case sg_early s of
                Some (r, c) \<Rightarrow> v1\<lparr>uv_key_regus := (r \<noteq> None), uv_key_cast := c\<rparr>
              | None \<Rightarrow> v1\<lparr>uv_key_regus := False, uv_key_cast := None\<rparr>)
          | Earlier _ _ \<Rightarrow> v1\<lparr>uv_key_regus := False, uv_key_cast := None\<rparr>))"

text \<open>\<open>off\<close> is the engine's \<open>HJOIN_BLOOM_OFF\<close>.\<close>

definition unitseam_bloom_view_of :: "int \<Rightarrow> hjoin_bloom option \<Rightarrow> unitseam_bloom_view" where
  "unitseam_bloom_view_of off bloom =
     (case bloom of None \<Rightarrow> view_zero
      | Some b \<Rightarrow>
         (let v0 = view_zero\<lparr>uv_present := True\<rparr>;
              v1 = (case hb_part b of
                      Staged s \<Rightarrow> v0\<lparr>uv_staged := True, uv_set_up := sg_set_up s, uv_state := sg_state s,
                         uv_off_reason := (if sg_state s = off then sg_off_reason s else - 1),
                         uv_first_rows := sg_first_rows s, uv_threshold := sg_threshold s, uv_seen := sg_seen s\<rparr>
                    | Earlier built disabled \<Rightarrow> v0\<lparr>uv_staged := False, uv_set_up := built,
                         uv_state := (if \<not> built then 0 else if disabled then 2 else 1),
                         uv_off_reason := (if built \<and> disabled then UNITSEAM_EARLIER_OFF_FAILED else - 1),
                         uv_first_rows := - 1, uv_threshold := 1, uv_seen := - 1\<rparr>);
              v2 = v1\<lparr>uv_first_is_outer := hb_first_is_outer b, uv_hj_xasl := hb_hj_xasl b, uv_owner_xasl := hb_owner_xasl b,
                      uv_owner_thread := hb_owner_thread b, uv_bits := hb_bits b, uv_row_buf := hb_row_buf b,
                      uv_key := hb_key b, uv_mask := hb_mask b, uv_keys := hb_keys b, uv_tested := hb_tested b,
                      uv_skipped := hb_skipped b\<rparr>
          in unitseam_view_v5 (hb_part b) v2))"

section \<open>Filling, skipping, checking\<close>

text \<open>
  The engine's functions over the filter: of the staged layout the set-up, the fill, the owner's row
  (\<open>None\<close>: the row is not checked) and the check; of the earlier one the build and the readiness;
  of both the skip of a record and the membership test.
\<close>

record 'r bloom_api =
  ba_setup :: "hjoin_bloom \<Rightarrow> hjoin_bloom"
  ba_fill :: "hjoin_bloom \<Rightarrow> hjoin_bloom"
  ba_build :: "hjoin_bloom \<Rightarrow> hjoin_bloom"
  ba_owner_row :: "hjoin_bloom option \<Rightarrow> bool \<times> hjoin_bloom option"
  ba_ready :: "hjoin_bloom option \<Rightarrow> bool \<times> hjoin_bloom option"
  ba_skip_record :: "'r \<Rightarrow> hjoin_bloom \<Rightarrow> bool \<times> hjoin_bloom"
  ba_check :: "ptr \<Rightarrow> 'r \<Rightarrow> hjoin_bloom \<Rightarrow> bool \<times> bool \<times> hjoin_bloom"
  ba_may_contain :: "hjoin_bloom option \<Rightarrow> u32 \<Rightarrow> bool"

definition bloom_state :: "hjoin_bloom \<Rightarrow> int option" where
  "bloom_state b = (case hb_part b of Staged s \<Rightarrow> Some (sg_state s) | Earlier _ _ \<Rightarrow> None)"

definition unitseam_fill_now_impl :: "'r bloom_api \<Rightarrow> int \<Rightarrow> hjoin_bloom \<Rightarrow> hjoin_bloom" where
  "unitseam_fill_now_impl api waiting b =
     (case hb_part b of
        Staged s \<Rightarrow>
          (if unitseam_has_first_done (hb_part b)
           then (if sg_state s = waiting then ba_fill api b else b)
           else (let b1 = (if \<not> sg_set_up s then ba_setup api b else b)
                 in if bloom_state b1 = Some waiting then ba_fill api b1 else b1))
      | Earlier built disabled \<Rightarrow> (if \<not> built then ba_build api b else b))"

definition unitseam_bloom_fill_now :: "'r bloom_api \<Rightarrow> int \<Rightarrow> hjoin_bloom \<Rightarrow> hjoin_bloom" where
  "unitseam_bloom_fill_now = unitseam_fill_now_impl"

definition unitseam_bloom_set_seen :: "int \<Rightarrow> hjoin_bloom \<Rightarrow> hjoin_bloom" where
  "unitseam_bloom_set_seen seen b =
     (case hb_part b of Staged s \<Rightarrow> b\<lparr>hb_part := Staged (s\<lparr>sg_seen := seen\<rparr>)\<rparr> | Earlier _ _ \<Rightarrow> b)"

text \<open>\<open>staged\<close> is \<open>UNITSEAM_BLOOM_STAGED\<close>.\<close>

definition unitseam_bloom_skip_bound ::
    "'r bloom_api \<Rightarrow> bool \<Rightarrow> 'r \<Rightarrow> hjoin_bloom option \<Rightarrow> int \<times> hjoin_bloom option" where
  "unitseam_bloom_skip_bound api staged rec xb =
     (let (found, xb1) = (if staged then ba_owner_row api xb else ba_ready api xb)
      in case xb1 of
           Some b \<Rightarrow> (if \<not> found then (- 1, xb1)
                      else (let (skip, b1) = ba_skip_record api rec b in (if skip then 1 else 0, Some b1)))
         | None \<Rightarrow> (- 1, None))"

definition unitseam_bloom_check_bound :: "'r bloom_api \<Rightarrow> int \<Rightarrow> 'r \<Rightarrow> hjoin_bloom option \<Rightarrow> int \<times> hjoin_bloom option" where
  "unitseam_bloom_check_bound api ready rec xb =
     (case xb of
        None \<Rightarrow> (- 1, None)
      | Some b \<Rightarrow>
          (case hb_part b of
             Staged s \<Rightarrow>
               (if sg_state s \<noteq> ready then (- 1, Some b)
                else (let (skip, failed, b1) = ba_check api (hb_key b) rec b
                      in (if failed then - 2 else if skip then 1 else 0, Some b1)))
           | Earlier built disabled \<Rightarrow>
               (if \<not> built \<or> disabled then (- 1, Some b)
                else (let tested = hb_tested b; skipped = hb_skipped b;
                          (skip, b1) = ba_skip_record api rec b;
                          b2 = b1\<lparr>hb_tested := tested, hb_skipped := skipped\<rparr>;
                          off = (case hb_part b2 of Earlier _ d \<Rightarrow> d | Staged _ \<Rightarrow> False)
                      in (if off then - 2 else if skip then 1 else 0, Some b2)))))"

definition unitseam_bloom_may_contain :: "'r bloom_api \<Rightarrow> hjoin_bloom option \<Rightarrow> u32 \<Rightarrow> bool" where
  "unitseam_bloom_may_contain api xb hsh = ba_may_contain api xb hsh"

section \<open>The statistics\<close>

datatype stats_part = Earlier_stats (sp_used: bool) | Staged_stats (sp_attached: bool) (sp_state: int) (sp_threshold: int) (sp_seen: int)

record bloom_stats =
  bs_part :: stats_part
  bs_keys :: int
  bs_tested :: int
  bs_skipped :: int

record unitseam_stats_view =
  us_staged :: bool
  us_shown :: bool
  us_outcome :: int
  us_keys :: int
  us_threshold :: int
  us_seen :: int
  us_tested :: int
  us_skipped :: int

definition unitseam_bloom_stats_of :: "bloom_stats \<Rightarrow> unitseam_stats_view" where
  "unitseam_bloom_stats_of g =
     (case bs_part g of
        Staged_stats attached state threshold seen \<Rightarrow>
          \<lparr>us_staged = True, us_shown = attached, us_outcome = state, us_keys = bs_keys g, us_threshold = threshold,
           us_seen = seen, us_tested = bs_tested g, us_skipped = bs_skipped g\<rparr>
      | Earlier_stats used \<Rightarrow>
          \<lparr>us_staged = False, us_shown = used,
           us_outcome = (if used then UNITSEAM_EARLIER_CHECKED else UNITSEAM_EARLIER_NOT_BUILT),
           us_keys = bs_keys g, us_threshold = - 1, us_seen = - 1, us_tested = bs_tested g, us_skipped = bs_skipped g\<rparr>)"

text \<open>\<open>off_low_skip\<close> is the engine's \<open>HASHJOIN_BLOOM_OFF_LOW_SKIP\<close>.\<close>

definition unitseam_bloom_stats_stale :: "int \<Rightarrow> bloom_stats \<Rightarrow> bloom_stats" where
  "unitseam_bloom_stats_stale off_low_skip g =
     g\<lparr>bs_part := (case bs_part g of Staged_stats _ _ _ _ \<Rightarrow> Staged_stats True off_low_skip 8 9
                     | Earlier_stats _ \<Rightarrow> Earlier_stats True),
       bs_keys := 5, bs_tested := 6, bs_skipped := 7\<rparr>"

section \<open>The worker's view\<close>

record bloom_worker =
  bw_bloom :: ptr
  bw_key :: ptr
  bw_row_buf :: ptr
  bw_row_buf_size :: int
  bw_disabled :: bool
  bw_ready :: bool
  bw_seen_unflushed :: int
  bw_tested :: int
  bw_skipped :: int
  bw_early :: "((nat \<Rightarrow> ptr) option \<times> ptr) option"

record unitseam_worker_view =
  wv_present :: bool
  wv_bloom :: ptr
  wv_key :: ptr
  wv_row_buf :: ptr
  wv_row_buf_size :: int
  wv_disabled :: bool
  wv_ready :: bool
  wv_seen_unflushed :: int
  wv_tested :: int
  wv_skipped :: int
  wv_key_regu0 :: ptr
  wv_key_cast :: ptr

definition worker_view_zero :: unitseam_worker_view where
  "worker_view_zero = \<lparr>wv_present = False, wv_bloom = None, wv_key = None, wv_row_buf = None, wv_row_buf_size = 0,
     wv_disabled = False, wv_ready = False, wv_seen_unflushed = 0, wv_tested = 0, wv_skipped = 0, wv_key_regu0 = None,
     wv_key_cast = None\<rparr>"

text \<open>
  \<open>has_worker\<close>: the revision has \<open>struct hjoin_bloom_worker\<close>; otherwise the primary template's empty
  view. \<open>w\<close> is the worker the pointer names.
\<close>

definition unitseam_worker_view_of :: "bool \<Rightarrow> bool \<Rightarrow> bloom_worker option \<Rightarrow> unitseam_worker_view" where
  "unitseam_worker_view_of has_worker staged worker =
     (if \<not> has_worker then worker_view_zero
      else case worker of
             None \<Rightarrow> worker_view_zero
           | Some w \<Rightarrow>
               (let v = worker_view_zero\<lparr>wv_present := True, wv_bloom := bw_bloom w, wv_key := bw_key w,
                      wv_row_buf := bw_row_buf w, wv_row_buf_size := bw_row_buf_size w, wv_disabled := bw_disabled w,
                      wv_ready := (if staged then bw_ready w else True),
                      wv_seen_unflushed := (if staged then bw_seen_unflushed w else - 1),
                      wv_tested := bw_tested w, wv_skipped := bw_skipped w\<rparr>
                in case bw_early w of
                     Some (regus, key_cast) \<Rightarrow>
                       v\<lparr>wv_key_regu0 := (case regus of Some r \<Rightarrow> r 0 | None \<Rightarrow> None), wv_key_cast := key_cast\<rparr>
                   | None \<Rightarrow> v))"

section \<open>The early check\<close>

definition unitseam_key_regu_impl :: "hjoin_bloom option \<Rightarrow> nat \<Rightarrow> ptr" where
  "unitseam_key_regu_impl xb k =
     (case xb of None \<Rightarrow> None
      | Some b \<Rightarrow> (case hb_part b of
                     Staged s \<Rightarrow> (case sg_early s of Some (Some regus, _) \<Rightarrow> regus k | _ \<Rightarrow> None)
                   | Earlier _ _ \<Rightarrow> None))"

definition unitseam_bloom_key_regu :: "hjoin_bloom option \<Rightarrow> nat \<Rightarrow> ptr" where
  "unitseam_bloom_key_regu = unitseam_key_regu_impl"







section \<open>The join's own keys\<close>

record 'i domain_info =
  dm_outer :: 'i
  dm_inner :: 'i
  dm_coerce_domains :: ptr
  dm_need_coerce_domains :: bool

record 'i fetch_info =
  fi_input :: 'i
  fi_coerce_domains :: ptr
  fi_need_coerce_domains :: bool

record ('i, 'm) hashjoin_proc =
  hp_merge_info :: 'm
  hp_outer :: 'i
  hp_inner :: 'i
  hp_domain_info :: "'i domain_info"

text \<open>The manager the hooks build: zero but for the three members they set.\<close>

record ('i, 'm) hashjoin_manager =
  mg_merge_info :: "'m option"
  mg_outer :: "'i option"
  mg_inner :: "'i option"
  mg_domp :: ptr

definition unitseam_hj_init_domain_info ::
    "(('i, 'm) hashjoin_manager \<Rightarrow> 'i domain_info \<Rightarrow> int \<times> 'i domain_info) \<Rightarrow> ('i, 'm) hashjoin_proc \<Rightarrow>
     int \<times> ('i, 'm) hashjoin_proc" where
  "unitseam_hj_init_domain_info init proc =
     (let manager = \<lparr>mg_merge_info = Some (hp_merge_info proc), mg_outer = Some (hp_outer proc),
                       mg_inner = Some (hp_inner proc), mg_domp = None\<rparr>;
          (rc, di) = init manager (hp_domain_info proc)
      in (rc, proc\<lparr>hp_domain_info := di\<rparr>))"

text \<open>\<open>'h\<close> is the private heap; the manager comes back from the engine, freed of its type list only.\<close>

definition unitseam_hj_init_manager ::
    "(('i, 'm) hashjoin_proc \<Rightarrow> 'h \<Rightarrow> int \<times> ('i, 'm) hashjoin_manager \<times> 'h) \<Rightarrow> (nat \<Rightarrow> 'h \<Rightarrow> 'h) \<Rightarrow>
     ('i, 'm) hashjoin_proc \<Rightarrow> 'h \<Rightarrow> int \<times> 'h" where
  "unitseam_hj_init_manager init dealloc proc h =
     (let (err, manager, h1) = init proc h
      in (err, (case mg_domp manager of None \<Rightarrow> h1 | Some p \<Rightarrow> dealloc p h1)))"

text \<open>
  The engine's side: the allocation of a key (its address and first content), the fetch of a record's
  key (its code, whether the join skips the row, the key), the hash and the equality of keys. Keys
  live in a heap; \<open>ja_cnt\<close> is \<open>ls_column_cnt\<close> of the merge info.
\<close>

record ('i, 'm, 'r, 'k) join_api =
  ja_cnt :: "'m \<Rightarrow> int"
  ja_alloc :: "int \<Rightarrow> (nat \<rightharpoonup> 'k) \<Rightarrow> (nat \<times> 'k) option"
  ja_fetch :: "'i fetch_info \<Rightarrow> 'r \<Rightarrow> 'k option \<Rightarrow> int \<times> bool \<times> 'k"
  ja_hash :: "'k \<Rightarrow> u32"
  ja_eq :: "'k \<Rightarrow> 'k \<Rightarrow> bool"

record join_out =
  jo_first_null :: bool
  jo_second_null :: bool
  jo_first_hash :: u32
  jo_second_hash :: u32
  jo_key_eq :: bool
  jo_compare_eq :: bool

definition join_infos :: "'i domain_info \<Rightarrow> bool \<Rightarrow> 'i fetch_info \<times> 'i fetch_info" where
  "join_infos di first_is_outer =
     (let info = (\<lambda>i. \<lparr>fi_input = i, fi_coerce_domains = dm_coerce_domains di,
                        fi_need_coerce_domains = dm_need_coerce_domains di\<rparr>)
      in (info (if first_is_outer then dm_outer di else dm_inner di),
          info (if first_is_outer then dm_inner di else dm_outer di)))"

definition join_out_zero :: join_out where
  "join_out_zero = \<lparr>jo_first_null = False, jo_second_null = False, jo_first_hash = 0, jo_second_hash = 0,
     jo_key_eq = False, jo_compare_eq = False\<rparr>"

text \<open>Up to the label \<open>end\<close>: the code, the outputs and the heap with the three keys still allocated.\<close>

definition join_pair_body ::
    "('i, 'm, 'r, 'k) join_api \<Rightarrow> 'i fetch_info \<Rightarrow> 'i fetch_info \<Rightarrow> 'r \<Rightarrow> 'r \<Rightarrow> nat \<Rightarrow> nat \<Rightarrow> nat \<Rightarrow> (nat \<rightharpoonup> 'k) \<Rightarrow>
     int \<times> join_out \<times> (nat \<rightharpoonup> 'k)" where
  "join_pair_body api first second first_rec second_rec p1 p2 p3 h =
     (let out0 = join_out_zero;
          (e1, skip1, k1) = ja_fetch api first first_rec None; h1 = h(p1 \<mapsto> k1)
      in if e1 \<noteq> 0 then (e1, out0, h1)
         else (let out1 = out0\<lparr>jo_first_null := skip1\<rparr>;
                   (e2, skip2, k2) = ja_fetch api second second_rec None; h2 = h1(p2 \<mapsto> k2)
               in if e2 \<noteq> 0 then (e2, out1, h2)
                  else (let out2 = out1\<lparr>jo_second_null := skip2\<rparr>;
                            out3 = (if \<not> skip1 then out2\<lparr>jo_first_hash := ja_hash api k1\<rparr> else out2);
                            out4 = (if \<not> skip2 then out3\<lparr>jo_second_hash := ja_hash api k2\<rparr> else out3)
                        in if \<not> skip1 \<and> \<not> skip2
                           then (let out5 = out4\<lparr>jo_key_eq := ja_eq api k1 k2\<rparr>;
                                     (e3, skip3, k3) = ja_fetch api second second_rec (Some k1); h3 = h2(p3 \<mapsto> k3)
                                 in if e3 \<noteq> 0 then (e3, out5, h3)
                                    else (0, out5\<lparr>jo_compare_eq := \<not> skip3\<rparr>, h3))
                           else (0, out4, h2))))"

definition hj_free :: "nat \<Rightarrow> (nat \<rightharpoonup> 'k) \<Rightarrow> nat \<rightharpoonup> 'k" where
  "hj_free p h = h(p := None)"

text \<open>\<open>None\<close>: an allocation failed, which the source does not look at before the fetch.\<close>

definition unitseam_hj_join_pair ::
    "('i, 'm, 'r, 'k) join_api \<Rightarrow> ('i, 'm) hashjoin_proc \<Rightarrow> bool \<Rightarrow> 'r \<Rightarrow> 'r \<Rightarrow> (nat \<rightharpoonup> 'k) \<Rightarrow>
     (int \<times> join_out \<times> (nat \<rightharpoonup> 'k)) option" where
  "unitseam_hj_join_pair api proc first_is_outer first_rec second_rec h =
     (let (first, second) = join_infos (hp_domain_info proc) first_is_outer;
          cnt = ja_cnt api (hp_merge_info proc)
      in case ja_alloc api cnt h of None \<Rightarrow> None
         | Some (p1, b1) \<Rightarrow> (let h1 = h(p1 \<mapsto> b1)
           in case ja_alloc api cnt h1 of None \<Rightarrow> None
              | Some (p2, b2) \<Rightarrow> (let h2 = h1(p2 \<mapsto> b2)
                in case ja_alloc api cnt h2 of None \<Rightarrow> None
                   | Some (p3, b3) \<Rightarrow>
                      (let (err, out, h3) = join_pair_body api first second first_rec second_rec p1 p2 p3 (h2(p3 \<mapsto> b3))
                       in Some (err, out, hj_free p3 (hj_free p2 (hj_free p1 h3)))))))"

definition unitseam_hj_second_key ::
    "('i, 'm, 'r, 'k) join_api \<Rightarrow> ('i, 'm) hashjoin_proc \<Rightarrow> bool \<Rightarrow> 'r \<Rightarrow> (nat \<rightharpoonup> 'k) \<Rightarrow> int \<times> u32 \<times> (nat \<rightharpoonup> 'k)" where
  "unitseam_hj_second_key api proc first_is_outer record h =
     (let second = snd (join_infos (hp_domain_info proc) first_is_outer);
          cnt = ja_cnt api (hp_merge_info proc)
      in case ja_alloc api cnt h of None \<Rightarrow> (- 1, 0, h)
         | Some (p, b) \<Rightarrow>
            (let (e, skip, k) = ja_fetch api second record None;
                 h1 = (h(p \<mapsto> b))(p \<mapsto> k);
                 rc = (if e \<noteq> 0 then - 1 else if skip then 1 else 0);
                 hsh = (if rc = 0 then ja_hash api k else 0)
             in (rc, hsh, hj_free p h1)))"

section \<open>Properties\<close>

text \<open>
  The earlier layout read as a staged one, as the source's comment maps it: built is set up, not
  built is waiting, built and not disabled is ready, built and disabled is off for a failure, and the
  build runs at the second input's first row.
\<close>

definition as_staged :: "unitseam_bloom_consts \<Rightarrow> hjoin_bloom \<Rightarrow> hjoin_bloom" where
  "as_staged c b =
     (case hb_part b of Staged _ \<Rightarrow> b
      | Earlier built disabled \<Rightarrow>
          b\<lparr>hb_part := Staged \<lparr>sg_set_up = built,
              sg_state = (if \<not> built then uc_waiting c else if disabled then uc_off c else uc_ready c),
              sg_off_reason = uc_out_off_failed c, sg_first_rows = - 1, sg_threshold = 1, sg_seen = - 1,
              sg_first = None, sg_early = None\<rparr>\<rparr>)"

text \<open>
  One view for both layouts: on a revision with the earlier layout the view of a filter is, but for
  the flag that says so, the view of the staged filter the comment maps it to, read with the state
  values the hook reports there.
\<close>

theorem earlier_view_as_staged:
  assumes "bn_staged n = None" "hb_part b = Earlier built disabled"
  shows "unitseam_bloom_view_of off (Some b) =
    (unitseam_bloom_view_of (uc_off (unitseam_bloom_consts_of n)) (Some (as_staged (unitseam_bloom_consts_of n) b)))\<lparr>uv_staged := False\<rparr>"
  using assms by (simp add: unitseam_bloom_view_of_def as_staged_def unitseam_bloom_consts_of_def unitseam_view_v5_def
      view_zero_def Let_def)

definition any_bloom :: "bloom_part \<Rightarrow> hjoin_bloom" where
  "any_bloom p = \<lparr>hb_part = p, hb_first_is_outer = True, hb_hj_xasl = Some 1, hb_owner_xasl = Some 2, hb_owner_thread = None,
     hb_bits = Some 3, hb_row_buf = None, hb_key = Some 4, hb_mask = 255, hb_keys = 5, hb_tested = 6, hb_skipped = 7\<rparr>"

definition any_names :: bloom_names where
  "any_names = \<lparr>bn_staged = None, bn_concurrent = False, bn_early = False, bn_max_first_rows = None\<rparr>"

theorem earlier_view_as_staged_witness:
  "uv_state (unitseam_bloom_view_of 9 (Some (any_bloom (Earlier True True)))) = uc_off (unitseam_bloom_consts_of any_names)"
proof -
  have "uv_state (unitseam_bloom_view_of 9 (Some (any_bloom (Earlier True True)))) =
      uv_state (unitseam_bloom_view_of (uc_off (unitseam_bloom_consts_of any_names))
        (Some (as_staged (unitseam_bloom_consts_of any_names) (any_bloom (Earlier True True)))))"
    by (subst earlier_view_as_staged [of any_names "any_bloom (Earlier True True)" True True 9])
      (simp_all add: any_names_def any_bloom_def)
  then show ?thesis
    by (simp add: unitseam_bloom_view_of_def as_staged_def any_bloom_def unitseam_view_v5_def view_zero_def Let_def)
qed

text \<open>
  The outcomes the hook reports are told apart on every revision: the stand-ins differ from each
  other and, the engine's values being an enumeration's (distinct and not negative), from every real one.
\<close>

theorem outcomes_distinct:
  assumes "\<And>s. bn_staged n = Some s \<Longrightarrow>
      (let real = [sn_out_not_built s, sn_out_checked s, sn_out_off_low_skip s, sn_out_off_failed s]
             @ List.map_filter id [sn_out_first_late s, sn_out_off_first_rows s, sn_out_ended_first s]
       in distinct real \<and> list_all (\<lambda>v. 0 \<le> v) real)"
  shows "distinct (map (\<lambda>f. f (unitseam_bloom_consts_of n))
    [uc_out_not_built, uc_out_checked, uc_out_off_low_skip, uc_out_off_failed, uc_out_first_late, uc_out_off_first_rows,
     uc_out_ended_first])"
proof (cases "bn_staged n")
  case None
  then show ?thesis
    by (simp add: unitseam_bloom_consts_of_def Let_def UNITSEAM_ABSENT_FIRST_LATE_def UNITSEAM_ABSENT_OFF_FIRST_ROWS_def
        UNITSEAM_ABSENT_ENDED_FIRST_def UNITSEAM_EARLIER_NOT_BUILT_def UNITSEAM_EARLIER_CHECKED_def
        UNITSEAM_EARLIER_OFF_LOW_SKIP_def UNITSEAM_EARLIER_OFF_FAILED_def)
next
  case (Some s)
  show ?thesis using assms [OF Some] Some
    by (cases "sn_out_first_late s"; cases "sn_out_off_first_rows s"; cases "sn_out_ended_first s")
      (auto simp: unitseam_bloom_consts_of_def Let_def unitseam_out_first_late_def unitseam_out_off_first_rows_def
        unitseam_out_ended_first_def UNITSEAM_ABSENT_FIRST_LATE_def UNITSEAM_ABSENT_OFF_FIRST_ROWS_def
        UNITSEAM_ABSENT_ENDED_FIRST_def List.map_filter_simps)
qed

theorem outcomes_distinct_witness: "uc_out_checked (unitseam_bloom_consts_of any_names) \<noteq> uc_out_first_late (unitseam_bloom_consts_of any_names)"
  using outcomes_distinct [of any_names] by (simp add: any_names_def)

text \<open>What the fill leaves, layout by layout: nothing to do for a second call.\<close>

definition filled :: "int \<Rightarrow> hjoin_bloom \<Rightarrow> bool" where
  "filled waiting b =
     (case hb_part b of
        Staged s \<Rightarrow> sg_state s \<noteq> waiting \<and> (sg_first s = None \<longrightarrow> sg_set_up s)
      | Earlier built _ \<Rightarrow> built)"

text \<open>
  Filling now leaves a filter that is filled, on every layout, and doing it again changes nothing:
  given that the engine's set-up sets up, its fill leaves the waiting state and its build builds.
\<close>

theorem fill_now_once:
  assumes setups: "\<And>b s. hb_part b = Staged s \<Longrightarrow>
        \<exists>s'. hb_part (ba_setup api b) = Staged s' \<and> sg_set_up s' \<and> sg_first s' = sg_first s"
    and fill: "\<And>b s. hb_part b = Staged s \<Longrightarrow> \<exists>s'. hb_part (ba_fill api b) = Staged s' \<and> sg_state s' \<noteq> waiting \<and>
        (sg_set_up s \<longrightarrow> sg_set_up s') \<and> sg_first s' = sg_first s"
    and build: "\<And>b d. hb_part b = Earlier False d \<Longrightarrow> \<exists>d'. hb_part (ba_build api b) = Earlier True d'"
  shows "filled waiting (unitseam_bloom_fill_now api waiting b) \<and>
    unitseam_bloom_fill_now api waiting (unitseam_bloom_fill_now api waiting b) = unitseam_bloom_fill_now api waiting b"
proof -
  have again: "unitseam_bloom_fill_now api waiting b = b" if "filled waiting b" for b
    using that by (cases "hb_part b")
      (auto simp: filled_def unitseam_bloom_fill_now_def unitseam_fill_now_impl_def unitseam_has_first_done_def
        bloom_state_def Let_def)
  have "filled waiting (unitseam_bloom_fill_now api waiting b)"
  proof (cases "hb_part b")
    case (Earlier built d)
    then show ?thesis using build [of b d]
      by (auto simp: filled_def unitseam_bloom_fill_now_def unitseam_fill_now_impl_def)
  next
    case (Staged s)
    show ?thesis
    proof (cases "sg_first s")
      case None
      obtain b1 where b1: "b1 = (if \<not> sg_set_up s then ba_setup api b else b)" by blast
      obtain s1 where s1: "hb_part b1 = Staged s1" "sg_set_up s1" "sg_first s1 = None"
      proof (cases "sg_set_up s")
        case True
        then show ?thesis using that [of s] Staged None b1 by simp
      next
        case False
        obtain s' where "hb_part (ba_setup api b) = Staged s'" "sg_set_up s'" "sg_first s' = sg_first s"
          using setups [OF Staged] by blast
        then show ?thesis using that [of s'] False None b1 by simp
      qed
      obtain s2 where s2: "hb_part (ba_fill api b1) = Staged s2" "sg_state s2 \<noteq> waiting" "sg_set_up s2"
        using fill [OF s1(1)] s1(2) by blast
      have "unitseam_bloom_fill_now api waiting b = (if bloom_state b1 = Some waiting then ba_fill api b1 else b1)"
        using Staged None b1
        by (simp add: unitseam_bloom_fill_now_def unitseam_fill_now_impl_def unitseam_has_first_done_def)
      then show ?thesis using s1 s2 by (simp add: filled_def bloom_state_def)
    next
      case (Some f)
      then show ?thesis using fill [OF Staged] Staged
        by (auto simp: filled_def unitseam_bloom_fill_now_def unitseam_fill_now_impl_def unitseam_has_first_done_def)
    qed
  qed
  then show ?thesis using again by blast
qed

definition any_staged :: "int \<Rightarrow> staged_part" where
  "any_staged st = \<lparr>sg_set_up = False, sg_state = st, sg_off_reason = 3, sg_first_rows = 10, sg_threshold = 2, sg_seen = 1,
     sg_first = None, sg_early = Some (Some (\<lambda>k. Some k), Some 9)\<rparr>"

definition upd_staged :: "(staged_part \<Rightarrow> staged_part) \<Rightarrow> hjoin_bloom \<Rightarrow> hjoin_bloom" where
  "upd_staged f b = (case hb_part b of Staged s \<Rightarrow> b\<lparr>hb_part := Staged (f s)\<rparr> | Earlier _ _ \<Rightarrow> b)"

definition any_bloom_api :: "unit bloom_api" where
  "any_bloom_api = \<lparr>ba_setup = upd_staged (\<lambda>s. s\<lparr>sg_set_up := True\<rparr>), ba_fill = upd_staged (\<lambda>s. s\<lparr>sg_state := 1\<rparr>),
     ba_build = (\<lambda>b. b\<lparr>hb_part := Earlier True False\<rparr>), ba_owner_row = (\<lambda>xb. (True, xb)), ba_ready = (\<lambda>xb. (True, xb)),
     ba_skip_record = (\<lambda>_ b. (True, b\<lparr>hb_tested := hb_tested b + 1, hb_skipped := hb_skipped b + 1\<rparr>)),
     ba_check = (\<lambda>_ _ b. (True, False, b)), ba_may_contain = (\<lambda>_ _. True)\<rparr>"

theorem fill_now_once_witness: "filled 0 (unitseam_bloom_fill_now any_bloom_api 0 (any_bloom (Staged (any_staged 0))))"
proof -
  have "filled 0 (unitseam_bloom_fill_now any_bloom_api 0 b) \<and> unitseam_bloom_fill_now any_bloom_api 0
      (unitseam_bloom_fill_now any_bloom_api 0 b) = unitseam_bloom_fill_now any_bloom_api 0 b" for b
    by (rule fill_now_once) (auto simp: any_bloom_api_def upd_staged_def)
  then show ?thesis by blast
qed

definition bloom_ready :: "int \<Rightarrow> hjoin_bloom \<Rightarrow> bool" where
  "bloom_ready ready b = (case hb_part b of Staged s \<Rightarrow> sg_state s = ready | Earlier built disabled \<Rightarrow> built \<and> \<not> disabled)"

text \<open>
  The decision alone: the check of a bound record counts nothing, on the earlier layout because the
  two counters are put back whatever the engine's skip did to them, and answers -1 exactly when the
  filter is not ready.
\<close>

theorem check_bound_counts_nothing:
  assumes "\<And>key r b skip failed b1. ba_check api key r b = (skip, failed, b1) \<Longrightarrow>
      hb_tested b1 = hb_tested b \<and> hb_skipped b1 = hb_skipped b"
    and "unitseam_bloom_check_bound api ready rec (Some b) = (rc, xb)"
  shows "\<exists>b'. xb = Some b' \<and> hb_tested b' = hb_tested b \<and> hb_skipped b' = hb_skipped b \<and>
    rc \<in> {- 2, - 1, 0, 1} \<and> (rc = - 1 \<longleftrightarrow> \<not> bloom_ready ready b)"
proof (cases "hb_part b")
  case (Earlier built disabled)
  then show ?thesis using assms(2)
    by (auto simp: unitseam_bloom_check_bound_def bloom_ready_def Let_def split: prod.splits if_splits)
next
  case (Staged s)
  obtain skip failed b1 where c: "ba_check api (hb_key b) rec b = (skip, failed, b1)"
    by (cases "ba_check api (hb_key b) rec b")
  show ?thesis using assms(2) assms(1) [OF c] Staged c
    by (auto simp: unitseam_bloom_check_bound_def bloom_ready_def Let_def split: if_splits)
qed

theorem check_bound_counts_nothing_witness:
  "\<exists>b'. unitseam_bloom_check_bound any_bloom_api 1 () (Some (any_bloom (Earlier True False))) = (1, Some b') \<and> hb_tested b' = 6"
proof -
  obtain rc xb where run: "unitseam_bloom_check_bound any_bloom_api 1 () (Some (any_bloom (Earlier True False))) = (rc, xb)"
    by (cases "unitseam_bloom_check_bound any_bloom_api 1 () (Some (any_bloom (Earlier True False)))")
  have "\<exists>b'. xb = Some b' \<and> hb_tested b' = hb_tested (any_bloom (Earlier True False)) \<and>
      hb_skipped b' = hb_skipped (any_bloom (Earlier True False)) \<and>
      rc \<in> {- 2, - 1, 0, 1} \<and> (rc = - 1 \<longleftrightarrow> \<not> bloom_ready 1 (any_bloom (Earlier True False)))"
    by (rule check_bound_counts_nothing [OF _ run]) (simp add: any_bloom_api_def)
  moreover have "rc = 1" using run
    by (simp add: unitseam_bloom_check_bound_def any_bloom_def any_bloom_api_def Let_def)
  ultimately show ?thesis using run by (auto simp: any_bloom_def)
qed





lemma join_infos_swap: "join_infos di (\<not> o1) = prod.swap (join_infos di o1)"
  by (simp add: join_infos_def Let_def)

lemma join_pair_body_heap:
  "join_pair_body api first second r1 r2 p1 p2 p3 h = (err, out, h3) \<Longrightarrow>
   \<forall>q. q \<noteq> p1 \<and> q \<noteq> p2 \<and> q \<noteq> p3 \<longrightarrow> h3 q = h q"
  by (auto simp: join_pair_body_def Let_def split: prod.splits if_splits)

text \<open>
  C3. Joining a pair leaks nothing: whatever the fetches answer, on the error paths as well, the three
  keys are freed and the heap is the one before. On success what it says of either row is what
  \<open>unitseam_hj_second_key\<close> says of that row alone, on the row's own side of the join, and the key
  of a NULL row is neither hashed nor compared.
\<close>

theorem join_pair_frees:
  assumes alloc: "\<And>c h p k. ja_alloc api c h = Some (p, k) \<Longrightarrow> h p = None"
    and run: "unitseam_hj_join_pair api proc o1 r1 r2 h = Some (err, out, h')"
  shows "h' = h \<and> (err = 0 \<longrightarrow>
    unitseam_hj_second_key api proc o1 r2 h = (if jo_second_null out then 1 else 0, jo_second_hash out, h) \<and>
    unitseam_hj_second_key api proc (\<not> o1) r1 h = (if jo_first_null out then 1 else 0, jo_first_hash out, h) \<and>
    (jo_first_null out \<or> jo_second_null out \<longrightarrow> \<not> jo_key_eq out \<and> \<not> jo_compare_eq out))"
proof -
  obtain first second where fs: "join_infos (hp_domain_info proc) o1 = (first, second)" by (cases "join_infos (hp_domain_info proc) o1")
  obtain cnt where cnt: "cnt = ja_cnt api (hp_merge_info proc)" by blast
  obtain p1 b1 where a1: "ja_alloc api cnt h = Some (p1, b1)"
    using run fs cnt by (auto simp: unitseam_hj_join_pair_def Let_def split: option.splits)
  obtain p2 b2 where a2: "ja_alloc api cnt (h(p1 \<mapsto> b1)) = Some (p2, b2)"
    using run fs cnt a1 by (auto simp: unitseam_hj_join_pair_def Let_def split: option.splits)
  obtain p3 b3 where a3: "ja_alloc api cnt (h(p1 \<mapsto> b1, p2 \<mapsto> b2)) = Some (p3, b3)"
    using run fs cnt a1 a2 by (auto simp: unitseam_hj_join_pair_def Let_def split: option.splits)
  obtain h3 where body: "join_pair_body api first second r1 r2 p1 p2 p3 (h(p1 \<mapsto> b1, p2 \<mapsto> b2, p3 \<mapsto> b3)) = (err, out, h3)"
    and h': "h' = hj_free p3 (hj_free p2 (hj_free p1 h3))"
    using run fs cnt a1 a2 a3 by (auto simp: unitseam_hj_join_pair_def Let_def split: prod.splits)
  have free: "h p1 = None" "(h(p1 \<mapsto> b1)) p2 = None" "(h(p1 \<mapsto> b1, p2 \<mapsto> b2)) p3 = None"
    using alloc [OF a1] alloc [OF a2] alloc [OF a3] by blast+
  have frees: "h p2 = None" "h p3 = None"
    using free by (auto split: if_splits)
  have heap: "h' = h"
  proof
    fix q
    show "h' q = h q"
      using join_pair_body_heap [OF body] free(1) frees by (auto simp: h' hj_free_def)
  qed
  obtain e1 s1 k1 where f1: "ja_fetch api first r1 None = (e1, s1, k1)" by (cases "ja_fetch api first r1 None")
  obtain e2 s2 k2 where f2: "ja_fetch api second r2 None = (e2, s2, k2)" by (cases "ja_fetch api second r2 None")
  have second: "unitseam_hj_second_key api proc o1 r2 h = (if e2 \<noteq> 0 then - 1 else if s2 then 1 else 0,
      if e2 = 0 \<and> \<not> s2 then ja_hash api k2 else 0, h)"
    using fs cnt a1 f2 free(1) by (auto simp: unitseam_hj_second_key_def Let_def hj_free_def)
  have first: "unitseam_hj_second_key api proc (\<not> o1) r1 h = (if e1 \<noteq> 0 then - 1 else if s1 then 1 else 0,
      if e1 = 0 \<and> \<not> s1 then ja_hash api k1 else 0, h)"
    unfolding unitseam_hj_second_key_def join_infos_swap fs
    using cnt a1 f1 free(1) by (auto simp: Let_def hj_free_def)
  have "err = 0 \<longrightarrow> e1 = 0 \<and> e2 = 0 \<and> jo_first_null out = s1 \<and> jo_second_null out = s2 \<and>
      jo_first_hash out = (if s1 then 0 else ja_hash api k1) \<and> jo_second_hash out = (if s2 then 0 else ja_hash api k2) \<and>
      (s1 \<or> s2 \<longrightarrow> \<not> jo_key_eq out \<and> \<not> jo_compare_eq out)"
    using body f1 f2
    by (cases "ja_fetch api second r2 (Some k1)")
      (auto simp: join_pair_body_def Let_def join_out_zero_def split: if_splits)
  then show ?thesis using heap first second by simp
qed

definition any_join_api :: "(int, int, int, int) join_api" where
  "any_join_api = \<lparr>ja_cnt = id, ja_alloc = (\<lambda>c h. if h 0 = None then Some (0, c) else if h 1 = None then Some (1, c)
     else if h 2 = None then Some (2, c) else None), ja_fetch = (\<lambda>info r c. (0, r < 0, fi_input info + r)),
     ja_hash = (\<lambda>k. word_of_int k), ja_eq = (\<lambda>a b. a = b)\<rparr>"

definition any_proc :: "(int, int) hashjoin_proc" where
  "any_proc = \<lparr>hp_merge_info = 2, hp_outer = 10, hp_inner = 20, hp_domain_info = \<lparr>dm_outer = 10, dm_inner = 20,
     dm_coerce_domains = None, dm_need_coerce_domains = False\<rparr>\<rparr>"

theorem join_pair_frees_witness:
  "\<exists>out. unitseam_hj_join_pair any_join_api any_proc True 3 (- 4) Map.empty = Some (0, out, Map.empty) \<and> jo_second_null out"
proof -
  have laws: "ja_alloc any_join_api c h = Some (p, k) \<Longrightarrow> h p = None" for c h p k
    by (auto simp: any_join_api_def split: if_splits)
  have run: "\<exists>out h'. unitseam_hj_join_pair any_join_api any_proc True 3 (- 4) Map.empty = Some (0, out, h') \<and> jo_second_null out"
    by (simp add: unitseam_hj_join_pair_def any_join_api_def any_proc_def join_infos_def join_pair_body_def Let_def)
  obtain out h' where out: "unitseam_hj_join_pair any_join_api any_proc True 3 (- 4) Map.empty = Some (0, out, h')"
      "jo_second_null out" using run by blast
  have "h' = Map.empty"
  proof (rule conjunct1)
    show "h' = Map.empty \<and> (0 = (0 :: int) \<longrightarrow>
      unitseam_hj_second_key any_join_api any_proc True (- 4) Map.empty =
        (if jo_second_null out then 1 else 0, jo_second_hash out, Map.empty) \<and>
      unitseam_hj_second_key any_join_api any_proc (\<not> True) 3 Map.empty =
        (if jo_first_null out then 1 else 0, jo_first_hash out, Map.empty) \<and>
      (jo_first_null out \<or> jo_second_null out \<longrightarrow> \<not> jo_key_eq out \<and> \<not> jo_compare_eq out))"
      by (rule join_pair_frees [OF _ out(1)]) (rule laws)
  qed
  then show ?thesis using out by blast
qed

end
