(* ===== verification/NumBatch.thy ===== *)
theory NumBatch
  imports Decimal Complex_Main
begin

text \<open>
  The two NUMERIC suites of the batch expressions. \<open>src/unit/query/e_expr_batch.num_leaf_constant\<close>
  runs one comparison leaf of a batch over a column of 128-bit coefficients (\<open>hooks.cpp\<close>) and compares
  the rows it keeps with the rows the NUMERIC comparison keeps (\<open>test.cpp\<close>);
  \<open>src/unit/query/e_expr_batch.num_step_scale\<close> runs one arithmetic step over a column and a scalar.
  The engine's functions are parameters. An array of the hooks is the list of the elements they set.
\<close>

section \<open>The batch structures\<close>

text \<open>The values of the engine's enumerations that the hooks name.\<close>

datatype eb_kind = EB_VK_COL | EB_VK_SCALAR | EB_VK_SLOT
datatype eb_etype = EB_N64 | EB_NUM
datatype eb_dbtype = DB_TYPE_NUMERIC

datatype eb_data = Data64 "u64 list" | Data128 "u128 list"

text \<open>\<open>(short) x\<close> and \<open>(unsigned char) x\<close>.\<close>

definition short_of :: "int \<Rightarrow> int" where "short_of x = sint (word_of_int x :: 16 word)"
definition uchar_of :: "int \<Rightarrow> int" where "uchar_of x = uint (word_of_int x :: u8)"

record eb_vec =
  vc_data :: eb_data
  vc_isnull :: "u8 list"
  vc_kind :: eb_kind
  vc_etype :: eb_etype
  vc_dbtype :: eb_dbtype
  vc_scale :: int
  vc_scales :: "int list option"
  vc_col :: int

record eb_vec_src =
  vs_precision :: int
  vs_scale :: int

record eb_col =
  co_vec :: int
  co_type :: eb_dbtype
  co_is_fixed :: int
  co_scale :: int

record eb_leaf =
  lf_vec :: int
  lf_col :: int
  lf_vec2 :: int
  lf_col2 :: int
  lf_etype :: eb_etype
  lf_k_type :: eb_dbtype
  lf_rel_op :: int
  lf_k_all :: int
  lf_k_op :: int
  lf_k_n :: u128

record eb_step =
  sp_op :: int
  sp_in1 :: int
  sp_in2 :: int
  sp_out :: int
  sp_etype :: eb_etype
  sp_result_type :: eb_dbtype

text \<open>The counts \<open>n_vecs\<close>, \<open>n_cols\<close>, \<open>n_leaves\<close> and \<open>n_steps\<close> are the lengths of the lists.\<close>

record eb_plan =
  pn_vecs :: "eb_vec list"
  pn_vsrc :: "eb_vec_src list"
  pn_cols :: "eb_col list"
  pn_leaves :: "eb_leaf list"
  pn_steps :: "eb_step list"
  pn_unk :: "u8 list"

record eb_batch =
  bt_n_rows :: int
  bt_cap :: int
  bt_sel :: "int list"
  bt_n_sel :: int

section \<open>One leaf over a column\<close>

record num_leaf_out =
  nl_kept :: "nat \<Rightarrow> int"
  nl_n_kept :: int
  nl_k_all :: int
  nl_k_op :: int
  nl_kn :: u128

definition leaf_plan :: "u128 list \<Rightarrow> u8 list option \<Rightarrow> nat \<Rightarrow> int \<Rightarrow> eb_leaf \<Rightarrow> eb_plan" where
  "leaf_plan col_vals col_null n col_scale leaf =
     \<lparr>pn_vecs = [\<lparr>vc_data = Data128 (take n col_vals),
                  vc_isnull = (case col_null of Some cn \<Rightarrow> take n cn | None \<Rightarrow> replicate n 0),
                  vc_kind = EB_VK_COL, vc_etype = EB_NUM, vc_dbtype = DB_TYPE_NUMERIC, vc_scale = short_of col_scale,
                  vc_scales = None, vc_col = 0\<rparr>],
      pn_vsrc = [\<lparr>vs_precision = 38, vs_scale = short_of col_scale\<rparr>],
      pn_cols = [\<lparr>co_vec = 0, co_type = DB_TYPE_NUMERIC, co_is_fixed = 0, co_scale = short_of col_scale\<rparr>],
      pn_leaves = [leaf], pn_steps = [], pn_unk = replicate n 0\<rparr>"

definition leaf_made :: "int \<Rightarrow> eb_leaf" where
  "leaf_made rel_op = \<lparr>lf_vec = 0, lf_col = 0, lf_vec2 = - 1, lf_col2 = - 1, lf_etype = EB_NUM,
     lf_k_type = DB_TYPE_NUMERIC, lf_rel_op = uchar_of rel_op, lf_k_all = 0, lf_k_op = 0, lf_k_n = 0\<rparr>"

definition rows_batch :: "nat \<Rightarrow> eb_batch" where
  "rows_batch n = \<lparr>bt_n_rows = int n, bt_cap = int n, bt_sel = map int [0..<n], bt_n_sel = int n\<rparr>"

text \<open>\<open>leaf_constant\<close> and \<open>raw_kid\<close> are the engine's; \<open>out\<close> holds what the caller passed in.\<close>

definition unitseam_eb_num_leaf ::
    "(eb_leaf \<Rightarrow> 'd \<Rightarrow> int \<Rightarrow> int \<times> eb_leaf) \<Rightarrow> (eb_plan \<Rightarrow> eb_batch \<Rightarrow> eb_leaf \<Rightarrow> int \<times> eb_batch) \<Rightarrow>
     u128 list \<Rightarrow> u8 list option \<Rightarrow> int \<Rightarrow> int \<Rightarrow> 'd \<Rightarrow> int \<Rightarrow> num_leaf_out \<Rightarrow> int \<times> num_leaf_out" where
  "unitseam_eb_num_leaf leaf_constant raw_kid col_vals col_null n col_scale k rel_op out =
     (if n \<le> 0 \<or> n > 256 then (- 100, out)
      else (let plan0 = leaf_plan col_vals col_null (nat n) col_scale (leaf_made rel_op);
                (rc, leaf) = leaf_constant (leaf_made rel_op) k (vs_scale (pn_vsrc plan0 ! nat (lf_vec (leaf_made rel_op))));
                out1 = out\<lparr>nl_k_all := lf_k_all leaf, nl_k_op := lf_k_op leaf, nl_kn := lf_k_n leaf\<rparr>
            in if rc \<noteq> 0 then (rc, out1)
               else (let (rc2, batch) = raw_kid (plan0\<lparr>pn_leaves := [leaf]\<rparr>) (rows_batch (nat n)) leaf;
                         kept = fold (\<lambda>i f. f(i := bt_sel batch ! i)) [0..<nat (bt_n_sel batch)] (nl_kept out1)
                     in (rc2, out1\<lparr>nl_n_kept := bt_n_sel batch, nl_kept := kept\<rparr>))))"

section \<open>One step over a column and a scalar\<close>

definition step_plan :: "int \<Rightarrow> u64 list \<Rightarrow> nat \<Rightarrow> int \<Rightarrow> u128 \<Rightarrow> int \<Rightarrow> u128 list \<Rightarrow> eb_plan" where
  "step_plan op col n col_scale k k_scale junk =
     \<lparr>pn_vecs = [\<lparr>vc_data = Data64 (take n col), vc_isnull = replicate n 0, vc_kind = EB_VK_COL, vc_etype = EB_N64,
                  vc_dbtype = DB_TYPE_NUMERIC, vc_scale = short_of col_scale, vc_scales = None, vc_col = 0\<rparr>,
                 \<lparr>vc_data = Data128 [k], vc_isnull = [0], vc_kind = EB_VK_SCALAR, vc_etype = EB_NUM,
                  vc_dbtype = DB_TYPE_NUMERIC, vc_scale = short_of k_scale, vc_scales = None, vc_col = 0\<rparr>,
                 \<lparr>vc_data = Data128 junk, vc_isnull = replicate n 1, vc_kind = EB_VK_SLOT, vc_etype = EB_NUM,
                  vc_dbtype = DB_TYPE_NUMERIC, vc_scale = 0, vc_scales = Some (replicate 64 0), vc_col = 0\<rparr>],
      pn_vsrc = [\<lparr>vs_precision = 18, vs_scale = short_of col_scale\<rparr>, \<lparr>vs_precision = 0, vs_scale = 0\<rparr>,
                 \<lparr>vs_precision = 0, vs_scale = 0\<rparr>],
      pn_cols = [], pn_leaves = [],
      pn_steps = [\<lparr>sp_op = uchar_of op, sp_in1 = 0, sp_in2 = 1, sp_out = 2, sp_etype = EB_NUM,
                   sp_result_type = DB_TYPE_NUMERIC\<rparr>],
      pn_unk = []\<rparr>"

text \<open>
  \<open>run_steps\<close> leaves the plan with the slot vector filled; \<open>num_get\<close> and \<open>pack_dbv\<close> read one
  element. \<open>got\<close> and \<open>packed\<close> are the caller's arrays, \<open>junk\<close> the unset elements of the slot.
\<close>

definition unitseam_eb_num_step ::
    "(eb_plan \<Rightarrow> eb_batch \<Rightarrow> int \<times> eb_plan) \<Rightarrow> (eb_vec \<Rightarrow> nat \<Rightarrow> 'g) \<Rightarrow> (eb_plan \<Rightarrow> eb_vec \<Rightarrow> nat \<Rightarrow> 'p) \<Rightarrow> u128 list \<Rightarrow>
     int \<Rightarrow> u64 list \<Rightarrow> int \<Rightarrow> int \<Rightarrow> u128 \<Rightarrow> int \<Rightarrow> (nat \<Rightarrow> 'g) \<times> (nat \<Rightarrow> 'p) \<Rightarrow> int \<times> (nat \<Rightarrow> 'g) \<times> (nat \<Rightarrow> 'p)" where
  "unitseam_eb_num_step run_steps num_get pack_dbv junk op col n col_scale k k_scale out =
     (if n \<le> 0 \<or> n > 64 then (- 100, out)
      else (let (rc, plan) = run_steps (step_plan op col (nat n) col_scale k k_scale junk) (rows_batch (nat n))
            in if rc \<noteq> 0 then (rc, out)
               else (0, fold (\<lambda>i (got, packed). (got(i := num_get (pn_vecs plan ! 2) i),
                                                 packed(i := pack_dbv plan (pn_vecs plan ! 2) i))) [0..<nat n] out)))"

text \<open>The engine's operation codes, as the hooks hand them out.\<close>

definition unitseam_eb_op_add :: "int \<Rightarrow> int" where "unitseam_eb_op_add EB_OP_ADD = EB_OP_ADD"
definition unitseam_eb_op_mul :: "int \<Rightarrow> int" where "unitseam_eb_op_mul EB_OP_MUL = EB_OP_MUL"

section \<open>The reference of the leaf\<close>

text \<open>\<open>expr_numeric_cmp_const_ok\<close>: a constant of one of the integer types, NUMERIC or another type.\<close>

datatype const_type = C_SHORT | C_INTEGER | C_NUMERIC | C_BIGINT u64 | C_OTHER

definition expr_numeric_cmp_const_ok :: "const_type \<Rightarrow> bool" where
  "expr_numeric_cmp_const_ok k =
     (case k of C_SHORT \<Rightarrow> True | C_INTEGER \<Rightarrow> True | C_NUMERIC \<Rightarrow> True
      | C_BIGINT v \<Rightarrow> sint v < 1000000000000000 \<and> - 1000000000000000 < sint v
      | C_OTHER \<Rightarrow> False)"

text \<open>\<open>REL_OP\<close>, from 1 on; any other code compares as \<open>T_R_GE\<close>.\<close>

definition T_R_EQ :: int where "T_R_EQ = 1"
definition T_R_NE :: int where "T_R_NE = 2"
definition T_R_GT :: int where "T_R_GT = 3"
definition T_R_GE :: int where "T_R_GE = 4"
definition T_R_LT :: int where "T_R_LT = 5"
definition T_R_LE :: int where "T_R_LE = 6"

definition ref_keep :: "int \<Rightarrow> int \<Rightarrow> bool" where
  "ref_keep cmp op =
     (if op = T_R_EQ then cmp = 0 else if op = T_R_NE then cmp \<noteq> 0 else if op = T_R_LT then cmp < 0
      else if op = T_R_LE then cmp \<le> 0 else if op = T_R_GT then 0 < cmp else 0 \<le> cmp)"

lemma unat_div10: "unat (u div 10 :: u128) = unat u div 10"
  by (simp add: unat_div)

text \<open>
  The digits of an unsigned 128-bit number, last one first; \<open>(int) (u % 10)\<close> is below ten. At most
  39 turns: the word shrinks.
\<close>

function i128_digits :: "u128 \<Rightarrow> string \<Rightarrow> string" where
  "i128_digits u s =
     (let s1 = digit_char (uint (u mod 10)) # s; u1 = u div 10
      in if u1 \<noteq> 0 then i128_digits u1 s1 else s1)"
  by pat_completeness auto

termination
proof (relation "measure (\<lambda>(u, s). unat u)")
  fix u :: u128 and s s1 u1
  assume "s1 = digit_char (uint (u mod 10)) # s" "u1 = u div 10" "u1 \<noteq> 0"
  then have "unat u div 10 \<noteq> 0" by (metis unat_div10 unat_eq_zero)
  then have "unat u div 10 < unat u" by simp
  then show "((u1, s1), (u, s)) \<in> measure (\<lambda>(u, s). unat u)" using \<open>u1 = u div 10\<close> by (simp add: unat_div10)
qed simp

declare i128_digits.simps [simp del]

text \<open>\<open>-(v + 1)\<close> does not overflow, for any negative \<open>v\<close>.\<close>

definition i128_str :: "u128 \<Rightarrow> string" where
  "i128_str v =
     (let neg = sint v < 0;
          u = (if neg then - (v + 1) + 1 else v);
          s = i128_digits u []
      in if neg then ''-'' @ s else s)"

definition dec_str :: "u128 \<Rightarrow> int \<Rightarrow> string" where
  "dec_str c s =
     (let m = i128_str (if sint c < 0 then - c else c);
          m1 = (if 0 < s
                then (let p = replicate (nat (s + 1) - length m) (CHR ''0'') @ m
                      in take (length p - nat s) p @ ''.'' @ drop (length p - nat s) p)
                else m)
      in if sint c < 0 then ''-'' @ m1 else m1)"

definition E15 :: u128 where "E15 = 1000000000000000"
definition E37 :: u128 where "E37 = E15 * E15 * 10000000"

definition column_values :: "u128 list" where
  "column_values = [- E37, - (E15 - 1), - 2345, - 235, - 234, - 1, 0, 1, 5, 7, 234, 235, 2345, 2399, 2400, 2401, E15 - 1, E37]"

text \<open>
  \<open>parse\<close> is \<open>make_num\<close>, \<open>cmp\<close> the answer of \<open>numeric_db_value_compare\<close> (both required to succeed),
  \<open>leaf\<close> the hook with its two engine functions and cleared outputs. The count of differing rows and
  the text of the first one; \<open>None\<close>: the leaf declined.
\<close>

definition leaf_message :: "u128 \<Rightarrow> int \<Rightarrow> int \<Rightarrow> string \<Rightarrow> bool \<Rightarrow> bool \<Rightarrow> num_leaf_out \<Rightarrow> string" where
  "leaf_message c col_scale op k_str row batch out =
     ''col '' @ dec_str c col_scale @ '' op '' @ to_string op @ '' K '' @ k_str @ '': row path ''
       @ (if row then ''keeps'' else ''drops'') @ '', batch '' @ (if batch then ''keeps'' else ''drops'')
       @ '' (k_all '' @ to_string (nl_k_all out) @ '', k_op '' @ to_string (nl_k_op out) @ '', k.n ''
       @ i128_str (nl_kn out) @ '')''"

definition batch_kept :: "num_leaf_out \<Rightarrow> nat \<Rightarrow> bool list" where
  "batch_kept out n = fold (\<lambda>i keep. keep[nat (nl_kept out i) := True]) [0..<nat (nl_n_kept out)] (replicate n False)"

definition leaf_row ::
    "(string \<Rightarrow> 'd) \<Rightarrow> ('d \<Rightarrow> 'd \<Rightarrow> int) \<Rightarrow> string \<Rightarrow> int \<Rightarrow> int \<Rightarrow> num_leaf_out \<Rightarrow> u128 \<times> bool \<Rightarrow> nat \<times> string \<Rightarrow> nat \<times> string" where
  "leaf_row parse cmp k_str col_scale op out = (\<lambda>(c, keeps) (diff, first).
     (let row = ref_keep (cmp (parse (dec_str c col_scale)) (parse k_str)) op
      in if row \<noteq> keeps
         then (Suc diff, if diff = 0 then leaf_message c col_scale op k_str row keeps out else first)
         else (diff, first)))"

definition leaf_mismatches ::
    "(string \<Rightarrow> 'd) \<Rightarrow> ('d \<Rightarrow> 'd \<Rightarrow> int) \<Rightarrow>
     (u128 list \<Rightarrow> u8 list option \<Rightarrow> int \<Rightarrow> int \<Rightarrow> 'd \<Rightarrow> int \<Rightarrow> int \<times> num_leaf_out) \<Rightarrow>
     string \<Rightarrow> int \<Rightarrow> int \<Rightarrow> (nat \<times> string) option" where
  "leaf_mismatches parse cmp leaf k_str col_scale op =
     (let col = column_values; n = length col;
          (rc, out) = leaf col None (int n) col_scale (parse k_str) op
      in if rc \<noteq> 0 then None
         else Some (fold (leaf_row parse cmp k_str col_scale op out) (zip col (batch_kept out n)) (0, [])))"

interpretation leaf_diff: tally "leaf_row parse cmp k_str col_scale op out" fst
    "\<lambda>(c, keeps). ref_keep (cmp (parse (dec_str c col_scale)) (parse k_str)) op \<noteq> keeps" for parse cmp k_str col_scale op out
  by unfold_locales (auto simp: leaf_row_def Let_def split: prod.splits)

section \<open>The printing\<close>

lemma i128_digits_dec: "i128_digits u s = dec_of_nat (unat u) @ s"
proof (induction u s rule: i128_digits.induct)
  case (1 u s)
  have d: "uint (u mod 10) = int (unat u mod 10)" by (simp add: uint_mod unat_mod zmod_int)
  have z: "u div 10 \<noteq> 0 \<longleftrightarrow> 10 \<le> unat u"
    by (metis unat_div10 unat_eq_zero div_eq_0_iff not_less zero_neq_numeral)
  show ?case
  proof (cases "u div 10 = 0")
    case True
    then have "unat u < 10" using z by linarith
    then show ?thesis using True d by (simp add: i128_digits.simps [of u] dec_of_nat.simps [of "unat u"])
  next
    case False
    have "i128_digits u s = i128_digits (u div 10) (digit_char (uint (u mod 10)) # s)"
      using False by (simp add: i128_digits.simps [of u])
    also have "\<dots> = dec_of_nat (unat u div 10) @ digit_char (int (unat u mod 10)) # s"
      using 1 [OF refl refl False] by (simp add: unat_div10 d)
    finally show ?thesis using False z by (simp add: dec_of_nat.simps [of "unat u"])
  qed
qed

lemma neg_signed: "- (v :: u128) = word_of_int (- sint v)"
  by simp

lemma unat_neg_signed: "sint (v :: u128) < 0 \<Longrightarrow> unat (- v) = nat (- sint v)"
proof -
  assume neg: "sint v < 0"
  have b: "- (2 ^ 127) \<le> sint v" using sint_greater_eq [of v] by simp
  have "uint (- v) = - sint v mod 2 ^ LENGTH(128)" unfolding neg_signed by (rule uint_word_of_int)
  also have "\<dots> = - sint v" using neg b by (intro mod_pos_pos_trivial) (auto simp del: of_int_minus)
  finally have "uint (- v) = - sint v" .
  then show ?thesis by (metis unat_eq_nat_uint)
qed

lemma unat_signed: "0 \<le> sint (v :: u128) \<Longrightarrow> unat v = nat (sint v)"
proof -
  assume "0 \<le> sint v"
  then have "take_bit LENGTH(128) (sint v) = sint v"
    using sint_less [of v] by (intro take_bit_int_eq_self) simp_all
  then have "uint v = sint v" by (simp only: uint_sint)
  then show ?thesis by (simp only: unat_eq_nat_uint)
qed

text \<open>
  The 128-bit printer prints every value, the least one (whose negation overflows) included, as the
  usual decimal of the signed number.
\<close>

theorem i128_str_exact: "i128_str v = to_string (sint v)"
proof (cases "sint v < 0")
  case True
  have "- (v + 1) + 1 = - v" by simp
  then show ?thesis using True by (simp add: i128_str_def to_string_def i128_digits_dec unat_neg_signed)
next
  case False
  then show ?thesis by (simp add: i128_str_def to_string_def i128_digits_dec unat_signed)
qed

text \<open>The number a decimal string with an optional sign and an optional point denotes.\<close>

definition dec_mag :: "string \<Rightarrow> real" where
  "dec_mag m = (let ip = takeWhile (\<lambda>c. c \<noteq> CHR ''.'') m; fp = drop (Suc (length ip)) m
     in real (dec_num (ip @ fp)) / 10 ^ length fp)"

definition dec_value :: "string \<Rightarrow> real" where
  "dec_value s = (case s of c # t \<Rightarrow> (if c = CHR ''-'' then - dec_mag t else dec_mag s) | [] \<Rightarrow> 0)"

lemma is_digit_not: "\<not> is_digit (CHR ''.'')" "\<not> is_digit (CHR ''-'')"
  by (simp_all add: is_digit_def digit_def char_val_def)

lemma dec_no_point: "is_dec m \<Longrightarrow> takeWhile (\<lambda>c. c \<noteq> CHR ''.'') m = m"
  using is_digit_not(1) by (auto simp: is_dec_def list_all_iff)

lemma dec_mag_plain: "is_dec m \<Longrightarrow> dec_mag m = real (dec_num m)"
  by (simp add: dec_mag_def dec_no_point)

lemma dec_mag_point:
  assumes "is_dec m" "s < length m"
  shows "dec_mag (take (length m - s) m @ ''.'' @ drop (length m - s) m) = real (dec_num m) / 10 ^ s"
proof -
  have "takeWhile (\<lambda>c. c \<noteq> CHR ''.'') (take (length m - s) m @ ''.'' @ drop (length m - s) m) = take (length m - s) m"
    using dec_no_point [of "take (length m - s) m"] assms(1)
    by (subst takeWhile_append2) (auto simp: takeWhile_eq_all_conv)
  moreover have "dec_num (take (length m - s) m @ drop (length m - s) m) = dec_num m"
    by (simp only: append_take_drop_id)
  ultimately show ?thesis using assms(2) by (simp add: dec_mag_def Let_def del: dec_num_simps append_take_drop_id)
qed

text \<open>
  The column's strings denote the column's values: a coefficient \<open>c\<close> other than the least, at scale
  \<open>s\<close>, prints as a decimal whose number is \<open>c / 10^s\<close>.
\<close>

theorem dec_str_value:
  assumes "sint c \<noteq> - (2 ^ 127)" "0 \<le> s"
  shows "dec_value (dec_str c s) = of_int (sint c) / 10 ^ nat s"
proof -
  obtain a where a: "a = (if sint c < 0 then - c else c)" by blast
  have ab: "sint a = \<bar>sint c\<bar>"
  proof (cases "sint c < 0")
    case True
    have "- (2 ^ 127) < sint c" using assms(1) sint_greater_eq [of c] by simp
    then have "signed_take_bit 127 (- sint c) = - sint c" using True
      by (intro signed_take_bit_int_eq_self) simp_all
    moreover have "sint (- c) = signed_take_bit (LENGTH(128) - 1) (- sint c)"
      unfolding neg_signed by (rule sint_sbintrunc')
    ultimately have "sint (- c) = - sint c" by simp
    then show ?thesis using a True by simp
  qed (simp add: a)
  obtain m where m: "m = dec_of_nat (nat \<bar>sint c\<bar>)" by blast
  have str: "i128_str a = m" by (simp add: i128_str_exact to_string_def ab m)
  have num: "is_dec m" "dec_num m = nat \<bar>sint c\<bar>" "m \<noteq> []"
    using dec_of_nat_num [of "nat \<bar>sint c\<bar>"] by (auto simp: m canon_def)
  obtain p where p: "p = replicate (nat (s + 1) - length m) (CHR ''0'') @ m" by blast
  have pd: "is_dec p" "dec_num p = dec_num m" using num by (simp_all add: p)
  have len: "nat s < length p" using assms(2) by (simp add: p)
  obtain m1 where m1: "m1 = (if 0 < s then take (length p - nat s) p @ ''.'' @ drop (length p - nat s) p else m)" by blast
  have mag: "dec_mag m1 = real (nat \<bar>sint c\<bar>) / 10 ^ nat s"
    using dec_mag_point [OF pd(1) len] dec_mag_plain [OF num(1)] pd(2) num(2) assms(2) by (simp add: m1)
  have "m1 \<noteq> [] \<and> hd m1 \<noteq> CHR ''-''"
  proof (cases "0 < s")
    case True
    have "p \<noteq> []" "is_digit (hd p)" using num pd(1) by (auto simp: p is_dec_def list_all_iff hd_append)
    then show ?thesis using True len is_digit_not(2) by (cases p) (auto simp: m1 take_Cons')
  next
    case False
    then show ?thesis using num is_digit_not(2) by (cases m) (auto simp: m1 is_dec_def)
  qed
  then have "dec_value m1 = dec_mag m1" "dec_value (''-'' @ m1) = - dec_mag m1"
    by (auto simp: dec_value_def split: list.split)
  moreover have "dec_str c s = (if sint c < 0 then ''-'' @ m1 else m1)"
    by (simp add: dec_str_def flip: a) (simp add: str m1 p)
  moreover obtain z where z: "z = sint c" by blast
  ultimately show ?thesis using mag unfolding z [symmetric] by (cases "z < 0") simp_all
qed

theorem dec_str_value_witness: "dec_value (dec_str (- 5) 2) = - 0.05"
  using dec_str_value [of "- 5" 2] by simp

section \<open>What the leaf keeps\<close>

definition op_holds :: "int \<Rightarrow> real \<Rightarrow> real \<Rightarrow> bool" where
  "op_holds op x y =
     (if op = T_R_EQ then x = y else if op = T_R_NE then x \<noteq> y else if op = T_R_LT then x < y
      else if op = T_R_LE then x \<le> y else if op = T_R_GT then y < x else y \<le> x)"

lemma ref_keep_order: "ref_keep (if x < y then - 1 else if x = y then 0 else 1) op \<longleftrightarrow> op_holds op x y"
  by (simp add: ref_keep_def op_holds_def)

lemma length_column_values [simp]: "length column_values = 18"
  by (simp add: column_values_def)

lemma column_values_not_least: "\<forall>c \<in> set column_values. sint c \<noteq> - (2 ^ 127)"
  by (simp add: column_values_def E15_def E37_def)

lemma batch_kept_fold:
  assumes "\<forall>i < m. f i < length keep"
  shows "length (fold (\<lambda>i keep. keep[f i := True]) [0..<m] keep) = length keep \<and>
    (\<forall>r < length keep. fold (\<lambda>i keep. keep[f i := True]) [0..<m] keep ! r \<longleftrightarrow> keep ! r \<or> (\<exists>i < m. f i = r))"
  using assms
proof (induction m)
  case (Suc m)
  then show ?case by (auto simp: nth_list_update less_Suc_eq)
qed simp

lemma batch_kept_nth:
  assumes "\<forall>i < nat (nl_n_kept out). 0 \<le> nl_kept out i \<and> nl_kept out i < int n"
  shows "length (batch_kept out n) = n \<and>
    (\<forall>r < n. batch_kept out n ! r \<longleftrightarrow> (\<exists>i < nat (nl_n_kept out). nl_kept out i = int r))"
proof -
  have "\<forall>i < nat (nl_n_kept out). nat (nl_kept out i) < length (replicate n False)" using assms by auto
  from batch_kept_fold [OF this] show ?thesis
    unfolding batch_kept_def using assms by (auto simp: nat_eq_iff)
qed

text \<open>
  C13. The leaf's suite is a sound and complete reference: where the constant's and the column's strings
  are read as the numbers they denote and the comparison is the order of the numbers, the suite finds
  no differing row exactly when the leaf keeps, of the column's rows, those whose value
  \<open>c / 10^s\<close> stands in the operator's relation to the constant.
\<close>

theorem leaf_suite_exact:
  assumes read: "\<And>c. c \<in> set column_values \<Longrightarrow> val (parse (dec_str c col_scale)) = dec_value (dec_str c col_scale)"
    and order: "\<And>a b. cmp a b = (if val a < val b then - 1 else if val a = val b then 0 else 1)"
    and run: "leaf column_values None 18 col_scale (parse k_str) op = (0, out)"
    and rows: "\<forall>i < nat (nl_n_kept out). 0 \<le> nl_kept out i \<and> nl_kept out i < 18"
    and scale: "0 \<le> col_scale"
  shows "(\<exists>first. leaf_mismatches parse cmp leaf k_str col_scale op = Some (0, first)) \<longleftrightarrow>
    (\<forall>r < 18. (\<exists>i < nat (nl_n_kept out). nl_kept out i = int r) \<longleftrightarrow>
       op_holds op (of_int (sint (column_values ! r)) / 10 ^ nat col_scale) (val (parse k_str)))"
proof -
  obtain keeps where keeps: "keeps = batch_kept out 18" by blast
  have kept: "length keeps = 18" "\<forall>r < 18. keeps ! r \<longleftrightarrow> (\<exists>i < nat (nl_n_kept out). nl_kept out i = int r)"
    using batch_kept_nth [of out 18] rows unfolding keeps by simp_all
  obtain res where res: "res = fold (leaf_row parse cmp k_str col_scale op out) (zip column_values keeps) (0, [])" by blast
  have mm: "leaf_mismatches parse cmp leaf k_str col_scale op = Some res"
    using run by (simp add: leaf_mismatches_def Let_def res keeps)
  have row: "ref_keep (cmp (parse (dec_str c col_scale)) (parse k_str)) op \<longleftrightarrow>
      op_holds op (of_int (sint c) / 10 ^ nat col_scale) (val (parse k_str))" if "c \<in> set column_values" for c
  proof -
    have "sint c \<noteq> - (2 ^ 127)" using column_values_not_least that by blast
    then have "val (parse (dec_str c col_scale)) = of_int (sint c) / 10 ^ nat col_scale"
      unfolding read [OF that] using scale by (rule dec_str_value)
    then show ?thesis unfolding order by (simp only: ref_keep_order)
  qed
  have "fst res = 0 \<longleftrightarrow> (\<forall>(c, k) \<in> set (zip column_values keeps).
      ref_keep (cmp (parse (dec_str c col_scale)) (parse k_str)) op = k)"
    unfolding res leaf_diff.counter_zero by auto
  also have "\<dots> \<longleftrightarrow> (\<forall>r < 18. ref_keep (cmp (parse (dec_str (column_values ! r) col_scale)) (parse k_str)) op = keeps ! r)"
    unfolding set_zip using kept(1) by auto
  also have "\<dots> \<longleftrightarrow> (\<forall>r < 18. (\<exists>i < nat (nl_n_kept out). nl_kept out i = int r) \<longleftrightarrow>
       op_holds op (of_int (sint (column_values ! r)) / 10 ^ nat col_scale) (val (parse k_str)))"
    using kept(2) row by (metis length_column_values nth_mem)
  finally show ?thesis unfolding mm by (cases res) auto
qed

text \<open>A leaf that keeps the negative rows, for the constant 0 and the operator \<open><\<close>.\<close>

definition below_zero_leaf :: "u128 list \<Rightarrow> u8 list option \<Rightarrow> int \<Rightarrow> int \<Rightarrow> real \<Rightarrow> int \<Rightarrow> int \<times> num_leaf_out" where
  "below_zero_leaf col col_null n col_scale k op =
     unitseam_eb_num_leaf (\<lambda>leaf k s. (0, leaf)) (\<lambda>plan b leaf. (0, b\<lparr>bt_sel := [0, 1, 2, 3, 4, 5], bt_n_sel := 6\<rparr>))
       col col_null n col_scale k op \<lparr>nl_kept = (\<lambda>_. 0), nl_n_kept = 0, nl_k_all = 0, nl_k_op = 0, nl_kn = 0\<rparr>"

lemma below_zero_kept:
  "\<exists>out. below_zero_leaf column_values None 18 2 0 T_R_LT = (0, out) \<and> nl_n_kept out = 6 \<and> (\<forall>i < 6. nl_kept out i = int i)"
  by (simp add: below_zero_leaf_def unitseam_eb_num_leaf_def Let_def rows_batch_def upt_rec eval_nat_numeral All_less_Suc)

theorem leaf_suite_exact_witness:
  "\<exists>first. leaf_mismatches dec_value (\<lambda>a b. if a < b then - 1 else if a = b then 0 else 1) below_zero_leaf ''0'' 2 T_R_LT = Some (0, first)"
proof -
  obtain out where out: "below_zero_leaf column_values None 18 2 0 T_R_LT = (0, out)" "nl_n_kept out = 6"
    "\<forall>i < 6. nl_kept out i = int i" using below_zero_kept by blast
  have zero: "dec_value ''0'' = 0" by (simp add: dec_value_def dec_mag_def)
  have rows: "\<forall>r < 18. op_holds T_R_LT (of_int (sint (column_values ! r)) / 10 ^ nat 2) 0 \<longleftrightarrow> r < 6"
    by (simp add: All_less_Suc eval_nat_numeral op_holds_def T_R_EQ_def T_R_NE_def T_R_LT_def column_values_def E15_def E37_def)
  have kept: "(\<exists>i < nat (nl_n_kept out). nl_kept out i = int r) \<longleftrightarrow> r < 6" for r
    using out(2,3) by auto
  have "\<forall>i < nat (nl_n_kept out). 0 \<le> nl_kept out i \<and> nl_kept out i < 18" using out(2,3) by simp
  moreover have "below_zero_leaf column_values None 18 2 (dec_value ''0'') T_R_LT = (0, out)" using out(1) zero by simp
  ultimately show ?thesis
    using leaf_suite_exact [where val = "\<lambda>x. x" and parse = dec_value and leaf = below_zero_leaf and col_scale = 2
        and k_str = "''0''" and op = T_R_LT and out = out and cmp = "\<lambda>a b. if a < b then - 1 else if a = b then 0 else 1"]
      rows kept zero by simp
qed

end
