(* ===== verification/HashMerge.thy ===== *)
theory HashMerge
  imports Prelude Complex_Main
begin

text \<open>
  The hash merge suite, \<open>src/unit/query/k_query_executor.hash_merge_errors\<close>: the fakes of
  \<open>test.cpp\<close> (list ids handed out and taken back, scans over numbered tuples, the key hash) and the
  scenarios of \<open>hooks.cpp\<close> over the hand-built GROUP BY state. The engine's functions are
  parameters: a run of one is a sequence of calls of the fakes with the engine's own writes between.
\<close>

section \<open>The state\<close>

text \<open>A list id is one of the two static ones or an allocated one.\<close>

datatype list_ref = K_rows | K_partials | Heap_list nat
datatype scan_code = S_SUCCESS | S_END | S_ERROR

record qfile_list =
  ql_tuple_cnt :: int
  ql_page_cnt :: int
  ql_type_cnt :: int
  ql_hdr_backward :: bool
  ql_query_id :: int

definition list_zero :: qfile_list where
  "list_zero = \<lparr>ql_tuple_cnt = 0, ql_page_cnt = 0, ql_type_cnt = 0, ql_hdr_backward = False, ql_query_id = 0\<rparr>"

text \<open>The static objects the hooks fill, by name.\<close>

datatype k_obj = K_ctx | K_xs | K_xasl | K_dim | K_key | K_pkey | K_pval | K_key_vals | K_pkey_vals | K_dummy_table
datatype xasl_type = XASL_ZERO | BUILDLIST_PROC
datatype hash_state = HS_ZERO | HS_ACCEPT_ALL

record k_groupby =
  gb_xasl :: "k_obj option"
  gb_xasl_state :: "k_obj option"
  gb_agg_hash_context :: "k_obj option"
  gb_g_dim :: "k_obj option"
  gb_g_dim_levels :: int
  gb_hash_eligible :: int

record k_hash_context =
  cx_hash_table :: "k_obj option"
  cx_part_list_id :: "list_ref option"
  cx_temp_key :: "k_obj option"
  cx_temp_part_key :: "k_obj option"
  cx_temp_part_value :: "k_obj option"
  cx_state :: hash_state
  cx_key_sketch_partial :: bool

record k_statics =
  st_gb :: k_groupby
  st_ctx :: k_hash_context
  st_xs_query_id :: int
  st_xasl_type :: xasl_type
  st_xasl_distinct :: bool
  st_g_hkey_size :: int
  st_g_func_count :: int
  st_key_values :: "k_obj option"
  st_pkey_values :: "k_obj option"

text \<open>
  The fakes' state: the live list ids and the counters, the scan's settings and the running number of
  the fake tuples. \<open>k_groups\<close> is a \<open>double\<close>, a rational here.
\<close>

record k_world =
  kw_statics :: k_statics
  kw_lists :: "list_ref \<Rightarrow> qfile_list"
  kw_live :: "list_ref set"
  kw_opened :: int
  kw_open_fail_at :: int
  kw_errid :: int
  kw_add_fail_at :: int
  kw_add_calls :: int
  kw_scan_end :: scan_code
  kw_scan_limit :: int
  kw_ordinal :: int
  kw_cur_ordinal :: int
  kw_groups :: rat

section \<open>The fakes\<close>

text \<open>The error ids the suite names, in the order of the engine's values: parameters of the fakes.\<close>

record k_errors =
  ke_no_error :: int
  ke_failed :: int
  ke_out_of_memory :: int
  ke_interrupted :: int

definition k_er_set :: "int \<Rightarrow> k_world \<Rightarrow> k_world" where "k_er_set err_id w = w\<lparr>kw_errid := err_id\<rparr>"
definition k_er_errid :: "k_world \<Rightarrow> int" where "k_er_errid w = kw_errid w"
definition k_er_clear :: "k_errors \<Rightarrow> k_world \<Rightarrow> k_world" where "k_er_clear en w = w\<lparr>kw_errid := ke_no_error en\<rparr>"

definition k_live_count :: "k_world \<Rightarrow> int" where "k_live_count w = int (card (kw_live w))"

definition k_live_reset :: "k_errors \<Rightarrow> k_world \<Rightarrow> k_world" where
  "k_live_reset en w = w\<lparr>kw_live := {}, kw_opened := 0, kw_open_fail_at := 0, kw_errid := ke_no_error en\<rparr>"

definition k_is_live :: "list_ref option \<Rightarrow> k_world \<Rightarrow> int" where
  "k_is_live l w = (case l of None \<Rightarrow> 0 | Some p \<Rightarrow> if p \<in> kw_live w then 1 else 0)"

text \<open>\<open>fresh\<close> is the allocator: the address it picks when some are in use.\<close>

definition qfile_open_list ::
    "k_errors \<Rightarrow> (list_ref set \<Rightarrow> nat) \<Rightarrow> int \<Rightarrow> int \<Rightarrow> bool \<Rightarrow> k_world \<Rightarrow> list_ref option \<times> k_world" where
  "qfile_open_list en fresh type_cnt query_id backward w =
     (if 0 < kw_open_fail_at w \<and> kw_opened w + 1 = kw_open_fail_at w
      then (None, w\<lparr>kw_opened := kw_opened w + 1, kw_errid := ke_out_of_memory en\<rparr>)
      else (let l = Heap_list (fresh (kw_live w))
            in (Some l, w\<lparr>kw_lists := (kw_lists w)(l := list_zero\<lparr>ql_type_cnt := type_cnt, ql_hdr_backward := backward,
                                         ql_query_id := query_id\<rparr>),
                          kw_live := insert l (kw_live w), kw_opened := kw_opened w + 1\<rparr>)))"

definition qfile_free_list_id :: "list_ref \<Rightarrow> k_world \<Rightarrow> k_world" where
  "qfile_free_list_id l w = w\<lparr>kw_live := kw_live w - {l}\<rparr>"

definition qfile_copy_list_id :: "list_ref \<Rightarrow> list_ref \<Rightarrow> k_world \<Rightarrow> k_world" where
  "qfile_copy_list_id dest src w = w\<lparr>kw_lists := (kw_lists w)(dest := kw_lists w src)\<rparr>"

definition count_tuple :: "list_ref \<Rightarrow> k_world \<Rightarrow> k_world" where
  "count_tuple l w = w\<lparr>kw_lists := (kw_lists w)(l := (kw_lists w l)\<lparr>ql_tuple_cnt := ql_tuple_cnt (kw_lists w l) + 1\<rparr>)\<rparr>"

definition qfile_add_tuple_to_list :: "k_errors \<Rightarrow> list_ref \<Rightarrow> k_world \<Rightarrow> int \<times> k_world" where
  "qfile_add_tuple_to_list en l w =
     (let w1 = w\<lparr>kw_add_calls := kw_add_calls w + 1\<rparr>
      in if 0 < kw_add_fail_at w1 \<and> kw_add_calls w1 = kw_add_fail_at w1
         then (ke_failed en, w1\<lparr>kw_errid := ke_interrupted en\<rparr>)
         else (ke_no_error en, count_tuple l w1))"

definition qdata_save_agg_hentry_to_list :: "k_errors \<Rightarrow> list_ref \<Rightarrow> k_world \<Rightarrow> int \<times> k_world" where
  "qdata_save_agg_hentry_to_list en l w = (ke_no_error en, count_tuple l w)"

record k_scan =
  sn_tuple_cnt :: int
  sn_curr_tplno :: int

definition qfile_open_list_scan :: "list_ref \<Rightarrow> k_world \<Rightarrow> k_scan" where
  "qfile_open_list_scan l w = \<lparr>sn_tuple_cnt = ql_tuple_cnt (kw_lists w l), sn_curr_tplno = 0\<rparr>"

definition qfile_scan_list_next :: "k_scan \<Rightarrow> k_world \<Rightarrow> scan_code \<times> k_scan \<times> k_world" where
  "qfile_scan_list_next s w =
     (if (0 \<le> kw_scan_limit w \<and> kw_scan_limit w \<le> sn_curr_tplno s) \<or> sn_tuple_cnt s \<le> sn_curr_tplno s
      then (kw_scan_end w, s, w)
      else (S_SUCCESS, s\<lparr>sn_curr_tplno := sn_curr_tplno s + 1\<rparr>,
            w\<lparr>kw_cur_ordinal := kw_ordinal w, kw_ordinal := kw_ordinal w + 1\<rparr>))"

text \<open>\<open>(long) (k_groups > 1 ? k_groups : 1)\<close>: the fraction is cut off.\<close>

definition k_group_count :: "rat \<Rightarrow> int" where
  "k_group_count groups = \<lfloor>if 1 < groups then groups else 1\<rfloor>"

definition qdata_hash_agg_hkey :: "k_world \<Rightarrow> u32" where
  "qdata_hash_agg_hkey w =
     (let g = word_of_int (kw_cur_ordinal w mod k_group_count (kw_groups w)) :: u32
      in g * 2654435761 + 0x9e3779b9)"

definition qdata_key_sketch_estimate :: "k_world \<Rightarrow> rat" where
  "qdata_key_sketch_estimate w = kw_groups w"

section \<open>The hooks\<close>

text \<open>The thread entry, zeroed on each use.\<close>

definition k_thread :: "nat \<Rightarrow> u8 list" where "k_thread n = replicate n 0"

definition k_setup :: "int \<Rightarrow> int \<Rightarrow> k_world \<Rightarrow> k_world" where
  "k_setup rows pages w =
     w\<lparr>kw_statics := \<lparr>st_gb = \<lparr>gb_xasl = Some K_xasl, gb_xasl_state = Some K_xs, gb_agg_hash_context = Some K_ctx,
                        gb_g_dim = Some K_dim, gb_g_dim_levels = 1, gb_hash_eligible = 1\<rparr>,
                     st_ctx = \<lparr>cx_hash_table = Some K_dummy_table, cx_part_list_id = Some K_partials,
                        cx_temp_key = Some K_key, cx_temp_part_key = Some K_pkey, cx_temp_part_value = Some K_pval,
                        cx_state = HS_ACCEPT_ALL, cx_key_sketch_partial = False\<rparr>,
                     st_xs_query_id = 1, st_xasl_type = BUILDLIST_PROC, st_xasl_distinct = False,
                     st_g_hkey_size = 1, st_g_func_count = 0, st_key_values = Some K_key_vals,
                     st_pkey_values = Some K_pkey_vals\<rparr>,
       kw_lists := (kw_lists w)(K_rows := list_zero\<lparr>ql_tuple_cnt := rows, ql_page_cnt := pages, ql_type_cnt := 2, ql_query_id := 1\<rparr>,
                                K_partials := list_zero\<lparr>ql_tuple_cnt := 0, ql_type_cnt := 5, ql_query_id := 1\<rparr>)\<rparr>"

text \<open>\<open>sample\<close> is \<open>qexec_gby_merge_sample_groups\<close> over \<open>k_rows\<close>: its code and the count it writes.\<close>

definition k_sample_scenario ::
    "(rat \<Rightarrow> k_world \<Rightarrow> int \<times> rat \<times> k_world) \<Rightarrow> int \<Rightarrow> scan_code \<Rightarrow> k_world \<Rightarrow> (int \<times> rat) \<times> k_world" where
  "k_sample_scenario sample rows end_code w =
     (let w1 = (k_setup 1000000 10000 w)\<lparr>kw_scan_end := end_code, kw_scan_limit := rows\<rparr>;
          (rc, groups, w2) = sample (- 1) w1
      in ((rc, groups), w2\<lparr>kw_scan_limit := - 1\<rparr>))"

record merge_report =
  mr_rc :: int
  mr_result :: int
  mr_opened :: int
  mr_live :: int
  mr_part_list_live :: int

text \<open>\<open>merge\<close> is \<open>qexec_gby_hash_merge\<close>, \<open>none\<close> the value of \<open>QEXEC_GBY_MERGE_NONE\<close>.\<close>

definition k_hash_merge_scenario ::
    "k_errors \<Rightarrow> int \<Rightarrow> (int \<Rightarrow> k_world \<Rightarrow> int \<times> int \<times> k_world) \<Rightarrow> int \<Rightarrow> int \<Rightarrow> rat \<Rightarrow> int \<Rightarrow> k_world \<Rightarrow>
     merge_report \<times> k_world" where
  "k_hash_merge_scenario en none merge rows pages groups add_fail_at w =
     (let w1 = (k_live_reset en (k_setup rows pages w))\<lparr>kw_groups := groups, kw_add_fail_at := add_fail_at,
                 kw_add_calls := 0, kw_scan_end := S_END, kw_scan_limit := - 1\<rparr>;
          (rc, r, w2) = merge none w1
      in (\<lparr>mr_rc = rc, mr_result = r, mr_opened = kw_opened w2, mr_live = k_live_count w2,
           mr_part_list_live = k_is_live (cx_part_list_id (st_ctx (kw_statics w2))) w2\<rparr>, w2))"

text \<open>\<open>open_parts\<close> answers its code and the two arrays, which \<open>free_parts\<close> takes.\<close>

definition k_open_parts_scenario ::
    "k_errors \<Rightarrow> (nat \<Rightarrow> k_world \<Rightarrow> int \<times> 'a \<times> k_world) \<Rightarrow> (nat \<Rightarrow> 'a \<Rightarrow> k_world \<Rightarrow> k_world) \<Rightarrow> nat \<Rightarrow> k_world \<Rightarrow>
     (int \<times> int \<times> int) \<times> k_world" where
  "k_open_parts_scenario en open_parts free_parts n w =
     (let fail_at = kw_open_fail_at w;
          w1 = (k_live_reset en (k_setup 100 1 w))\<lparr>kw_open_fail_at := fail_at\<rparr>;
          (rc, parts, w2) = open_parts n w1;
          w3 = free_parts n parts w2
      in ((rc, kw_opened w2, k_live_count w3), w3))"

section \<open>Runs of the engine\<close>

text \<open>A call the ledger of list ids can see, and any other step.\<close>

datatype k_event = Opened "list_ref option" | Freed list_ref | Other_step

inductive k_step :: "k_errors \<Rightarrow> (list_ref set \<Rightarrow> nat) \<Rightarrow> k_event \<Rightarrow> k_world \<Rightarrow> k_world \<Rightarrow> bool"
    for en :: k_errors and fresh :: "list_ref set \<Rightarrow> nat" where
  k_open: "qfile_open_list en fresh type_cnt query_id backward w = (l, w') \<Longrightarrow> k_step en fresh (Opened l) w w'"
| k_free: "k_step en fresh (Freed l) w (qfile_free_list_id l w)"
| k_add: "qfile_add_tuple_to_list en l w = (rc, w') \<Longrightarrow> k_step en fresh Other_step w w'"
| k_save: "qdata_save_agg_hentry_to_list en l w = (rc, w') \<Longrightarrow> k_step en fresh Other_step w w'"
| k_copy: "k_step en fresh Other_step w (qfile_copy_list_id dest src w)"
| k_next: "qfile_scan_list_next s w = (code, s', w') \<Longrightarrow> k_step en fresh Other_step w w'"
| k_error: "k_step en fresh Other_step w (k_er_set err_id w)"
| k_own: "k_step en fresh Other_step w (w\<lparr>kw_statics := st, kw_lists := ls\<rparr>)"

inductive k_run :: "k_errors \<Rightarrow> (list_ref set \<Rightarrow> nat) \<Rightarrow> k_event list \<Rightarrow> k_world \<Rightarrow> k_world \<Rightarrow> bool"
    for en :: k_errors and fresh :: "list_ref set \<Rightarrow> nat" where
  k_none: "k_run en fresh [] w w"
| k_more: "k_run en fresh evs w w' \<Longrightarrow> k_step en fresh ev w' w'' \<Longrightarrow> k_run en fresh (evs @ [ev]) w w''"

section \<open>The keys of a scan\<close>

text \<open>The multiplier is odd, so the spread loses nothing: 244002641 is its inverse.\<close>

lemma spread_inj: "(a :: u32) * 2654435761 + 0x9e3779b9 = b * 2654435761 + 0x9e3779b9 \<longleftrightarrow> a = b"
proof
  assume "a * 2654435761 + 0x9e3779b9 = b * 2654435761 + 0x9e3779b9"
  then have "a * 2654435761 * 244002641 = b * 2654435761 * 244002641" by simp
  then have "a * (2654435761 * 244002641) = b * (2654435761 * 244002641)" by (simp only: mult.assoc)
  moreover have "(2654435761 * 244002641 :: u32) = 1" by simp
  ultimately show "a = b" by (simp only: mult_1_right)
qed simp

lemma word_of_int_inj: "0 \<le> x \<Longrightarrow> x < 2 ^ 32 \<Longrightarrow> 0 \<le> y \<Longrightarrow> y < 2 ^ 32 \<Longrightarrow> (word_of_int x :: u32) = word_of_int y \<longleftrightarrow> x = y"
proof
  assume b: "0 \<le> x" "x < 2 ^ 32" "0 \<le> y" "y < 2 ^ 32" and eq: "(word_of_int x :: u32) = word_of_int y"
  have "uint (word_of_int x :: u32) = x mod 2 ^ LENGTH(32)" "uint (word_of_int y :: u32) = y mod 2 ^ LENGTH(32)"
    by (rule uint_word_of_int)+
  then have "x mod 2 ^ 32 = y mod 2 ^ 32" using eq by simp
  then show "x = y" using b by (simp only: mod_pos_pos_trivial)
qed simp

lemma k_group_count_pos: "1 \<le> k_group_count groups"
  by (simp add: k_group_count_def)

definition key_hash :: "int \<Rightarrow> u32" where
  "key_hash r = word_of_int r * 2654435761 + 0x9e3779b9"

lemma qdata_hash_key: "qdata_hash_agg_hkey w = key_hash (kw_cur_ordinal w mod k_group_count (kw_groups w))"
  by (simp add: qdata_hash_agg_hkey_def key_hash_def Let_def)

lemma key_hash_inj: "0 \<le> x \<Longrightarrow> x < 2 ^ 32 \<Longrightarrow> 0 \<le> y \<Longrightarrow> y < 2 ^ 32 \<Longrightarrow> key_hash x = key_hash y \<longleftrightarrow> x = y"
  unfolding key_hash_def spread_inj by (rule word_of_int_inj)

text \<open>Consecutive numbers meet \<open>min m c\<close> residues.\<close>

lemma card_residues:
  fixes c :: nat
  assumes "0 < c"
  shows "card ((\<lambda>k. (b + k) mod c) ` {..<m}) = min m c"
proof -
  have "(\<lambda>k. (b + k) mod c) ` {..<m} = (\<lambda>k. (b + k) mod c) ` {..<min m c}"
  proof (intro equalityI subsetI)
    fix x assume "x \<in> (\<lambda>k. (b + k) mod c) ` {..<m}"
    then obtain k where k: "k < m" "x = (b + k) mod c" by blast
    have "k mod c < min m c" using k(1) assms by (meson le_less_trans min_less_iff_conj mod_less_divisor mod_less_eq_dividend)
    moreover have "x = (b + k mod c) mod c" using k(2) by (simp add: mod_add_right_eq)
    ultimately show "x \<in> (\<lambda>k. (b + k) mod c) ` {..<min m c}" by blast
  qed auto
  moreover have "inj_on (\<lambda>k. (b + k) mod c) {..<min m c}"
  proof (rule linorder_inj_onI)
    fix x y assume xy: "x < y" "x \<in> {..<min m c}" "y \<in> {..<min m c}"
    show "(b + x) mod c \<noteq> (b + y) mod c"
    proof
      assume "(b + x) mod c = (b + y) mod c"
      then have "c dvd (b + y) - (b + x)" using xy(1) by (intro mod_eq_dvd_iff_nat [THEN iffD1]) auto
      then have "c dvd y - x" by simp
      moreover have "0 < y - x" "y - x < c" using xy by auto
      ultimately show False by (auto dest: dvd_imp_le)
    qed
  qed auto
  ultimately show ?thesis by (simp add: card_image)
qed

text \<open>What a reader of the scan meets: the hash of every row and the code that ends it.\<close>

definition k_get :: "k_scan \<times> k_world \<times> scan_code \<Rightarrow> u32 option \<times> (k_scan \<times> k_world \<times> scan_code)" where
  "k_get = (\<lambda>(s, w, c). (case qfile_scan_list_next s w of (code, s1, w1) \<Rightarrow>
     (if code = S_SUCCESS then Some (qdata_hash_agg_hkey w1) else None, (s1, w1, code))))"

definition k_scan_rows :: "nat \<Rightarrow> k_scan \<Rightarrow> k_world \<Rightarrow> (u32 list \<times> scan_code) option" where
  "k_scan_rows fuel s w = map_option (\<lambda>(hs, s, w, code). (hs, code)) (drain (one_by_one k_get) fuel (s, w, S_SUCCESS))"

definition scan_length :: "k_scan \<Rightarrow> k_world \<Rightarrow> nat" where
  "scan_length s w = nat ((if 0 \<le> kw_scan_limit w then min (kw_scan_limit w) (sn_tuple_cnt s) else sn_tuple_cnt s) - sn_curr_tplno s)"

definition k_rows_left :: "k_scan \<times> k_world \<times> scan_code \<Rightarrow> u32 list" where
  "k_rows_left = (\<lambda>(s, w, c).
     map (\<lambda>k. key_hash ((kw_ordinal w + int k) mod k_group_count (kw_groups w))) [0..<scan_length s w])"

definition k_readable :: "scan_code \<Rightarrow> k_scan \<times> k_world \<times> scan_code \<Rightarrow> bool" where
  "k_readable e = (\<lambda>(s, w, c). kw_scan_end w = e \<and> e \<noteq> S_SUCCESS)"

definition k_finished :: "scan_code \<Rightarrow> k_scan \<times> k_world \<times> scan_code \<Rightarrow> bool" where
  "k_finished e = (\<lambda>(s, w, c). c = e)"

interpretation k_rows: cursor k_get k_rows_left "k_readable e" "k_finished e" for e
proof
  fix st x st'
  assume "k_readable e st"
  note r = this [unfolded k_readable_def]
  obtain s w c where st: "st = (s, w, c)" by (cases st) auto
  {
    assume g: "k_get st = (Some x, st')"
    obtain m where m: "scan_length s w = Suc m"
    proof (cases "scan_length s w")
      case 0
      then have "qfile_scan_list_next s w = (kw_scan_end w, s, w)"
        by (auto simp: scan_length_def qfile_scan_list_next_def split: if_splits)
      then show ?thesis using g r by (simp add: st k_get_def)
    qed
    obtain s1 w1 where s1: "s1 = s\<lparr>sn_curr_tplno := sn_curr_tplno s + 1\<rparr>"
      and w1: "w1 = w\<lparr>kw_cur_ordinal := kw_ordinal w, kw_ordinal := kw_ordinal w + 1\<rparr>" by blast
    have "qfile_scan_list_next s w = (S_SUCCESS, s1, w1)"
      using m by (auto simp: scan_length_def qfile_scan_list_next_def s1 w1 split: if_splits)
    then have e: "x = qdata_hash_agg_hkey w1" "st' = (s1, w1, S_SUCCESS)" using g by (auto simp: st k_get_def)
    define bound where "bound = (if 0 \<le> kw_scan_limit w then min (kw_scan_limit w) (sn_tuple_cnt s) else sn_tuple_cnt s)"
    have "scan_length s w = nat (bound - sn_curr_tplno s)" "scan_length s1 w1 = nat (bound - (sn_curr_tplno s + 1))"
      by (simp_all add: scan_length_def bound_def s1 w1)
    then have "scan_length s1 w1 = m" using m by linarith
    moreover have "[0..<Suc m] = 0 # map Suc [0..<m]" by (simp add: upt_conv_Cons map_Suc_upt)
    ultimately show "k_rows_left st = x # k_rows_left st' \<and> k_readable e st'"
      using r m by (simp add: st e k_readable_def k_rows_left_def qdata_hash_key w1 add.assoc comp_def del: upt_Suc)
  }
  {
    assume g: "k_get st = (None, st')"
    then have "qfile_scan_list_next s w = (kw_scan_end w, s, w)" "scan_length s w = 0"
      by (auto simp: st k_get_def qfile_scan_list_next_def scan_length_def split: if_splits)
    then show "k_rows_left st = [] \<and> k_finished e st'"
      using r g by (auto simp: st k_get_def k_rows_left_def k_finished_def)
  }
qed

lemma k_scan_rows_list:
  assumes "kw_scan_end w \<noteq> S_SUCCESS" "scan_length s w < fuel"
  shows "k_scan_rows fuel s w =
    Some (map (\<lambda>k. key_hash ((kw_ordinal w + int k) mod k_group_count (kw_groups w))) [0..<scan_length s w], kw_scan_end w)"
proof -
  have "length (k_rows_left (s, w, S_SUCCESS)) < fuel" using assms(2) by (simp add: k_rows_left_def)
  moreover have "k_readable (kw_scan_end w) (s, w, S_SUCCESS)" using assms(1) by (simp add: k_readable_def)
  ultimately obtain t where "drain (one_by_one k_get) fuel (s, w, S_SUCCESS) = Some (k_rows_left (s, w, S_SUCCESS), t)"
    "k_finished (kw_scan_end w) t" using k_rows.drain_left by blast
  then show ?thesis by (cases t) (simp add: k_scan_rows_def k_rows_left_def k_finished_def)
qed

text \<open>
  The fake scan always ends, with the code set for it, after as many rows as the list and the limit
  allow, and the fake hash tells the keys apart: of \<open>m\<close> rows over \<open>c\<close> groups (up to \<open>2^32\<close>) a reader
  meets exactly \<open>min m c\<close> hashes, wherever the running number stands. This is the count a right sample
  of the scan has to find.
\<close>

theorem scan_meets_keys:
  assumes "kw_scan_end w \<noteq> S_SUCCESS" "scan_length s w < fuel" "0 \<le> kw_ordinal w" "k_group_count (kw_groups w) \<le> 2 ^ 32"
  shows "\<exists>hs. k_scan_rows fuel s w = Some (hs, kw_scan_end w) \<and> length hs = scan_length s w \<and>
    card (set hs) = min (scan_length s w) (nat (k_group_count (kw_groups w)))"
proof -
  obtain c b where c: "k_group_count (kw_groups w) = int c" "0 < c" and b: "kw_ordinal w = int b"
    using k_group_count_pos [of "kw_groups w"] assms(3) by (metis zero_less_imp_eq_int nonneg_int_cases zero_less_one order_less_le_trans)
  obtain m where m: "m = scan_length s w" by blast
  let ?r = "\<lambda>k. (b + k) mod c"
  have bound: "int (?r k) < 2 ^ 32" for k
  proof -
    have "?r k < c" using c(2) by simp
    also have "int c \<le> 2 ^ 32" using assms(4) c(1) by simp
    finally show ?thesis by simp
  qed
  have "set (map (\<lambda>k. key_hash ((kw_ordinal w + int k) mod k_group_count (kw_groups w))) [0..<m]) =
      (\<lambda>r. key_hash (int r)) ` (?r ` {..<m})"
    by (simp add: b c zmod_int image_image lessThan_atLeast0)
  moreover have "inj_on (\<lambda>r. key_hash (int r)) (?r ` {..<m})"
    by (rule inj_onI) (use bound key_hash_inj in auto)
  ultimately have "card (set (map (\<lambda>k. key_hash ((kw_ordinal w + int k) mod k_group_count (kw_groups w))) [0..<m])) = min m c"
    by (simp add: card_image card_residues [OF c(2)])
  then show ?thesis using k_scan_rows_list [OF assms(1,2)] c m by auto
qed

section \<open>The ledger of list ids\<close>

text \<open>A list is left when it was opened and no free of it follows.\<close>

definition left_open :: "k_event list \<Rightarrow> list_ref \<Rightarrow> bool" where
  "left_open evs l \<longleftrightarrow> (\<exists>i < length evs. evs ! i = Opened (Some l) \<and> (\<forall>j. i < j \<and> j < length evs \<longrightarrow> evs ! j \<noteq> Freed l))"

lemma left_open_Nil: "\<not> left_open [] l"
  by (simp add: left_open_def)

lemma left_open_snoc: "left_open (evs @ [ev]) l \<longleftrightarrow> ev = Opened (Some l) \<or> (left_open evs l \<and> ev \<noteq> Freed l)"
proof
  assume "left_open (evs @ [ev]) l"
  then obtain i where i: "i < Suc (length evs)" "(evs @ [ev]) ! i = Opened (Some l)"
    "\<And>j. i < j \<Longrightarrow> j < Suc (length evs) \<Longrightarrow> (evs @ [ev]) ! j \<noteq> Freed l" by (auto simp: left_open_def)
  show "ev = Opened (Some l) \<or> (left_open evs l \<and> ev \<noteq> Freed l)"
  proof (cases "i = length evs")
    case True
    then show ?thesis using i(2) by simp
  next
    case False
    then have lt: "i < length evs" using i(1) by simp
    have "evs ! j \<noteq> Freed l" if "i < j" "j < length evs" for j
      using i(3) [OF that(1)] that(2) by (simp add: nth_append)
    moreover have "ev \<noteq> Freed l" using i(3) [OF lt] by simp
    moreover have "evs ! i = Opened (Some l)" using i(2) lt by (simp add: nth_append)
    ultimately show ?thesis using lt unfolding left_open_def by blast
  qed
next
  assume r: "ev = Opened (Some l) \<or> (left_open evs l \<and> ev \<noteq> Freed l)"
  show "left_open (evs @ [ev]) l"
  proof (cases "ev = Opened (Some l)")
    case True
    then show ?thesis unfolding left_open_def by (intro exI [of _ "length evs"]) auto
  next
    case False
    then obtain i where i: "i < length evs" "evs ! i = Opened (Some l)"
      "\<And>j. i < j \<Longrightarrow> j < length evs \<Longrightarrow> evs ! j \<noteq> Freed l" and ev: "ev \<noteq> Freed l"
      using r by (auto simp: left_open_def)
    have "(evs @ [ev]) ! j \<noteq> Freed l" if "i < j" "j < length (evs @ [ev])" for j
      using i(3) [OF that(1)] that(2) ev by (auto simp: nth_append less_Suc_eq)
    then show ?thesis unfolding left_open_def using i by (intro exI [of _ i]) (simp add: nth_append)
  qed
qed

definition opens :: "k_event list \<Rightarrow> nat" where "opens evs = length (filter (\<lambda>ev. \<exists>l. ev = Opened l) evs)"
definition failed_opens :: "k_event list \<Rightarrow> nat" where "failed_opens evs = count_list evs (Opened None)"

text \<open>What a run does to the ledger, from any state with no list live and none opened.\<close>

definition ledger :: "int \<Rightarrow> k_event list \<Rightarrow> k_world \<Rightarrow> bool" where
  "ledger fail_at evs w \<longleftrightarrow> finite (kw_live w) \<and> (\<forall>l. l \<in> kw_live w \<longleftrightarrow> left_open evs l) \<and> kw_opened w = int (opens evs) \<and>
     kw_open_fail_at w = fail_at \<and> failed_opens evs = (if 0 < fail_at \<and> fail_at \<le> int (opens evs) then 1 else 0)"

inductive_cases k_step_cases: "k_step en fresh ev w w'"

lemma ledger_start: "kw_live w = {} \<Longrightarrow> kw_opened w = 0 \<Longrightarrow> ledger (kw_open_fail_at w) [] w"
  by (simp add: ledger_def left_open_Nil opens_def failed_opens_def)

lemma k_step_effect:
  assumes "k_step en fresh ev w w'"
  shows "kw_live w' = (case ev of Opened (Some l) \<Rightarrow> insert l (kw_live w) | Freed l \<Rightarrow> kw_live w - {l} | _ \<Rightarrow> kw_live w)"
    and "kw_opened w' = (case ev of Opened _ \<Rightarrow> kw_opened w + 1 | _ \<Rightarrow> kw_opened w)"
    and "kw_open_fail_at w' = kw_open_fail_at w"
    and "case ev of Opened l \<Rightarrow> l = None \<longleftrightarrow> 0 < kw_open_fail_at w \<and> kw_opened w + 1 = kw_open_fail_at w | _ \<Rightarrow> True"
  using assms
  by (cases rule: k_step.cases;
      auto simp: qfile_open_list_def qfile_free_list_id_def qfile_add_tuple_to_list_def qdata_save_agg_hentry_to_list_def
        qfile_copy_list_id_def count_tuple_def qfile_scan_list_next_def k_er_set_def Let_def split: if_splits)+

lemma opens_snoc: "opens (evs @ [ev]) = opens evs + (case ev of Opened _ \<Rightarrow> 1 | _ \<Rightarrow> 0)"
  by (cases ev) (simp_all add: opens_def)

lemma failed_opens_snoc: "failed_opens (evs @ [ev]) = failed_opens evs + (if ev = Opened None then 1 else 0)"
  by (simp add: failed_opens_def)

lemma ledger_step:
  assumes "ledger fail_at evs w" "k_step en fresh ev w w'"
  shows "ledger fail_at (evs @ [ev]) w'"
proof -
  note eff = k_step_effect [OF assms(2)]
  have live: "finite (kw_live w)" "l \<in> kw_live w \<longleftrightarrow> left_open evs l" for l
    using assms(1) by (simp_all add: ledger_def)
  have cnt: "kw_opened w = int (opens evs)" "kw_open_fail_at w = fail_at"
    "failed_opens evs = (if 0 < fail_at \<and> fail_at \<le> int (opens evs) then 1 else 0)"
    using assms(1) by (simp_all add: ledger_def)
  have "finite (kw_live w')" "l \<in> kw_live w' \<longleftrightarrow> left_open (evs @ [ev]) l" for l
    using live by (auto simp: eff(1) left_open_snoc split: k_event.split option.split)
  moreover have "kw_opened w' = int (opens (evs @ [ev]))"
    by (simp add: eff(2) cnt(1) opens_snoc split: k_event.split)
  moreover have "failed_opens (evs @ [ev]) = (if 0 < fail_at \<and> fail_at \<le> int (opens (evs @ [ev])) then 1 else 0)"
  proof (cases ev)
    case (Opened l)
    then have "l = None \<longleftrightarrow> 0 < fail_at \<and> int (opens evs) + 1 = fail_at" using eff(4) cnt by simp
    then show ?thesis using cnt(3) Opened by (auto simp: failed_opens_snoc opens_snoc)
  qed (use cnt(3) in \<open>simp_all add: failed_opens_snoc opens_snoc\<close>)
  ultimately show ?thesis using eff(3) cnt(2) by (simp add: ledger_def)
qed

lemma ledger_run: "k_run en fresh evs' w w' \<Longrightarrow> ledger fail_at evs w \<Longrightarrow> ledger fail_at (evs @ evs') w'"
proof (induction rule: k_run.induct)
  case (k_more evs' w w' ev w'')
  then show ?case using ledger_step [of fail_at "evs @ evs'" w' en fresh ev w''] by simp
qed simp

text \<open>
  C35. The partitions' scenario reports the truth: whatever the engine's two functions call, the number
  opened is the number of open calls of the first, the injected failure hits exactly one of them when it
  is among them, and no list is live at the end exactly when every list that opened was given back after.
\<close>

theorem open_parts_reports:
  assumes "w1 = (k_live_reset en (k_setup 100 1 w))\<lparr>kw_open_fail_at := kw_open_fail_at w\<rparr>"
    and "open_parts n w1 = (rc, parts, w2)" "k_run en fresh evs1 w1 w2" "k_run en fresh evs2 w2 (free_parts n parts w2)"
    and run: "k_open_parts_scenario en open_parts free_parts n w = ((rc', opened, live), w')"
  shows "opened = int (opens evs1) \<and>
    failed_opens evs1 = (if 0 < kw_open_fail_at w \<and> kw_open_fail_at w \<le> opened then 1 else 0) \<and>
    (live = 0 \<longleftrightarrow> (\<forall>i l. i < length (evs1 @ evs2) \<longrightarrow> (evs1 @ evs2) ! i = Opened (Some l) \<longrightarrow>
       (\<exists>j. i < j \<and> j < length (evs1 @ evs2) \<and> (evs1 @ evs2) ! j = Freed l)))"
proof -
  have start: "ledger (kw_open_fail_at w) [] w1"
    using ledger_start [of w1] by (simp add: assms(1) k_live_reset_def)
  have led1: "ledger (kw_open_fail_at w) evs1 w2"
    using ledger_run [OF assms(3) start] by simp
  have led2: "ledger (kw_open_fail_at w) (evs1 @ evs2) (free_parts n parts w2)"
    by (rule ledger_run [OF assms(4) led1])
  have out: "opened = kw_opened w2" "live = k_live_count (free_parts n parts w2)"
    using run assms(2) by (auto simp: k_open_parts_scenario_def Let_def simp flip: assms(1))
  have "live = 0 \<longleftrightarrow> kw_live (free_parts n parts w2) = {}"
    using led2 by (simp add: out k_live_count_def ledger_def)
  also have "\<dots> \<longleftrightarrow> (\<forall>l. \<not> left_open (evs1 @ evs2) l)"
    using led2 unfolding ledger_def by (metis all_not_in_conv)
  finally have live: "live = 0 \<longleftrightarrow> (\<forall>l. \<not> left_open (evs1 @ evs2) l)" .
  have "opened = int (opens evs1)" "failed_opens evs1 = (if 0 < kw_open_fail_at w \<and> kw_open_fail_at w \<le> opened then 1 else 0)"
    using led1 by (simp_all add: out(1) ledger_def)
  then show ?thesis unfolding live left_open_def by blast
qed

text \<open>An engine that opens one list after another and frees the ones it got.\<close>

definition one_errors :: k_errors where
  "one_errors = \<lparr>ke_no_error = 0, ke_failed = - 1, ke_out_of_memory = - 2, ke_interrupted = - 3\<rparr>"

definition one_fresh :: "list_ref set \<Rightarrow> nat" where
  "one_fresh A = card A"

definition two_opens :: "nat \<Rightarrow> k_world \<Rightarrow> int \<times> (list_ref option \<times> list_ref option) \<times> k_world" where
  "two_opens n w = (let (a, w1) = qfile_open_list one_errors one_fresh 2 1 False w;
                        (b, w2) = qfile_open_list one_errors one_fresh 5 1 False w1 in (0, (a, b), w2))"

definition two_frees :: "nat \<Rightarrow> list_ref option \<times> list_ref option \<Rightarrow> k_world \<Rightarrow> k_world" where
  "two_frees n = (\<lambda>(a, b) w. (case b of None \<Rightarrow> (\<lambda>w. w) | Some l \<Rightarrow> qfile_free_list_id l)
     ((case a of None \<Rightarrow> (\<lambda>w. w) | Some l \<Rightarrow> qfile_free_list_id l) w))"

definition k_world_zero :: k_world where
  "k_world_zero = \<lparr>kw_statics = \<lparr>st_gb = \<lparr>gb_xasl = None, gb_xasl_state = None, gb_agg_hash_context = None, gb_g_dim = None,
       gb_g_dim_levels = 0, gb_hash_eligible = 0\<rparr>, st_ctx = \<lparr>cx_hash_table = None, cx_part_list_id = None, cx_temp_key = None,
       cx_temp_part_key = None, cx_temp_part_value = None, cx_state = HS_ZERO, cx_key_sketch_partial = False\<rparr>,
       st_xs_query_id = 0, st_xasl_type = XASL_ZERO, st_xasl_distinct = False, st_g_hkey_size = 0, st_g_func_count = 0,
       st_key_values = None, st_pkey_values = None\<rparr>, kw_lists = (\<lambda>_. list_zero), kw_live = {}, kw_opened = 7,
     kw_open_fail_at = 2, kw_errid = 0, kw_add_fail_at = 0, kw_add_calls = 0, kw_scan_end = S_END, kw_scan_limit = - 1,
     kw_ordinal = 0, kw_cur_ordinal = 0, kw_groups = 100\<rparr>"

theorem open_parts_reports_witness:
  "\<exists>w'. k_open_parts_scenario one_errors two_opens two_frees 1 k_world_zero = ((0, 2, 0), w')"
proof -
  obtain w1 where w1: "w1 = (k_live_reset one_errors (k_setup 100 1 k_world_zero))\<lparr>kw_open_fail_at := kw_open_fail_at k_world_zero\<rparr>"
    by blast
  obtain v1 where "v1 = snd (qfile_open_list one_errors one_fresh 2 1 False w1)" by blast
  then have v1: "qfile_open_list one_errors one_fresh 2 1 False w1 = (Some (Heap_list 0), v1)"
    by (simp add: w1 k_live_reset_def k_setup_def k_world_zero_def qfile_open_list_def one_fresh_def Let_def)
  have f1: "kw_opened v1 = 1 \<and> kw_open_fail_at v1 = 2" using v1
    by (auto simp: w1 k_live_reset_def k_setup_def k_world_zero_def qfile_open_list_def one_fresh_def Let_def)
  obtain v2 where "v2 = snd (qfile_open_list one_errors one_fresh 5 1 False v1)" by blast
  then have v2: "qfile_open_list one_errors one_fresh 5 1 False v1 = (None, v2)"
    using f1 by (simp add: qfile_open_list_def)
  have op: "two_opens 1 w1 = (0, (Some (Heap_list 0), None), v2)" by (simp add: two_opens_def v1 v2)
  have run1: "k_run one_errors one_fresh [Opened (Some (Heap_list 0)), Opened None] w1 v2"
    using k_more [OF k_more [OF k_none k_open [OF v1]] k_open [OF v2]] by simp
  have run2: "k_run one_errors one_fresh [Freed (Heap_list 0)] v2 (two_frees 1 (Some (Heap_list 0), None) v2)"
    using k_more [OF k_none k_free [of one_errors one_fresh "Heap_list 0" v2]] by (simp add: two_frees_def)
  obtain rc' opened live w' where run:
    "k_open_parts_scenario one_errors two_opens two_frees 1 k_world_zero = ((rc', opened, live), w')"
    by (metis prod_cases4 surj_pair)
  have rc: "rc' = 0" using run op by (simp add: k_open_parts_scenario_def Let_def flip: w1)
  have "opened = 2 \<and> live = 0"
    using open_parts_reports [OF w1 op run1 run2 run] by (auto simp: opens_def nth_Cons' less_Suc_eq)
  then show ?thesis using run rc by blast
qed

theorem scan_meets_keys_witness:
  "\<exists>hs. k_scan_rows 11 \<lparr>sn_tuple_cnt = 10, sn_curr_tplno = 0\<rparr> (k_world_zero\<lparr>kw_groups := 3\<rparr>) = Some (hs, S_END) \<and> card (set hs) = 3"
  using scan_meets_keys [of "k_world_zero\<lparr>kw_groups := 3\<rparr>" "\<lparr>sn_tuple_cnt = 10, sn_curr_tplno = 0\<rparr>" 11]
  by (auto simp: k_world_zero_def scan_length_def k_group_count_def)

end
