(* ===== verification/RevisionHooks.thy ===== *)
theory RevisionHooks
  imports Prelude Complex_Main
begin

text \<open>
  Hooks that stand in for what a revision of the engine lacks: the suites
  \<open>optimizer/query_planner.parallel_cost\<close>, \<open>plan_cmp\<close>, \<open>session_variable_peek\<close> and
  \<open>having_selectivity\<close>, \<open>storage/btree.prefix_value_hash\<close>, \<open>storage/heap_file.share_string\<close> and
  \<open>query/px_scan_checker.worker_sp\<close>. What a revision has is an option; what the preprocessor, overload
  resolution or a qualified lookup decides in the source is a case distinction on it. A \<open>double\<close> that
  passes through is a real: none is computed here.
\<close>

section \<open>Parallel cost\<close>

text \<open>The functions that exist where \<open>QO_PARALLEL_COST_DIVISOR\<close> is defined.\<close>

record 'p parallel_api =
  pc_divisor :: "'p \<Rightarrow> real"
  pc_hjoin_runs :: "'p \<Rightarrow> real \<Rightarrow> bool"
  pc_scan_runs :: "'p \<Rightarrow> bool"
  pc_input_factor :: "'p \<Rightarrow> real \<Rightarrow> real"

definition unitseam_ml_pages :: "(real \<Rightarrow> real \<Rightarrow> real) \<Rightarrow> real \<Rightarrow> real \<Rightarrow> real" where
  "unitseam_ml_pages qo_mackert_lohman_pages t n = qo_mackert_lohman_pages t n"

text \<open>The same functions where it is not: the stand-ins of the \<open>#else\<close> branch.\<close>

definition absent_parallel_cost :: int where "absent_parallel_cost = 0"
definition absent_divisor :: "'p \<Rightarrow> real" where "absent_divisor p = - 1"
definition absent_hjoin_runs_parallel :: "'p \<Rightarrow> int" where "absent_hjoin_runs_parallel p = - 1"
definition absent_scan_runs_parallel :: "'p \<Rightarrow> int" where "absent_scan_runs_parallel p = - 1"
definition absent_input_factor :: "'p \<Rightarrow> real \<Rightarrow> real" where "absent_input_factor p d = - 1"

definition unitseam_has_parallel_cost :: "'p parallel_api option \<Rightarrow> int" where
  "unitseam_has_parallel_cost revn = (case revn of Some _ \<Rightarrow> 1 | None \<Rightarrow> absent_parallel_cost)"

definition unitseam_divisor :: "'p parallel_api option \<Rightarrow> 'p \<Rightarrow> real" where
  "unitseam_divisor revn p = (case revn of Some a \<Rightarrow> pc_divisor a p | None \<Rightarrow> absent_divisor p)"

definition unitseam_hjoin_runs_parallel :: "'p parallel_api option \<Rightarrow> 'p \<Rightarrow> int" where
  "unitseam_hjoin_runs_parallel revn p =
     (case revn of Some a \<Rightarrow> if pc_hjoin_runs a p (pc_divisor a p) then 1 else 0
      | None \<Rightarrow> absent_hjoin_runs_parallel p)"

definition unitseam_scan_runs_parallel :: "'p parallel_api option \<Rightarrow> 'p \<Rightarrow> int" where
  "unitseam_scan_runs_parallel revn p = 
     (case revn of Some a \<Rightarrow> if pc_scan_runs a p then 1 else 0 | None \<Rightarrow> absent_scan_runs_parallel p)"

definition unitseam_input_factor :: "'p parallel_api option \<Rightarrow> 'p \<Rightarrow> real \<Rightarrow> real" where
  "unitseam_input_factor revn p d = (case revn of Some a \<Rightarrow> pc_input_factor a p d | None \<Rightarrow> absent_input_factor p d)"

section \<open>Plan comparison\<close>

text \<open>\<open>revn\<close>: where \<open>QO_COST_CELL_RATIO\<close> is defined, the engine's test of the mark.\<close>

record qo_planner =
  pl_plan_cmp_by_rules :: bool

definition unitseam_plan_cmp :: "('p \<Rightarrow> 'p \<Rightarrow> 'r) \<Rightarrow> 'p \<Rightarrow> 'p \<Rightarrow> 'r" where
  "unitseam_plan_cmp qo_plan_cmp a b = qo_plan_cmp a b"

definition unitseam_has_cost_order :: "(qo_planner \<Rightarrow> bool) option \<Rightarrow> int" where
  "unitseam_has_cost_order revn = (case revn of Some _ \<Rightarrow> 1 | None \<Rightarrow> 0)"

definition unitseam_set_cmp_by_rules :: "(qo_planner \<Rightarrow> bool) option \<Rightarrow> int \<Rightarrow> qo_planner \<Rightarrow> qo_planner" where
  "unitseam_set_cmp_by_rules revn is_on planner =
     (case revn of Some _ \<Rightarrow> planner\<lparr>pl_plan_cmp_by_rules := (is_on \<noteq> 0)\<rparr> | None \<Rightarrow> planner)"

definition unitseam_plan_cmp_by_rules :: "(qo_planner \<Rightarrow> bool) option \<Rightarrow> qo_planner option \<Rightarrow> int" where
  "unitseam_plan_cmp_by_rules revn planner =
     (case revn of Some by_rules \<Rightarrow> (case planner of Some pl \<Rightarrow> if by_rules pl then 1 else 0 | None \<Rightarrow> 0) | None \<Rightarrow> - 1)"

section \<open>Session variables\<close>

text \<open>
  The entries are nodes of a linked list; \<open>peek_next\<close> reads a node's link. A list that runs in a
  circle is never counted to its end: \<open>None\<close>.
\<close>

partial_function (option) peek_count_loop :: "(nat \<Rightarrow> nat option) \<Rightarrow> nat option \<Rightarrow> int \<Rightarrow> int option" where
  "peek_count_loop peek_next p n = (case p of None \<Rightarrow> Some n | Some a \<Rightarrow> peek_count_loop peek_next (peek_next a) (n + 1))"

record ('e, 'n, 'v) session_api =
  sv_value :: "'e \<Rightarrow> 'n \<Rightarrow> 'v option"
  sv_peeks :: "'e \<Rightarrow> nat option"

definition absent_session_peek :: int where "absent_session_peek = 0"
definition absent_session_variable_value :: "'e \<Rightarrow> 'n \<Rightarrow> 'v option" where
  "absent_session_variable_value env node = None"
definition absent_session_peek_count :: "'e \<Rightarrow> int" where "absent_session_peek_count env = - 1"

definition unitseam_has_session_peek :: "('e, 'n, 'v) session_api option \<Rightarrow> int" where
  "unitseam_has_session_peek revn = (case revn of Some _ \<Rightarrow> 1 | None \<Rightarrow> absent_session_peek)"

definition unitseam_session_variable_value :: "('e, 'n, 'v) session_api option \<Rightarrow> 'e \<Rightarrow> 'n \<Rightarrow> 'v option" where
  "unitseam_session_variable_value revn env node =
     (case revn of Some a \<Rightarrow> sv_value a env node | None \<Rightarrow> absent_session_variable_value env node)"

definition unitseam_session_peek_count ::
    "('e, 'n, 'v) session_api option \<Rightarrow> (nat \<Rightarrow> nat option) \<Rightarrow> 'e \<Rightarrow> int option" where
  "unitseam_session_peek_count revn peek_next env =
     (case revn of Some a \<Rightarrow> peek_count_loop peek_next (sv_peeks a env) 0
      | None \<Rightarrow> Some (absent_session_peek_count env))"

definition unitseam_between_range_arg_value :: "('e \<Rightarrow> 'n \<Rightarrow> 'v option) \<Rightarrow> 'e \<Rightarrow> 'n \<Rightarrow> 'v option" where
  "unitseam_between_range_arg_value qo_between_range_arg_value env arg = qo_between_range_arg_value env arg"

definition unitseam_equal_selectivity :: "('e \<Rightarrow> 'n \<Rightarrow> real) \<Rightarrow> 'e \<Rightarrow> 'n \<Rightarrow> real" where
  "unitseam_equal_selectivity qo_equal_selectivity env expr = qo_equal_selectivity env expr"

section \<open>HAVING\<close>

text \<open>A call of the engine returns, or aborts by a jump to the place the hook set.\<close>

datatype 'a engine_run = Aborted | Returned 'a

record ('e, 'n) having_env =
  he_env :: 'e
  he_group_size :: real
  he_group_attr :: "'n option"
  he_group_scale :: real

record ('e, 'n, 'p, 'd) having_api =
  ha_flag_aggregate :: int
  ha_flag_groupby_num :: int
  ha_default :: real
  ha_found :: "'n \<Rightarrow> int"
  ha_term :: "('e, 'n) having_env \<Rightarrow> 'n \<Rightarrow> real engine_run"
  ha_disjunct :: "('e, 'n) having_env \<Rightarrow> 'n \<Rightarrow> real engine_run"
  ha_pred :: "('e, 'n) having_env \<Rightarrow> 'n \<Rightarrow> real engine_run"
  ha_selectivity :: "('e, 'n) having_env \<Rightarrow> 'n \<Rightarrow> real engine_run"
  ha_row_compare :: "'n \<Rightarrow> 'd \<Rightarrow> bool \<Rightarrow> bool \<Rightarrow> real"
  ha_env_init :: "'p \<Rightarrow> real \<Rightarrow> ('e, 'n) having_env engine_run"

text \<open>The stand-ins where the revision has no HAVING estimate.\<close>

definition absent_having :: int where "absent_having = 0"
definition absent_having_flag_aggregate :: int where "absent_having_flag_aggregate = 0"
definition absent_having_flag_groupby_num :: int where "absent_having_flag_groupby_num = 0"
definition absent_having_default :: real where "absent_having_default = - 2"
definition absent_having_found :: "'n \<Rightarrow> int" where "absent_having_found pred = - 1"
definition absent_having_estimate :: "int \<Rightarrow> 'e \<Rightarrow> 'n \<Rightarrow> real \<Rightarrow> 'n option \<Rightarrow> real \<Rightarrow> real \<times> int" where
  "absent_having_estimate which env pred group_size group_attr group_scale = (- 2, 0)"
definition absent_having_row_compare :: "'n \<Rightarrow> 'd \<Rightarrow> bool \<Rightarrow> bool \<Rightarrow> real" where
  "absent_having_row_compare attr value is_ge include_equal = - 2"
definition absent_having_env_init ::
    "'p \<Rightarrow> real \<Rightarrow> 'n option \<times> real \<times> real \<Rightarrow> ('n option \<times> real \<times> real) \<times> int" where
  "absent_having_env_init plan group_size out = ((None, - 2, - 2), 0)"

definition unitseam_has_having :: "('e, 'n, 'p, 'd) having_api option \<Rightarrow> int" where
  "unitseam_has_having revn = (case revn of Some _ \<Rightarrow> 1 | None \<Rightarrow> absent_having)"

definition unitseam_having_flag_aggregate :: "('e, 'n, 'p, 'd) having_api option \<Rightarrow> int" where
  "unitseam_having_flag_aggregate revn =
     (case revn of Some a \<Rightarrow> ha_flag_aggregate a | None \<Rightarrow> absent_having_flag_aggregate)"

definition unitseam_having_flag_groupby_num :: "('e, 'n, 'p, 'd) having_api option \<Rightarrow> int" where
  "unitseam_having_flag_groupby_num revn =
     (case revn of Some a \<Rightarrow> ha_flag_groupby_num a | None \<Rightarrow> absent_having_flag_groupby_num)"

definition unitseam_having_default :: "('e, 'n, 'p, 'd) having_api option \<Rightarrow> real" where
  "unitseam_having_default revn = (case revn of Some a \<Rightarrow> ha_default a | None \<Rightarrow> absent_having_default)"

definition unitseam_having_found :: "('e, 'n, 'p, 'd) having_api option \<Rightarrow> 'n \<Rightarrow> int" where
  "unitseam_having_found revn pred = (case revn of Some a \<Rightarrow> ha_found a pred | None \<Rightarrow> absent_having_found pred)"

definition unitseam_henv :: "'e \<Rightarrow> real \<Rightarrow> 'n option \<Rightarrow> real \<Rightarrow> ('e, 'n) having_env" where
  "unitseam_henv env group_size group_attr group_scale =
     \<lparr>he_env = env, he_group_size = group_size, he_group_attr = group_attr, he_group_scale = group_scale\<rparr>"

text \<open>The estimate and \<open>*aborted\<close>.\<close>

definition unitseam_having_estimate ::
    "('e, 'n, 'p, 'd) having_api option \<Rightarrow> int \<Rightarrow> 'e \<Rightarrow> 'n \<Rightarrow> real \<Rightarrow> 'n option \<Rightarrow> real \<Rightarrow> real \<times> int" where
  "unitseam_having_estimate revn which env pred group_size group_attr group_scale =
     (case revn of None \<Rightarrow> absent_having_estimate which env pred group_size group_attr group_scale
      | Some a \<Rightarrow>
          (let henv = unitseam_henv env group_size group_attr group_scale
           in case (if which = 0 then ha_term a henv pred else if which = 1 then ha_disjunct a henv pred
                    else if which = 2 then ha_pred a henv pred else ha_selectivity a henv pred) of
                Aborted \<Rightarrow> (- 9, 1) | Returned s \<Rightarrow> (s, 0)))"

definition unitseam_having_row_compare ::
    "('e, 'n, 'p, 'd) having_api option \<Rightarrow> 'n \<Rightarrow> 'd \<Rightarrow> bool \<Rightarrow> bool \<Rightarrow> real" where
  "unitseam_having_row_compare revn attr value is_ge include_equal =
     (case revn of Some a \<Rightarrow> ha_row_compare a attr value is_ge include_equal
      | None \<Rightarrow> absent_having_row_compare attr value is_ge include_equal)"

text \<open>\<open>out\<close>: what the three outputs held; an abort leaves them.\<close>

definition unitseam_having_env_init ::
    "('e, 'n, 'p, 'd) having_api option \<Rightarrow> 'p \<Rightarrow> real \<Rightarrow> 'n option \<times> real \<times> real \<Rightarrow> ('n option \<times> real \<times> real) \<times> int" where
  "unitseam_having_env_init revn plan group_size out =
     (case revn of None \<Rightarrow> absent_having_env_init plan group_size out
      | Some a \<Rightarrow> (case ha_env_init a plan group_size of
                     Aborted \<Rightarrow> (out, 1)
                   | Returned henv \<Rightarrow> ((he_group_attr henv, he_group_scale henv, he_group_size henv), 0)))"

definition unitseam_estimate_ngroups :: "('p \<Rightarrow> 't \<Rightarrow> 'p engine_run) \<Rightarrow> 'p \<Rightarrow> 't \<Rightarrow> 'p option \<times> int" where
  "unitseam_estimate_ngroups qo_estimate_ngroups plan sort_type =
     (case qo_estimate_ngroups plan sort_type of Aborted \<Rightarrow> (None, 1) | Returned p \<Rightarrow> (Some p, 0))"

section \<open>The prefix hash\<close>

record 'v prefix_state =
  px_elem :: "'v option"
  px_used_legacy :: bool

text \<open>The template the legacy revision instantiates: \<open>valhash\<close> is \<open>mht_valhash\<close> with its table size.\<close>

definition prefix_legacy_hash :: "('v \<Rightarrow> u32) \<Rightarrow> 'v \<Rightarrow> 'v prefix_state \<Rightarrow> u64 \<times> 'v prefix_state" where
  "prefix_legacy_hash valhash value st = (ucast (valhash value), st\<lparr>px_used_legacy := True, px_elem := Some value\<rparr>)"

definition unitseam_prefix_value_hash ::
    "('v \<Rightarrow> u64) option \<Rightarrow> ('v \<Rightarrow> u32) \<Rightarrow> 'v \<Rightarrow> 'v prefix_state \<Rightarrow> u64 \<times> 'v prefix_state" where
  "unitseam_prefix_value_hash revn valhash value st =
     (case revn of Some f \<Rightarrow> (f value, st) | None \<Rightarrow> prefix_legacy_hash valhash value st)"

definition unitseam_prefix_hash_is_legacy ::
    "('v \<Rightarrow> u64) option \<Rightarrow> ('v \<Rightarrow> u32) \<Rightarrow> 'v \<Rightarrow> 'v prefix_state \<Rightarrow> bool \<times> 'v prefix_state" where
  "unitseam_prefix_hash_is_legacy revn valhash one st =
     (let (h, st1) = unitseam_prefix_value_hash revn valhash one (st\<lparr>px_used_legacy := False\<rparr>)
      in (px_used_legacy st1, st1))"

text \<open>
  The estimate over the static reservoir: its first \<open>n\<close> entries are the hashes, the rest is what earlier
  calls left. \<open>None\<close>: the assertion fails.
\<close>

definition unitseam_duj1_estimate ::
    "(u64 \<Rightarrow> int \<Rightarrow> u64 list \<Rightarrow> u64) \<Rightarrow> nat \<Rightarrow> u64 list \<Rightarrow> int \<Rightarrow> u64 \<Rightarrow> u64 list \<Rightarrow> (u64 \<times> u64 list) option" where
  "unitseam_duj1_estimate estimate capacity hashes n total_keys reservoir =
     (if n \<le> 0 \<or> n > int capacity then None
      else (let reservoir1 = take (nat n) hashes @ drop (nat n) reservoir
            in Some (estimate total_keys n reservoir1, reservoir1)))"

definition unitseam_duj1_sample_capacity :: "nat \<Rightarrow> nat" where
  "unitseam_duj1_sample_capacity capacity = capacity"

section \<open>Shared strings\<close>

text \<open>The static flag; \<open>revn\<close> is \<open>heap_attrinfo_can_share_string\<close> where the revision has it.\<close>

definition share_fallback :: "bool \<Rightarrow> bool \<times> bool" where
  "share_fallback fn_absent = (False, True)"

definition unitseam_can_share_string ::
    "('v \<Rightarrow> 'd \<Rightarrow> bool) option \<Rightarrow> 'v \<Rightarrow> 'd \<Rightarrow> bool \<Rightarrow> (bool \<times> bool) \<times> bool" where
  "unitseam_can_share_string revn value domain fn_absent =
     (let fn_absent1 = False;
          (shares, fn_absent2) = (case revn of Some f \<Rightarrow> (f value domain, fn_absent1) | None \<Rightarrow> share_fallback fn_absent1)
      in ((shares, fn_absent2), fn_absent2))"

section \<open>The parallel scan checker\<close>

text \<open>The flags of the checker; the last one is 0 where the revision has no such notion.\<close>

record px_flags =
  pf_parallel_scan :: u32
  pf_list_merge :: u32
  pf_buildvalue_opt :: u32
  pf_run_in_worker :: "u32 option"

definition unitseam_px_flag :: "px_flags \<Rightarrow> int \<Rightarrow> u32" where
  "unitseam_px_flag fl which =
     (if which = 0 then pf_parallel_scan fl else if which = 1 then pf_list_merge fl
      else if which = 2 then pf_buildvalue_opt fl
      else if which = 3 then (case pf_run_in_worker fl of Some f \<Rightarrow> f | None \<Rightarrow> 0) else 0)"

text \<open>
  The thread-local caches; the two sibling caches are the fallback's where the revision has none of
  its own, and then the engine never touches them.
\<close>

record 'x px_caches =
  pk_check :: "'x \<rightharpoonup> u32"
  pk_processing :: "'x set"
  pk_sibling :: "bool \<Rightarrow> ('x \<rightharpoonup> u32)"

definition unitseam_px_has_sibling_cache :: "bool \<Rightarrow> bool" where
  "unitseam_px_has_sibling_cache own_cache = own_cache"

definition unitseam_px_clear_caches :: "'x px_caches \<Rightarrow> 'x px_caches" where
  "unitseam_px_clear_caches c = c\<lparr>pk_check := Map.empty, pk_processing := {}, pk_sibling := (\<lambda>_. Map.empty)\<rparr>"

definition unitseam_px_check_regu ::
    "(bool \<Rightarrow> 'r \<Rightarrow> 'x px_caches \<Rightarrow> u32 \<times> 'x px_caches) \<Rightarrow> 'r \<Rightarrow> bool \<Rightarrow> 'x px_caches \<Rightarrow> u32 \<times> 'x px_caches" where
  "unitseam_px_check_regu check regu outptr c =
     (let (flags, c1) = check outptr regu (unitseam_px_clear_caches c) in (flags, unitseam_px_clear_caches c1))"

definition unitseam_px_sibling_check ::
    "(bool \<Rightarrow> 'x \<Rightarrow> 'x px_caches \<Rightarrow> u32 \<times> 'x px_caches) \<Rightarrow> 'x \<Rightarrow> bool \<Rightarrow> 'x px_caches \<Rightarrow> u32 \<times> 'x px_caches" where
  "unitseam_px_sibling_check sibling_check xasl outptr c = sibling_check outptr xasl (unitseam_px_clear_caches c)"

definition unitseam_px_sibling_cache_size :: "int \<Rightarrow> 'x px_caches \<Rightarrow> nat" where
  "unitseam_px_sibling_cache_size is_outptr_list c = card (dom (pk_sibling c (is_outptr_list \<noteq> 0)))"

section \<open>Properties\<close>

text \<open>The chain of nodes from a link on.\<close>

inductive peek_chain :: "(nat \<Rightarrow> nat option) \<Rightarrow> nat option \<Rightarrow> nat list \<Rightarrow> bool" for peek_next :: "nat \<Rightarrow> nat option" where
  chain_end: "peek_chain peek_next None []"
| chain_node: "peek_chain peek_next (peek_next a) xs \<Longrightarrow> peek_chain peek_next (Some a) (a # xs)"

inductive_simps peek_chain_None: "peek_chain peek_next None xs"
inductive_simps peek_chain_Some: "peek_chain peek_next (Some a) xs"

lemma peek_count_chain: "peek_chain peek_next p xs \<Longrightarrow> peek_count_loop peek_next p n = Some (n + int (length xs))"
proof (induction arbitrary: n rule: peek_chain.induct)
  case chain_end
  show ?case by (simp add: peek_count_loop.simps)
next
  case (chain_node a xs)
  then show ?case by (subst peek_count_loop.simps) (simp add: add.assoc)
qed

lemma peek_count_ends:
  assumes "peek_count_loop peek_next p n = Some m"
  shows "\<exists>xs. peek_chain peek_next p xs"
proof (rule peek_count_loop.raw_induct [where P = "\<lambda>nx p n m. \<exists>xs. peek_chain nx p xs", OF _ assms])
  fix loop nx p n y
  assume ih: "\<And>nx p n y. loop nx p n = Some y \<Longrightarrow> \<exists>xs. peek_chain nx p xs"
    and run: "(case p of None \<Rightarrow> Some n | Some a \<Rightarrow> loop nx (nx a) (n + 1)) = Some y"
  show "\<exists>xs. peek_chain nx p xs"
  proof (cases p)
    case None
    then show ?thesis by (auto intro: peek_chain.intros)
  next
    case (Some a)
    then have "loop nx (nx a) (n + 1) = Some y" using run by simp
    then obtain xs where "peek_chain nx (nx a) xs" using ih by blast
    then show ?thesis using Some by (auto intro: peek_chain.intros)
  qed
qed

text \<open>
  Counting the entries returns exactly on a list that ends, and then with its length; where the
  revision keeps no list it is -1, which no list's length is.
\<close>

theorem peek_count_exact:
  "unitseam_session_peek_count revn peek_next env = Some m \<longleftrightarrow>
    (case revn of None \<Rightarrow> m = - 1
     | Some a \<Rightarrow> (\<exists>xs. peek_chain peek_next (sv_peeks a env) xs \<and> m = int (length xs)))"
proof (cases revn)
  case (Some a)
  show ?thesis
  proof
    assume "unitseam_session_peek_count revn peek_next env = Some m"
    then have run: "peek_count_loop peek_next (sv_peeks a env) 0 = Some m" by (simp add: unitseam_session_peek_count_def Some)
    then obtain xs where "peek_chain peek_next (sv_peeks a env) xs" using peek_count_ends by blast
    then show "case revn of None \<Rightarrow> m = - 1 | Some a \<Rightarrow> (\<exists>xs. peek_chain peek_next (sv_peeks a env) xs \<and> m = int (length xs))"
      using peek_count_chain [of peek_next "sv_peeks a env" xs 0] run Some by auto
  next
    assume "case revn of None \<Rightarrow> m = - 1 | Some a \<Rightarrow> (\<exists>xs. peek_chain peek_next (sv_peeks a env) xs \<and> m = int (length xs))"
    then show "unitseam_session_peek_count revn peek_next env = Some m"
      using Some by (auto simp: unitseam_session_peek_count_def peek_count_chain)
  qed
qed (auto simp: unitseam_session_peek_count_def absent_session_peek_count_def)

text \<open>
  Every run of the checker starts from empty caches: neither answer depends on what earlier runs
  left in them, the regu check leaves them empty, and the sizes the test reads after a sibling check are
  those of that check alone.
\<close>

theorem px_runs_isolated:
  fixes c d :: "'x px_caches"
  shows "fst (unitseam_px_check_regu check regu outptr c) = fst (unitseam_px_check_regu check regu outptr d) \<and>
    unitseam_px_sibling_cache_size i (snd (unitseam_px_check_regu check regu outptr c)) = 0 \<and>
    unitseam_px_sibling_check sibling xasl outptr c = unitseam_px_sibling_check sibling xasl outptr d"
proof -
  have "unitseam_px_clear_caches c = unitseam_px_clear_caches d"
    by (cases c; cases d) (simp add: unitseam_px_clear_caches_def)
  moreover have "pk_sibling (unitseam_px_clear_caches c1) b = Map.empty" for c1 :: "'x px_caches" and b
    by (simp add: unitseam_px_clear_caches_def)
  ultimately show ?thesis
    by (simp add: unitseam_px_check_regu_def unitseam_px_sibling_check_def unitseam_px_sibling_cache_size_def
        split: prod.split)
qed

text \<open>
  The probes tell a revision that lacks a function from one that has it, whatever ran before: the
  stand-ins appear exactly where the function is absent, and the two static flags are never stale.
\<close>

theorem probes_exact:
  "(unitseam_hjoin_runs_parallel pc p = - 1 \<longleftrightarrow> unitseam_has_parallel_cost pc = 0) \<and>
   (unitseam_scan_runs_parallel pc p = - 1 \<longleftrightarrow> unitseam_has_parallel_cost pc = 0) \<and>
   (unitseam_plan_cmp_by_rules rules planner = - 1 \<longleftrightarrow> unitseam_has_cost_order rules = 0) \<and>
   (fst (unitseam_prefix_hash_is_legacy hash valhash one st) \<longleftrightarrow> hash = None) \<and>
   (snd (fst (unitseam_can_share_string share value domain fn_absent)) \<longleftrightarrow> share = None)"
  by (auto simp: unitseam_hjoin_runs_parallel_def unitseam_scan_runs_parallel_def unitseam_has_parallel_cost_def
      absent_hjoin_runs_parallel_def absent_scan_runs_parallel_def absent_parallel_cost_def
      unitseam_plan_cmp_by_rules_def unitseam_has_cost_order_def unitseam_prefix_hash_is_legacy_def
      unitseam_prefix_value_hash_def prefix_legacy_hash_def unitseam_can_share_string_def share_fallback_def Let_def
      split: option.split)

end
