(* ===== verification/WalkHooks.thy ===== *)
theory WalkHooks
  imports Prelude Complex_Main
begin

text \<open>
  Hooks that carry out one step of the engine and read back what it left: the histogram suites
  \<open>char_keys\<close>, \<open>unique_pinned\<close>, \<open>group_size_selectivity\<close> and \<open>bind_watch_check\<close>, and of the other
  modules \<open>query/xasl_cache.bind_variant\<close>, \<open>query/domain_resolve.operand_arith\<close>,
  \<open>query/g_query_aggregate.slab_sketch\<close>, \<open>query/expr_batch.cell_kernels\<close> and
  \<open>compat/db_vdb.recompile_chain\<close>. The engine's functions are parameters.
\<close>

section \<open>Histogram keys of CHAR columns\<close>

text \<open>
  A string view over the caller's buffer is the pair of its content and the buffer. The three functions
  came with one revision: an earlier one has neither the struct nor the two functions.
\<close>

record hist_repad_ctx =
  rx_type :: int
  rx_precision :: int
  rx_codeset :: int

record 'r repad_api =
  ra_repad :: "string \<Rightarrow> hist_repad_ctx \<Rightarrow> string \<Rightarrow> string \<times> string"
  ra_ctx :: "'r \<Rightarrow> int \<Rightarrow> hist_repad_ctx"

text \<open>The view, the buffer and \<open>*present\<close>.\<close>

definition unitseam_repad_t :: "'r repad_api option \<Rightarrow> string \<Rightarrow> hist_repad_ctx \<Rightarrow> string \<Rightarrow> string \<times> string \<times> bool" where
  "unitseam_repad_t api v ctx buf =
     (case api of None \<Rightarrow> (v, buf, False) | Some a \<Rightarrow> (case ra_repad a v ctx buf of (r, buf1) \<Rightarrow> (r, buf1, True)))"

definition unitseam_repad :: "'r repad_api option \<Rightarrow> string \<Rightarrow> int \<Rightarrow> int \<Rightarrow> int \<Rightarrow> string \<Rightarrow> string \<times> string \<times> bool" where
  "unitseam_repad api v t precision codeset buf =
     unitseam_repad_t api v \<lparr>rx_type = t, rx_precision = precision, rx_codeset = codeset\<rparr> buf"

text \<open>\<open>out\<close>: the type, the precision and the codeset the caller's variables held.\<close>

definition unitseam_ctx_t :: "'r repad_api option \<Rightarrow> 'r \<Rightarrow> int \<Rightarrow> int \<times> int \<times> int \<Rightarrow> bool \<times> int \<times> int \<times> int" where
  "unitseam_ctx_t api reader collation_id out =
     (case api of None \<Rightarrow> (False, out)
      | Some a \<Rightarrow> (let ctx = ra_ctx a reader collation_id in (True, rx_type ctx, rx_precision ctx, rx_codeset ctx)))"

definition unitseam_repad_ctx :: "'r repad_api option \<Rightarrow> 'r \<Rightarrow> int \<Rightarrow> int \<times> int \<times> int \<Rightarrow> bool \<times> int \<times> int \<times> int" where
  "unitseam_repad_ctx = unitseam_ctx_t"

definition unitseam_via_reader_t :: "'r repad_api option \<Rightarrow> 'r \<Rightarrow> int \<Rightarrow> string \<Rightarrow> string \<Rightarrow> string \<times> string \<times> bool" where
  "unitseam_via_reader_t api reader collation_id v buf =
     (case api of None \<Rightarrow> (v, buf, False)
      | Some a \<Rightarrow> (let ctx = ra_ctx a reader collation_id
                   in case ra_repad a v ctx buf of (r, buf1) \<Rightarrow> (r, buf1, True)))"

definition unitseam_repad_via_reader :: "'r repad_api option \<Rightarrow> 'r \<Rightarrow> int \<Rightarrow> string \<Rightarrow> string \<Rightarrow> string \<times> string \<times> bool" where
  "unitseam_repad_via_reader = unitseam_via_reader_t"

datatype key_kind = Key_str | Key_other

record histogram_key =
  hk_kind :: key_kind
  hk_str :: string

text \<open>\<open>histogram_extract_key\<close> takes the column's type, or does not: its answer and the key.\<close>

datatype 'v extract_fn =
    By_column "'v \<Rightarrow> int \<Rightarrow> histogram_key \<Rightarrow> bool \<times> histogram_key"
  | By_value "'v \<Rightarrow> histogram_key \<Rightarrow> bool \<times> histogram_key"

definition unitseam_extract_t :: "'v extract_fn \<Rightarrow> 'v \<Rightarrow> int \<Rightarrow> histogram_key \<Rightarrow> bool \<times> histogram_key \<times> bool" where
  "unitseam_extract_t f v column_type k =
     (case f of By_column g \<Rightarrow> (case g v column_type k of (ok, k1) \<Rightarrow> (ok, k1, True))
      | By_value g \<Rightarrow> (case g v k of (ok, k1) \<Rightarrow> (ok, k1, False)))"

text \<open>\<open>k0\<close> is a default-made key; \<open>out\<close> what \<open>*out\<close> held.\<close>

definition unitseam_extract_str_key :: "'v extract_fn \<Rightarrow> histogram_key \<Rightarrow> 'v \<Rightarrow> int \<Rightarrow> string \<Rightarrow> bool \<times> string \<times> bool" where
  "unitseam_extract_str_key f k0 v column_type out =
     (case unitseam_extract_t f v column_type k0 of (ok, k, by_column) \<Rightarrow>
        if \<not> ok \<or> hk_kind k \<noteq> Key_str then (False, out, by_column) else (True, hk_str k, by_column))"

section \<open>Bind targets\<close>

text \<open>
  \<open>bind_target_ctx\<close>, with the arrays as functions; \<open>walk\<close> is \<open>bind_target_walk\<close> on one node.
\<close>

record 'n bind_target_ctx =
  tc_specs :: int
  tc_terms :: int
  tc_overflow :: bool
  tc_term_name :: "nat \<Rightarrow> 'n"
  tc_term_equality :: "nat \<Rightarrow> bool"

text \<open>\<open>raw\<close>: the arrays of a new context are not set.\<close>

definition unitseam_bt_new :: "'n bind_target_ctx \<Rightarrow> 'n bind_target_ctx" where
  "unitseam_bt_new raw = raw\<lparr>tc_specs := 0, tc_terms := 0, tc_overflow := False\<rparr>"

definition unitseam_bt_visit ::
    "('n \<Rightarrow> 'n bind_target_ctx \<Rightarrow> 'n bind_target_ctx) \<Rightarrow> 'n bind_target_ctx \<Rightarrow> 'n \<Rightarrow> 'n bind_target_ctx" where
  "unitseam_bt_visit walk ctx node = walk node ctx"

definition unitseam_bt_terms :: "'n bind_target_ctx \<Rightarrow> int" where
  "unitseam_bt_terms ctx = tc_terms ctx"

definition unitseam_bt_term_equality :: "'n bind_target_ctx \<Rightarrow> nat \<Rightarrow> bool" where
  "unitseam_bt_term_equality ctx i = tc_term_equality ctx i"

definition unitseam_bt_unique_pinned :: "('n \<Rightarrow> 'n bind_target_ctx \<Rightarrow> 's \<Rightarrow> bool) \<Rightarrow> 'n \<Rightarrow> 'n bind_target_ctx \<Rightarrow> 's \<Rightarrow> bool" where
  "unitseam_bt_unique_pinned unique_pinned statement ctx spec_id = unique_pinned statement ctx spec_id"

text \<open>
  The test holds a context by its address. Releasing NULL does nothing; releasing an address that is not
  live has no meaning, \<open>None\<close>.
\<close>

definition bt_hold :: "nat \<Rightarrow> 'n bind_target_ctx \<Rightarrow> (nat \<rightharpoonup> 'n bind_target_ctx) \<Rightarrow> (nat \<rightharpoonup> 'n bind_target_ctx)" where
  "bt_hold a raw store = store(a \<mapsto> unitseam_bt_new raw)"

definition unitseam_bt_free ::
    "nat option \<Rightarrow> (nat \<rightharpoonup> 'n bind_target_ctx) \<Rightarrow> (nat \<rightharpoonup> 'n bind_target_ctx) option" where
  "unitseam_bt_free ctx store =
     (case ctx of None \<Rightarrow> Some store
      | Some a \<Rightarrow> if store a = None then None else Some (store(a := None)))"

lemma bt_free_hold: "store a = None \<Longrightarrow> unitseam_bt_free (Some a) (bt_hold a raw store) = Some store"
  by (simp add: unitseam_bt_free_def bt_hold_def fun_upd_idem)

text \<open>One node of a statement: the terms found and the first one's name and equality, if any.\<close>

definition unitseam_bind_target ::
    "('n \<Rightarrow> 'n bind_target_ctx \<Rightarrow> 'n bind_target_ctx) \<Rightarrow> 'n bind_target_ctx \<Rightarrow> 'n \<Rightarrow> 'n \<times> bool \<Rightarrow> int \<times> 'n \<times> bool" where
  "unitseam_bind_target walk raw node out =
     (let ctx = walk node (raw\<lparr>tc_specs := 0, tc_terms := 0\<rparr>)
      in if 0 < tc_terms ctx then (tc_terms ctx, tc_term_name ctx 0, tc_term_equality ctx 0)
         else (tc_terms ctx, out))"

text \<open>\<open>histogram_split_hv_predicate\<close>: its answer and the three outputs.\<close>

definition unitseam_split_hv_predicate :: "('n \<Rightarrow> 'o \<Rightarrow> bool \<times> 'o) \<Rightarrow> 'n \<Rightarrow> 'o \<Rightarrow> bool \<times> 'o" where
  "unitseam_split_hv_predicate histogram_split_hv_predicate node out = histogram_split_hv_predicate node out"

record bind_term_ctx =
  bc_want_names :: bool
  bc_has_memo :: bool
  bc_count :: int
  bc_rows :: "nat \<Rightarrow> real"
  bc_name :: "nat \<Rightarrow> string"

definition unitseam_bind_term_rows ::
    "('n \<Rightarrow> bind_term_ctx \<Rightarrow> bind_term_ctx) \<Rightarrow> bind_term_ctx \<Rightarrow> 'n \<Rightarrow> real \<Rightarrow> int \<times> real" where
  "unitseam_bind_term_rows walk raw node out =
     (let ctx = walk node (raw\<lparr>bc_want_names := False, bc_has_memo := False, bc_count := 0\<rparr>)
      in if 0 < bc_count ctx then (bc_count ctx, bc_rows ctx 0) else (bc_count ctx, out))"

text \<open>\<open>vector\<close> is \<open>bind_term_vector\<close>: \<open>None\<close> when it fails. The copied rows and labels.\<close>

definition unitseam_bw_term_vector ::
    "('n \<Rightarrow> bind_term_ctx option) \<Rightarrow> 'n \<Rightarrow> (nat \<Rightarrow> real) \<times> (nat \<Rightarrow> string) \<Rightarrow> int \<times> (nat \<Rightarrow> real) \<times> (nat \<Rightarrow> string)" where
  "unitseam_bw_term_vector vector statement out =
     (case vector statement of None \<Rightarrow> (0, out)
      | Some ctx \<Rightarrow> (bc_count ctx, fold (\<lambda>i (rows, names). (rows(i := bc_rows ctx i), names(i := bc_name ctx i)))
                                      [0..<nat (bc_count ctx)] out))"

section \<open>Plan cache entries\<close>

record bind_dir =
  bd_next_variant :: int
  bd_resolved :: "bool list"

definition unitseam_xcache_enable :: "bool \<Rightarrow> bool" where "unitseam_xcache_enable is_on = is_on"

definition unitseam_dir_pending :: "bind_dir option \<Rightarrow> int" where
  "unitseam_dir_pending dir =
     (case dir of None \<Rightarrow> - 1
      | Some d \<Rightarrow> fold (\<lambda>i n. n + (if bd_resolved d ! i then 0 else 1)) [0..<nat (bd_next_variant d)] 0)"

section \<open>Late binding\<close>

text \<open>
  \<open>'h\<close> is the private heap; \<open>bind_node\<close> the engine's function, given the zeroed XASL buffer and the
  empty list of deferred errors: its code, the address of the list it leaves and the heap.
\<close>

record deferred_errors =
  df_errors :: "nat option"
  df_count :: int
  df_capacity :: int

definition unitseam_resolve_late_bind_node ::
    "('b \<Rightarrow> deferred_errors \<Rightarrow> (nat \<rightharpoonup> 'b) \<Rightarrow> int \<times> deferred_errors \<times> (nat \<rightharpoonup> 'b)) \<Rightarrow> 'b \<Rightarrow> (nat \<rightharpoonup> 'b) \<Rightarrow> int \<times> (nat \<rightharpoonup> 'b)" where
  "unitseam_resolve_late_bind_node bind_node xasl_zero h =
     (let (err, deferred, h1) = bind_node xasl_zero \<lparr>df_errors = None, df_count = 0, df_capacity = 0\<rparr> h
      in (err, (case df_errors deferred of None \<Rightarrow> h1 | Some p \<Rightarrow> h1(p := None))))"

definition unitseam_resolve_operand :: "('l \<Rightarrow> int \<Rightarrow> 'c \<Rightarrow> int \<Rightarrow> 'o \<Rightarrow> bool \<times> 'o) \<Rightarrow> (nat \<Rightarrow> 'l) \<Rightarrow> nat \<Rightarrow> int \<Rightarrow> 'c \<Rightarrow> int \<Rightarrow> 'o \<Rightarrow> bool \<times> 'o" where
  "unitseam_resolve_operand resolve late_bind_links link arg_index context_of opcode operand =
     resolve (late_bind_links link) arg_index context_of opcode operand"

section \<open>Layouts and cells\<close>

record agg_group_slab =
  sl_block_size :: nat
  sl_off_keyptrs :: nat
  sl_off_keyvals :: nat
  sl_off_value :: nat
  sl_off_accs :: nat
  sl_off_accvals :: nat
  sl_off_tuple :: nat
  sl_inline_cap :: int

definition unitseam_slab_layout :: "agg_group_slab \<Rightarrow> nat \<times> nat \<times> nat \<times> nat \<times> nat \<times> nat \<times> nat \<times> int" where
  "unitseam_slab_layout s = (sl_block_size s, sl_off_keyptrs s, sl_off_keyvals s, sl_off_value s, sl_off_accs s,
     sl_off_accvals s, sl_off_tuple s, sl_inline_cap s)"

datatype cell_type = CELL_ZERO | DB_TYPE_VARCHAR

record cell_col =
  cc_type :: cell_type
  cc_max_bytes :: int
  cc_scratch :: "nat option"
  cc_scratch_set :: "nat option"

definition cell_col_zero :: cell_col where
  "cell_col_zero = \<lparr>cc_type = CELL_ZERO, cc_max_bytes = 0, cc_scratch = None, cc_scratch_set = None\<rparr>"

definition unitseam_eb_str_eq_class :: "(u8 list \<Rightarrow> u8 list \<Rightarrow> bool \<Rightarrow> bool) \<Rightarrow> u8 list \<Rightarrow> u8 list \<Rightarrow> bool \<Rightarrow> bool" where
  "unitseam_eb_str_eq_class eb_str_eq_class a b ti = eb_str_eq_class a b ti"

definition unitseam_eb_str_eq_binary :: "(u8 list \<Rightarrow> u8 list \<Rightarrow> bool) \<Rightarrow> u8 list \<Rightarrow> u8 list \<Rightarrow> bool" where
  "unitseam_eb_str_eq_binary eb_str_eq_binary a b = eb_str_eq_binary a b"

definition unitseam_eb_cell_str_long ::
    "(cell_col \<Rightarrow> int \<Rightarrow> u8 list \<Rightarrow> int \<Rightarrow> 'o \<Rightarrow> int \<times> 'o) \<Rightarrow> int \<Rightarrow> nat option \<Rightarrow> nat option \<Rightarrow> int \<Rightarrow> u8 list \<Rightarrow> int \<Rightarrow> 'o \<Rightarrow> int \<times> 'o" where
  "unitseam_eb_cell_str_long cell_str_long max_bytes scratch scratch_set r d avail out =
     cell_str_long (cell_col_zero\<lparr>cc_type := DB_TYPE_VARCHAR, cc_max_bytes := max_bytes, cc_scratch := scratch,
       cc_scratch_set := scratch_set\<rparr>) r d avail out"

definition unitseam_eb_num_from_disk :: "(u8 list \<Rightarrow> int \<Rightarrow> 'o \<Rightarrow> bool \<times> 'o) \<Rightarrow> u8 list \<Rightarrow> int \<Rightarrow> 'o \<Rightarrow> bool \<times> 'o" where
  "unitseam_eb_num_from_disk eb_num_from_disk disk avail num = eb_num_from_disk disk avail num"

section \<open>Up to the open\<close>

text \<open>A call of the engine returns, or the fake of the open throws; another exception passes through.\<close>

datatype 'a until_open = Open_reached | Returns 'a

definition unitseam_throw_open_reached :: "'a until_open" where "unitseam_throw_open_reached = Open_reached"

definition unitseam_recompile_until_open :: "('s \<Rightarrow> (unit \<times> 's) until_open \<times> 's) \<Rightarrow> 's \<Rightarrow> bool \<times> 's" where
  "unitseam_recompile_until_open recompile session =
     (case recompile session of (Open_reached, s) \<Rightarrow> (True, s) | (Returns _, s) \<Rightarrow> (False, s))"

section \<open>Properties\<close>

lemma repad_ctx_eta [simp]: "\<lparr>rx_type = rx_type c, rx_precision = rx_precision c, rx_codeset = rx_codeset c\<rparr> = c"
  by (cases c) simp

text \<open>
  Handing the context over inside the TU or unpacking it to the test and packing it again is the
  same: on every revision the re-pad through a reader is the re-pad with the context the other hook
  unpacks, and without one the value comes back as it is, reported absent.
\<close>

theorem via_reader_agrees:
  "unitseam_repad_via_reader api reader collation_id v buf =
    (case unitseam_repad_ctx api reader collation_id out of (found, t, precision, codeset) \<Rightarrow>
       if found then unitseam_repad api v t precision codeset buf else (v, buf, False))"
  by (simp add: unitseam_repad_via_reader_def unitseam_via_reader_t_def unitseam_repad_ctx_def unitseam_ctx_t_def
      unitseam_repad_def unitseam_repad_t_def Let_def split: option.split)

lemma fold_copy:
  "fold (\<lambda>i (rows, names). (rows(i := f i), names(i := g i))) [0..<n] (r, s) =
    ((\<lambda>i. if i < n then f i else r i), (\<lambda>i. if i < n then g i else s i))"
  by (induction n) (auto simp: less_Suc_eq)

lemma pending_fold: "fold (\<lambda>i n. n + (if P i then 0 else 1)) [0..<m] k = k + int (card {i. i < m \<and> \<not> P i})"
proof (induction m)
  case (Suc m)
  have "{i. i < Suc m \<and> \<not> P i} = (if P m then {i. i < m \<and> \<not> P i} else insert m {i. i < m \<and> \<not> P i})"
    by (auto simp: less_Suc_eq)
  then show ?case using Suc by simp
qed simp

text \<open>
  The number of pending variants: never negative for an entry that has a directory, so -1 means
  there is none; zero exactly when every variant handed out is resolved; and resolving a pending one
  takes exactly one off.
\<close>

theorem dir_pending_counts:
  assumes "0 \<le> bd_next_variant d" "nat (bd_next_variant d) \<le> length (bd_resolved d)"
  shows "0 \<le> unitseam_dir_pending (Some d) \<and>
    (unitseam_dir_pending (Some d) = 0 \<longleftrightarrow> (\<forall>i < nat (bd_next_variant d). bd_resolved d ! i)) \<and>
    (\<forall>i < nat (bd_next_variant d). \<not> bd_resolved d ! i \<longrightarrow>
       unitseam_dir_pending (Some (d\<lparr>bd_resolved := (bd_resolved d)[i := True]\<rparr>)) = unitseam_dir_pending (Some d) - 1)"
proof -
  obtain m where m: "m = nat (bd_next_variant d)" by blast
  let ?P = "{j. j < m \<and> \<not> bd_resolved d ! j}"
  have cnt: "unitseam_dir_pending (Some d) = int (card ?P)"
    by (simp add: unitseam_dir_pending_def m pending_fold)
  have "unitseam_dir_pending (Some (d\<lparr>bd_resolved := (bd_resolved d)[i := True]\<rparr>)) = int (card ?P) - 1"
    if i: "i < m" "\<not> bd_resolved d ! i" for i
  proof -
    have "{j. j < m \<and> \<not> (bd_resolved d)[i := True] ! j} = ?P - {i}"
      using i assms(2) m by (auto simp: nth_list_update)
    moreover have "i \<in> ?P" "finite ?P" using i by simp_all
    moreover have "card (?P - {i}) = card ?P - 1" using \<open>i \<in> ?P\<close> by (rule card_Diff_singleton)
    moreover have "0 < card ?P" using \<open>i \<in> ?P\<close> \<open>finite ?P\<close> card_gt_0_iff by blast
    ultimately show ?thesis by (simp add: unitseam_dir_pending_def m [symmetric] pending_fold of_nat_diff)
  qed
  then show ?thesis unfolding m [symmetric] cnt by auto
qed

theorem dir_pending_counts_witness:
  "unitseam_dir_pending (Some \<lparr>bd_next_variant = 3, bd_resolved = [True, False, True, False]\<rparr>) \<noteq> 0"
proof -
  obtain d where d: "d = \<lparr>bd_next_variant = 3, bd_resolved = [True, False, True, False]\<rparr>" by blast
  have h: "0 \<le> bd_next_variant d" "nat (bd_next_variant d) \<le> length (bd_resolved d)" by (simp_all add: d)
  have "\<not> (\<forall>i < nat (bd_next_variant d). bd_resolved d ! i)" by (auto simp: d intro!: exI [of _ 1])
  then show ?thesis using dir_pending_counts [OF h] unfolding d by blast
qed

text \<open>
  Binding a node leaks no deferred errors: if all the engine leaves on the heap is the list of
  deferred errors, at a place that was free, then after the hook, with and without errors, the heap is
  as before.
\<close>

theorem late_bind_frees:
  assumes "\<And>x d h err d1 h1. bind_node x d h = (err, d1, h1) \<Longrightarrow>
      (case df_errors d1 of None \<Rightarrow> h1 = h | Some p \<Rightarrow> h p = None \<and> (\<exists>b. h1 = h(p \<mapsto> b)))"
  shows "snd (unitseam_resolve_late_bind_node bind_node xasl_zero h) = h"
proof -
  obtain err d1 h1 where run: "bind_node xasl_zero \<lparr>df_errors = None, df_count = 0, df_capacity = 0\<rparr> h = (err, d1, h1)"
    by (metis prod_cases3)
  show ?thesis using assms [OF run] run
    by (auto simp: unitseam_resolve_late_bind_node_def split: option.splits)
qed

theorem late_bind_frees_witness:
  "snd (unitseam_resolve_late_bind_node (\<lambda>x d h. if h 7 = None then (- 1, d\<lparr>df_errors := Some 7\<rparr>, h(7 \<mapsto> x)) else (0, d\<lparr>df_errors := None\<rparr>, h))
     (0 :: int) Map.empty) = Map.empty"
  by (rule late_bind_frees) (auto split: if_splits option.splits)

end
