(* ===== verification/ForwardHooks.thy ===== *)
theory ForwardHooks
  imports Decimal
begin

text \<open>
  Hooks whose whole body is a call of a file-local function of the engine: the suites
  \<open>compat/db_vdb.bind_variant_key\<close>, \<open>optimizer/histogram_cl.like_bind_term\<close>, \<open>like_fingerprint\<close>,
  \<open>optimizer/query_graph.derived_term_pairing\<close>, \<open>join_snapshot_selectivity\<close>,
  \<open>query/bind_variant.distance\<close>, \<open>query/domain_resolve.compare_collation\<close>,
  \<open>query/expr_compile.arith_kernels\<close>, \<open>generic_step\<close>, \<open>runs_walker\<close>,
  \<open>storage/btree.range_scan_start_restart\<close> and \<open>transaction/locator_sr.check_foreign_key\<close>. The engine
  function is the first argument; what it changes is a state it returns (\<open>'w\<close>).

  Two of the suites put something around the call that can be wrong: the fake prepare that names a cache
  entry by the key on the statement (\<open>bind_variant_key\<close>), and the scripted advance with the loop of
  starts (\<open>range_scan_start_restart\<close>). They are modelled with what they promise.
\<close>

section \<open>The hooks\<close>

subsection \<open>Bind variants\<close>

definition unitseam_vdb_switch ::
    "('p \<Rightarrow> 'st \<Rightarrow> 'ws \<Rightarrow> int \<Rightarrow> bool \<Rightarrow> 'w \<Rightarrow> int \<times> 'w) \<Rightarrow> 'p \<Rightarrow> 'st \<Rightarrow> 'ws \<Rightarrow> int \<Rightarrow> bool \<Rightarrow> 'w \<Rightarrow> int \<times> 'w" where
  "unitseam_vdb_switch db_bind_variant_switch parser statement ws variant compile w =
     db_bind_variant_switch parser statement ws variant compile w"

definition unitseam_vdb_step :: "('p \<Rightarrow> 'st \<Rightarrow> 'w \<Rightarrow> int \<times> 'w) \<Rightarrow> 'p \<Rightarrow> 'st \<Rightarrow> 'w \<Rightarrow> int \<times> 'w" where
  "unitseam_vdb_step db_bind_variant_step parser statement w = db_bind_variant_step parser statement w"

text \<open>A statement without a slot for the key has none, like one whose slot is empty.\<close>

definition unitseam_vdb_key :: "('st \<Rightarrow> string option option) \<Rightarrow> 'st \<Rightarrow> string option" where
  "unitseam_vdb_key db_stmt_bind_variant_key_ptr statement =
     (case db_stmt_bind_variant_key_ptr statement of None \<Rightarrow> None | Some p \<Rightarrow> p)"

definition unitseam_vdb_rebase ::
    "('p \<Rightarrow> 'st \<Rightarrow> 'ws \<Rightarrow> 'w \<Rightarrow> int \<times> 'w) \<Rightarrow> 'p \<Rightarrow> 'st \<Rightarrow> 'ws \<Rightarrow> 'w \<Rightarrow> int \<times> 'w" where
  "unitseam_vdb_rebase db_bind_variant_rebase parser statement ws w = db_bind_variant_rebase parser statement ws w"

definition unitseam_bv_tu_distance :: "('f \<Rightarrow> 'f \<Rightarrow> 'r \<Rightarrow> 'r) \<Rightarrow> 'f \<Rightarrow> 'f \<Rightarrow> 'r \<Rightarrow> 'r" where
  "unitseam_bv_tu_distance bind_fingerprint_distance a b row_floor = bind_fingerprint_distance a b row_floor"

definition unitseam_bv_tu_known :: "('f \<Rightarrow> bool) \<Rightarrow> 'f \<Rightarrow> bool" where
  "unitseam_bv_tu_known bind_fingerprint_known fp = bind_fingerprint_known fp"

text \<open>\<open>out_dist\<close>: what the output held, \<open>None\<close> when the caller passes no place for it.\<close>

definition unitseam_bv_tu_nearest ::
    "('rec list \<Rightarrow> int \<Rightarrow> 'f \<Rightarrow> 'r \<Rightarrow> 'r option \<Rightarrow> int \<times> 'r option) \<Rightarrow> 'rec list \<Rightarrow> int \<Rightarrow> 'f \<Rightarrow> 'r \<Rightarrow> 'r option \<Rightarrow> int \<times> 'r option" where
  "unitseam_bv_tu_nearest bind_variant_nearest records n_records fp row_floor out_dist =
     bind_variant_nearest records n_records fp row_floor out_dist"

subsection \<open>Histograms and the query graph\<close>

text \<open>The split answers with its two outputs and the flag.\<close>

definition like_term_split_hv_predicate ::
    "('p \<Rightarrow> 'n \<Rightarrow> bool \<times> 'n option \<times> 'n option \<times> bool) \<Rightarrow> 'p \<Rightarrow> 'n \<Rightarrow> bool \<times> 'n option \<times> 'n option \<times> bool" where
  "like_term_split_hv_predicate histogram_split_hv_predicate parser node = histogram_split_hv_predicate parser node"

definition like_fp_split_hv_predicate ::
    "('p \<Rightarrow> 'n \<Rightarrow> bool \<times> 'n option \<times> 'n option \<times> bool) \<Rightarrow> 'p \<Rightarrow> 'n \<Rightarrow> bool \<times> 'n option \<times> 'n option \<times> bool" where
  "like_fp_split_hv_predicate histogram_split_hv_predicate parser node = histogram_split_hv_predicate parser node"

text \<open>The ambient context of the fingerprint walk: two file-local pointers.\<close>

record ('p, 'n) fp_active =
  bind_fp_active_parser :: "'p option"
  bind_fp_active_statement :: "'n option"

definition unitseam_fp_active_parser :: "('p, 'n) fp_active \<Rightarrow> 'p option" where
  "unitseam_fp_active_parser statics = bind_fp_active_parser statics"

definition unitseam_fp_active_statement :: "('p, 'n) fp_active \<Rightarrow> 'n option" where
  "unitseam_fp_active_statement statics = bind_fp_active_statement statics"

definition unitseam_derived_compensate :: "('env \<Rightarrow> 'env) \<Rightarrow> 'env \<Rightarrow> 'env" where
  "unitseam_derived_compensate qo_derived_term_compensate env = qo_derived_term_compensate env"

definition unitseam_snap_threshold :: "int \<Rightarrow> int" where
  "unitseam_snap_threshold qo_snapshot_threshold = qo_snapshot_threshold"

definition unitseam_snap_const_value :: "('env \<Rightarrow> 'n \<Rightarrow> 'v option) \<Rightarrow> 'env \<Rightarrow> 'n \<Rightarrow> 'v option" where
  "unitseam_snap_const_value qo_snapshot_const_value env node = qo_snapshot_const_value env node"

definition unitseam_snap_sarg_matches ::
    "('env \<Rightarrow> 'n \<Rightarrow> 't \<Rightarrow> 'o \<Rightarrow> int) \<Rightarrow> 'env \<Rightarrow> 'n \<Rightarrow> 't \<Rightarrow> 'o \<Rightarrow> int" where
  "unitseam_snap_sarg_matches qo_snapshot_sarg_matches env node sarg obj = qo_snapshot_sarg_matches env node sarg obj"

definition unitseam_snap_apply :: "('env \<Rightarrow> 'env) \<Rightarrow> 'env \<Rightarrow> 'env" where
  "unitseam_snap_apply qo_snapshot_apply env = qo_snapshot_apply env"

subsection \<open>Expressions, domains, scans and foreign keys\<close>

definition unitseam_compute_comparison :: "('k \<Rightarrow> 'k \<Rightarrow> 'c \<Rightarrow> int \<times> 'c) \<Rightarrow> 'k \<Rightarrow> 'k \<Rightarrow> 'c \<Rightarrow> int \<times> 'c" where
  "unitseam_compute_comparison domain_compute_comparison lhs rhs result = domain_compute_comparison lhs rhs result"

definition unitseam_compare_equal :: "('c \<Rightarrow> 'c \<Rightarrow> bool) \<Rightarrow> 'c \<Rightarrow> 'c \<Rightarrow> bool" where
  "unitseam_compare_equal domain_compare_equal a b = domain_compare_equal a b"

text \<open>The numbers are cast to the enumerations of operators and types; two suites have the same two hooks.\<close>

definition unitseam_arith_kernel ::
    "('op \<Rightarrow> 'ty \<Rightarrow> bool \<Rightarrow> 'k option) \<Rightarrow> (int \<Rightarrow> 'op) \<Rightarrow> (int \<Rightarrow> 'ty) \<Rightarrow> int \<Rightarrow> int \<Rightarrow> bool \<Rightarrow> 'k option" where
  "unitseam_arith_kernel expr_arith_kernel as_operator as_db_type opcode type numeric_pure =
     expr_arith_kernel (as_operator opcode) (as_db_type type) numeric_pure"

definition unitseam_kernel_name :: "('k option \<Rightarrow> string) \<Rightarrow> 'k option \<Rightarrow> string" where
  "unitseam_kernel_name expr_kernel_name fn = expr_kernel_name fn"

definition step_arith_kernel ::
    "('op \<Rightarrow> 'ty \<Rightarrow> bool \<Rightarrow> 'k option) \<Rightarrow> (int \<Rightarrow> 'op) \<Rightarrow> (int \<Rightarrow> 'ty) \<Rightarrow> int \<Rightarrow> int \<Rightarrow> bool \<Rightarrow> 'k option" where
  "step_arith_kernel expr_arith_kernel as_operator as_db_type opcode type numeric_pure =
     expr_arith_kernel (as_operator opcode) (as_db_type type) numeric_pure"

definition step_kernel_name :: "('k option \<Rightarrow> string) \<Rightarrow> 'k option \<Rightarrow> string" where
  "step_kernel_name expr_kernel_name fn = expr_kernel_name fn"

datatype expr_runs = EXPR_RUNS_SIDE_EFFECT | EXPR_RUNS_QUERY

definition unitseam_regu_runs_query :: "('r \<Rightarrow> expr_runs \<Rightarrow> bool) \<Rightarrow> 'r \<Rightarrow> bool" where
  "unitseam_regu_runs_query expr_regu_runs regu = expr_regu_runs regu EXPR_RUNS_QUERY"

definition unitseam_regu_runs_side_effect :: "('r \<Rightarrow> expr_runs \<Rightarrow> bool) \<Rightarrow> 'r \<Rightarrow> bool" where
  "unitseam_regu_runs_side_effect expr_regu_runs regu = expr_regu_runs regu EXPR_RUNS_SIDE_EFFECT"

definition unitseam_pred_runs_query :: "('pr \<Rightarrow> expr_runs \<Rightarrow> bool) \<Rightarrow> 'pr \<Rightarrow> bool" where
  "unitseam_pred_runs_query expr_pred_runs pr = expr_pred_runs pr EXPR_RUNS_QUERY"

definition unitseam_pred_runs_side_effect :: "('pr \<Rightarrow> expr_runs \<Rightarrow> bool) \<Rightarrow> 'pr \<Rightarrow> bool" where
  "unitseam_pred_runs_side_effect expr_pred_runs pr = expr_pred_runs pr EXPR_RUNS_SIDE_EFFECT"

definition unitseam_range_scan_start :: "('t \<Rightarrow> 'b \<Rightarrow> int \<times> 'b) \<Rightarrow> 't \<Rightarrow> 'b \<Rightarrow> int \<times> 'b" where
  "unitseam_range_scan_start btree_range_scan_start thread_p bts = btree_range_scan_start thread_p bts"

definition unitseam_locator_check_foreign_key ::
    "('t \<Rightarrow> 'h \<Rightarrow> 'oid \<Rightarrow> 'oid \<Rightarrow> 'rd \<Rightarrow> 'rd \<Rightarrow> bool \<Rightarrow> 'ca \<Rightarrow> 'w \<Rightarrow> int \<times> 'w)
      \<Rightarrow> 't \<Rightarrow> 'h \<Rightarrow> 'oid \<Rightarrow> 'oid \<Rightarrow> 'rd \<Rightarrow> 'rd \<Rightarrow> bool \<Rightarrow> 'ca \<Rightarrow> 'w \<Rightarrow> int \<times> 'w" where
  "unitseam_locator_check_foreign_key locator_check_foreign_key
       thread_p hfid class_oid inst_oid recdes new_recdes is_cached copyarea w =
     locator_check_foreign_key thread_p hfid class_oid inst_oid recdes new_recdes is_cached copyarea w"

definition unitseam_rtf_max_keys :: "int \<Rightarrow> int" where
  "unitseam_rtf_max_keys HJOIN_RTF_MAX_KEYS = HJOIN_RTF_MAX_KEYS"

section \<open>The key of a variant\<close>

text \<open>
  \<open>%d\<close> prints an integer as \<open>to_string\<close> does, \<open>%06d\<close> fills it with zeros to six characters; the
  text goes into a buffer of 96 bytes with its end mark.
\<close>

definition pad06 :: "int \<Rightarrow> string" where
  "pad06 i =
     (let sign = (if i < 0 then ''-'' else []); digits = dec_of_nat (nat \<bar>i\<bar>)
      in sign @ replicate (6 - length sign - length digits) (CHR ''0'') @ digits)"

definition key_text :: "int \<Rightarrow> int \<Rightarrow> int \<Rightarrow> string" where
  "key_text sec usec variant =
     take 95 ('' /* bind variant '' @ to_string sec @ ''.'' @ pad06 usec @ '' #'' @ to_string variant @ '' */'')"

text \<open>The C library: the rest of a string from the last place of a character on; the number a string starts with.\<close>

fun strrchr :: "char \<Rightarrow> string \<Rightarrow> string option" where
  "strrchr c [] = None"
| "strrchr c (x # xs) = (case strrchr c xs of Some r \<Rightarrow> Some r | None \<Rightarrow> if x = c then Some (x # xs) else None)"

definition is_space :: "char \<Rightarrow> bool" where
  "is_space c \<longleftrightarrow> c \<in> set [CHR '' '', CHR 0x09, CHR 0x0A, CHR 0x0B, CHR 0x0C, CHR 0x0D]"

definition atoi :: "string \<Rightarrow> int" where
  "atoi s =
     (let t = dropWhile is_space s; num = (\<lambda>r. int (dec_num (takeWhile is_digit r)))
      in case t of [] \<Rightarrow> 0
         | c # r \<Rightarrow> if c = CHR ''-'' then - num r else if c = CHR ''+'' then num r else num t)"

text \<open>The parser's strings: every one handed out, and the bytes they take.\<close>

record vdb_world =
  g_arena :: "string list"
  g_arena_bytes :: nat
  g_replans :: int
  g_generation :: int
  g_replan_error :: int

definition pt_append_string :: "string option \<Rightarrow> string option \<Rightarrow> vdb_world \<Rightarrow> string option \<times> vdb_world" where
  "pt_append_string old_string new_tail w =
     (case new_tail of None \<Rightarrow> (old_string, w)
      | Some t \<Rightarrow>
          (let s = (case old_string of None \<Rightarrow> [] | Some old \<Rightarrow> old) @ t
           in (Some s, w\<lparr>g_arena := g_arena w @ [s], g_arena_bytes := g_arena_bytes w + length s + 1\<rparr>)))"

definition arena_reset :: "vdb_world \<Rightarrow> vdb_world" where
  "arena_reset w = \<lparr>g_arena = [], g_arena_bytes = 0, g_replans = 0, g_generation = 0, g_replan_error = 0\<rparr>"

text \<open>A statement: the time its plan was stored at (seconds, microseconds), and the slot of its key.\<close>

record vdb_stmt =
  vs_xasl_id :: "(int \<times> int) option"
  vs_key_slot :: "string option option"

definition pt_free_statement_xasl_id :: "vdb_stmt \<Rightarrow> vdb_stmt" where
  "pt_free_statement_xasl_id st = (if vs_xasl_id st \<noteq> None then st\<lparr>vs_xasl_id := None\<rparr> else st)"

definition do_replan_statement_internal :: "vdb_stmt \<Rightarrow> vdb_world \<Rightarrow> int \<times> vdb_stmt \<times> vdb_world" where
  "do_replan_statement_internal statement w =
     (let w = w\<lparr>g_replans := g_replans w + 1\<rparr>;
          statement = (if vs_xasl_id statement \<noteq> None then pt_free_statement_xasl_id statement else statement)
      in if g_replan_error w \<noteq> 0
         then (g_replan_error w, statement, w\<lparr>g_replan_error := 0\<rparr>)
         else (let variant = (case unitseam_vdb_key vs_key_slot statement of None \<Rightarrow> - 1
                              | Some key \<Rightarrow> (case strrchr (CHR ''#'') key of None \<Rightarrow> - 1 | Some h \<Rightarrow> atoi (tl h)))
               in (0, statement\<lparr>vs_xasl_id := Some (1760000000 + g_generation w, 123456 + 1 + variant)\<rparr>, w)))"

lemma strrchr_absent: "c \<notin> set xs \<Longrightarrow> strrchr c xs = None"
  by (induction xs) auto

lemma strrchr_last: "c \<notin> set ys \<Longrightarrow> strrchr c (xs @ c # ys) = Some (c # ys)"
  by (induction xs) (auto simp: strrchr_absent)

lemma dec_of_nat_digits: "is_dec (dec_of_nat n)" "dec_of_nat n \<noteq> []" "dec_num (dec_of_nat n) = n"
  using dec_of_nat_num [of n] by (auto simp: canon_def)

lemma dec_of_nat_length:
  assumes "n < 10 ^ k" "0 < k"
  shows "length (dec_of_nat n) \<le> k"
proof (rule ccontr)
  assume "\<not> length (dec_of_nat n) \<le> k"
  then have l: "k \<le> length (dec_of_nat n) - 1" "dec_of_nat n \<noteq> ''0''" using assms(2) by auto
  have "(10::nat) ^ k \<le> 10 ^ (length (dec_of_nat n) - 1)" using l by simp
  also have "\<dots> \<le> dec_num (dec_of_nat n)" using canon_lower l(2) dec_of_nat_num by blast
  finally show False using assms(1) by (simp add: dec_of_nat_digits)
qed

lemma is_digit_not_marks: "is_digit c \<Longrightarrow> c \<noteq> CHR ''#'' \<and> c \<noteq> CHR ''-'' \<and> c \<noteq> CHR ''+'' \<and> \<not> is_space c"
  by (auto simp: is_digit_def digit_def char_val_def Let_def is_space_def)

lemma atoi_of_nat:
  assumes "cs = [] \<or> \<not> is_digit (hd cs)"
  shows "atoi (dec_of_nat n @ cs) = int n"
    and "atoi (CHR ''-'' # dec_of_nat n @ cs) = - int n"
proof -
  have t: "takeWhile is_digit (dec_of_nat n @ cs) = dec_of_nat n"
    using dec_of_nat_digits(1) [of n] assms
    by (cases cs) (auto simp: is_dec_def list_all_iff takeWhile_append)
  obtain d ds where d: "dec_of_nat n = d # ds" "is_digit d"
    using dec_of_nat_digits(1,2) [of n] by (cases "dec_of_nat n") (auto simp: is_dec_def)
  have "dropWhile is_space (dec_of_nat n @ cs) = dec_of_nat n @ cs"
    using is_digit_not_marks [OF d(2)] by (simp add: d(1))
  then show "atoi (dec_of_nat n @ cs) = int n"
    using is_digit_not_marks [OF d(2)] t dec_of_nat_digits(3) [of n] by (simp add: atoi_def Let_def d(1))
  have "\<not> is_space (CHR ''-'')" by (simp add: is_space_def)
  then show "atoi (CHR ''-'' # dec_of_nat n @ cs) = - int n"
    using t dec_of_nat_digits(3) [of n] by (simp add: atoi_def Let_def)
qed

lemma to_string_facts:
  "CHR ''#'' \<notin> set (to_string i)"
  "cs = [] \<or> \<not> is_digit (hd cs) \<Longrightarrow> atoi (to_string i @ cs) = i"
  "\<bar>i\<bar> < 10 ^ k \<Longrightarrow> 0 < k \<Longrightarrow> length (to_string i) \<le> Suc k"
proof -
  have d: "CHR ''#'' \<notin> set (dec_of_nat n)" for n
    using dec_of_nat_digits(1) [of n] is_digit_not_marks by (fastforce simp: is_dec_def list_all_iff)
  show "CHR ''#'' \<notin> set (to_string i)" using d by (simp add: to_string_def)
  show "cs = [] \<or> \<not> is_digit (hd cs) \<Longrightarrow> atoi (to_string i @ cs) = i"
    by (simp add: to_string_def atoi_of_nat)
  assume b: "\<bar>i\<bar> < 10 ^ k" "0 < k"
  then have "nat \<bar>i\<bar> < 10 ^ k" by (simp add: nat_less_iff)
  then have "length (dec_of_nat (nat \<bar>i\<bar>)) \<le> k" by (rule dec_of_nat_length [OF _ b(2)])
  then show "length (to_string i) \<le> Suc k" by (auto simp: to_string_def)
qed

lemma pad06_length: "\<bar>i\<bar> < 10 ^ 10 \<Longrightarrow> length (pad06 i) \<le> 11"
  using dec_of_nat_length [of "nat \<bar>i\<bar>" 10] by (auto simp: pad06_def Let_def nat_less_iff abs_if split: if_splits)

text \<open>
  C36. The prepare reads the variant back from the key the engine prints: it leaves the statement with
  the entry of that variant and that generation, one entry per variant, after one more round trip; an
  injected error is given back once and leaves the statement without a plan.
\<close>

theorem variant_key_roundtrip:
  assumes "\<bar>sec\<bar> < 2 ^ 31" "\<bar>usec\<bar> < 2 ^ 31" "\<bar>variant\<bar> < 2 ^ 31"
  shows "do_replan_statement_internal (st\<lparr>vs_key_slot := Some (Some (key_text sec usec variant))\<rparr>) w =
    (g_replan_error w,
     st\<lparr>vs_xasl_id := (if g_replan_error w = 0 then Some (1760000000 + g_generation w, 123457 + variant) else None),
        vs_key_slot := Some (Some (key_text sec usec variant))\<rparr>,
     w\<lparr>g_replans := g_replans w + 1, g_replan_error := 0\<rparr>)"
proof -
  have b: "\<bar>sec\<bar> < 10 ^ 10" "\<bar>usec\<bar> < 10 ^ 10" "\<bar>variant\<bar> < 10 ^ 10" using assms by simp_all
  let ?pre = "'' /* bind variant '' @ to_string sec @ ''.'' @ pad06 usec @ '' ''"
  let ?post = "to_string variant @ '' */''"
  have "length ?pre + length ?post \<le> 17 + 11 + 1 + 11 + 1 + 11 + 3"
    using to_string_facts(3) [OF b(1)] pad06_length [OF b(2)] to_string_facts(3) [OF b(3)] by simp
  then have key: "key_text sec usec variant = ?pre @ CHR ''#'' # ?post"
    by (simp add: key_text_def)
  have "CHR ''#'' \<notin> set ?post" using to_string_facts(1) by simp
  then have "strrchr (CHR ''#'') (key_text sec usec variant) = Some (CHR ''#'' # ?post)"
    unfolding key by (rule strrchr_last)
  moreover have "atoi ?post = variant"
    by (rule to_string_facts(2)) (simp add: is_digit_def digit_def char_val_def)
  ultimately show ?thesis
    by (cases st; cases w)
      (simp add: do_replan_statement_internal_def unitseam_vdb_key_def pt_free_statement_xasl_id_def Let_def
        del: not_None_eq)
qed

theorem variant_key_roundtrip_witness:
  "do_replan_statement_internal
     \<lparr>vs_xasl_id = Some (1760000000, 123456), vs_key_slot = Some (Some (key_text 1760000000 123456 1))\<rparr>
     \<lparr>g_arena = [], g_arena_bytes = 0, g_replans = 4, g_generation = 1, g_replan_error = 0\<rparr> =
   (0, \<lparr>vs_xasl_id = Some (1760000001, 123458), vs_key_slot = Some (Some (key_text 1760000000 123456 1))\<rparr>,
    \<lparr>g_arena = [], g_arena_bytes = 0, g_replans = 5, g_generation = 1, g_replan_error = 0\<rparr>)"
  using variant_key_roundtrip [of 1760000000 123456 1
      "\<lparr>vs_xasl_id = Some (1760000000, 123456), vs_key_slot = None\<rparr>"
      "\<lparr>g_arena = [], g_arena_bytes = 0, g_replans = 4, g_generation = 1, g_replan_error = 0\<rparr>"]
  by simp

section \<open>Starting a range scan over\<close>

text \<open>The members the suite sets and reads, and its fakes: the calls, the script and its step, the flags seen.\<close>

record bts =
  force_restart_from_root :: bool
  is_scan_started :: bool

record scan_fakes =
  g_find_calls :: int
  g_script :: "int list"
  g_step :: nat
  g_flag_seen :: "int list"

definition btree_find_lower_bound_leaf :: "scan_fakes \<Rightarrow> int \<times> scan_fakes" where
  "btree_find_lower_bound_leaf f = (0, f\<lparr>g_find_calls := g_find_calls f + 1\<rparr>)"

definition btree_range_scan_advance_over_filtered_keys :: "bts \<times> scan_fakes \<Rightarrow> int \<times> bts \<times> scan_fakes" where
  "btree_range_scan_advance_over_filtered_keys s =
     (case s of (b, f) \<Rightarrow>
        (let f = f\<lparr>g_flag_seen := g_flag_seen f @ [if force_restart_from_root b then 1 else 0]\<rparr>;
             what = (if g_step f < length (g_script f) then g_script f ! g_step f else 0);
             f = f\<lparr>g_step := g_step f + 1\<rparr>
         in (0, if what = 1 then b\<lparr>force_restart_from_root := True\<rparr> else b, f)))"

definition mk_bts :: "bool \<Rightarrow> bts" where
  "mk_bts restart_pending = \<lparr>force_restart_from_root = restart_pending, is_scan_started = False\<rparr>"

definition scan_reset :: "int list \<Rightarrow> scan_fakes" where
  "scan_reset script = \<lparr>g_find_calls = 0, g_script = script, g_step = 0, g_flag_seen = []\<rparr>"

text \<open>
  The loop of starts, as the caller of the engine does it, bounded at ten; \<open>None\<close> when a start fails.
\<close>

function starts_loop ::
    "('t \<Rightarrow> bts \<times> scan_fakes \<Rightarrow> int \<times> bts \<times> scan_fakes) \<Rightarrow> 't \<Rightarrow> bts \<times> scan_fakes \<Rightarrow> nat
      \<Rightarrow> (nat \<times> bts \<times> scan_fakes) option" where
  "starts_loop btree_range_scan_start thread_p s starts =
     (case unitseam_range_scan_start btree_range_scan_start thread_p s of (e, s') \<Rightarrow>
        if e \<noteq> 0 then None
        else if force_restart_from_root (fst s') \<and> \<not> is_scan_started (fst s') \<and> Suc starts < 10
        then starts_loop btree_range_scan_start thread_p s' (Suc starts)
        else Some (Suc starts, s'))"
  by pat_completeness auto
termination by (relation "measure (\<lambda>(btree_range_scan_start, thread_p, s, starts). 10 - starts)") auto

declare starts_loop.simps [simp del]

text \<open>
  What the suite's header says of a start of the engine: it locates from the root with the request
  cleared, advances to its first key, and returns; the scan is started unless the advance raised a restart.
\<close>

definition start_contract :: "('t \<Rightarrow> bts \<times> scan_fakes \<Rightarrow> int \<times> bts \<times> scan_fakes) \<Rightarrow> bool" where
  "start_contract start \<longleftrightarrow>
     (\<forall>t b f. start t (b, f) =
        (case btree_range_scan_advance_over_filtered_keys
                (b\<lparr>force_restart_from_root := False\<rparr>, snd (btree_find_lower_bound_leaf f)) of (e, b', f') \<Rightarrow>
           (0, if force_restart_from_root b' then b' else b'\<lparr>is_scan_started := True\<rparr>, f')))"

lemma one_start:
  assumes "start_contract start" "\<not> is_scan_started b" "g_step f = n" "script = replicate k 1 @ rest"
    "rest = [] \<or> hd rest \<noteq> 1" "g_script f = script" "n \<le> k"
  shows "unitseam_range_scan_start start t (b, f) =
    (0, \<lparr>force_restart_from_root = n < k, is_scan_started = (n = k)\<rparr>,
     f\<lparr>g_find_calls := g_find_calls f + 1, g_flag_seen := g_flag_seen f @ [0], g_step := Suc n\<rparr>)"
proof -
  have "(if n < length script then script ! n else 0) = 1 \<longleftrightarrow> n < k"
    using assms(4,5,7) by (cases rest) (auto simp: nth_append)
  then show ?thesis
    using assms by (cases b; cases f) (auto simp: unitseam_range_scan_start_def start_contract_def Let_def
        btree_range_scan_advance_over_filtered_keys_def btree_find_lower_bound_leaf_def)
qed

lemma starts_from:
  assumes "start_contract start" "script = replicate k 1 @ rest" "rest = [] \<or> hd rest \<noteq> 1"
  shows "n \<le> k \<Longrightarrow> n < 10 \<Longrightarrow> \<not> is_scan_started b \<Longrightarrow>
    starts_loop start t (b, \<lparr>g_find_calls = int n, g_script = script, g_step = n, g_flag_seen = replicate n 0\<rparr>) n =
      Some (min (Suc k) 10, \<lparr>force_restart_from_root = 10 \<le> k, is_scan_started = k < 10\<rparr>,
        \<lparr>g_find_calls = int (min (Suc k) 10), g_script = script, g_step = min (Suc k) 10,
          g_flag_seen = replicate (min (Suc k) 10) 0\<rparr>)"
proof (induction "10 - n" arbitrary: n b)
  case (Suc d)
  let ?f = "\<lparr>g_find_calls = int n, g_script = script, g_step = n, g_flag_seen = replicate n (0::int)\<rparr>"
  have start: "unitseam_range_scan_start start t (b, ?f) =
    (0, \<lparr>force_restart_from_root = n < k, is_scan_started = (n = k)\<rparr>,
      \<lparr>g_find_calls = int (Suc n), g_script = script, g_step = Suc n, g_flag_seen = replicate (Suc n) 0\<rparr>)"
    using one_start [OF assms(1) Suc.prems(3) _ assms(2,3) _ Suc.prems(1), of ?f t]
    by (simp add: replicate_append_same)
  show ?case
  proof (cases "n < k \<and> Suc n < 10")
    case True
    then show ?thesis
      using Suc.hyps(1) [of "Suc n" "\<lparr>force_restart_from_root = n < k, is_scan_started = (n = k)\<rparr>"] Suc.hyps(2)
      by (subst starts_loop.simps) (simp add: start)
  next
    case False
    then have "n = k \<or> n = 9 \<and> 10 \<le> k" using Suc.prems by auto
    then show ?thesis using Suc.prems
      by (subst starts_loop.simps) (auto simp: start min_def simp flip: replicate_Suc)
  qed
qed simp

text \<open>
  C25. Over an engine whose start clears a request left set, the loop of starts ends: after k restarts it
  is the start k + 1 that starts the scan with the request down, from the tenth restart on the bound
  stops the loop with the request up; every advance found the request down, one search from the root each.
\<close>

theorem starts_end:
  assumes "start_contract btree_range_scan_start" "rest = [] \<or> hd rest \<noteq> 1"
  shows "starts_loop btree_range_scan_start t (mk_bts pending, scan_reset (replicate k 1 @ rest)) 0 =
    Some (min (Suc k) 10, \<lparr>force_restart_from_root = 10 \<le> k, is_scan_started = k < 10\<rparr>,
      \<lparr>g_find_calls = int (min (Suc k) 10), g_script = replicate k 1 @ rest, g_step = min (Suc k) 10,
        g_flag_seen = replicate (min (Suc k) 10) 0\<rparr>)"
  using starts_from [OF assms(1) refl assms(2), of 0 k "mk_bts pending" t]
  by (simp add: scan_reset_def mk_bts_def)

text \<open>A start that keeps the contract.\<close>

definition a_start :: "unit \<Rightarrow> bts \<times> scan_fakes \<Rightarrow> int \<times> bts \<times> scan_fakes" where
  "a_start t s =
     (case btree_range_scan_advance_over_filtered_keys
             ((fst s)\<lparr>force_restart_from_root := False\<rparr>, snd (btree_find_lower_bound_leaf (snd s))) of (e, b', f') \<Rightarrow>
        (0, if force_restart_from_root b' then b' else b'\<lparr>is_scan_started := True\<rparr>, f'))"

theorem starts_end_witness:
  "starts_loop a_start () (mk_bts True, scan_reset [1, 0]) 0 =
    Some (2, \<lparr>force_restart_from_root = False, is_scan_started = True\<rparr>,
      \<lparr>g_find_calls = 2, g_script = [1, 0], g_step = 2, g_flag_seen = [0, 0]\<rparr>)"
proof -
  have "start_contract a_start" by (simp add: start_contract_def a_start_def)
  from starts_end [OF this, where rest = "[0]" and k = 1 and t = "()" and pending = True]
  show ?thesis by (simp add: numeral_2_eq_2)
qed

end
