(* ===== verification/CellKernels.thy ===== *)
theory CellKernels
  imports Prelude WalkHooks
begin

unbundle bit_operations_syntax

text \<open>
  The reference models of unit/query/expr_batch.cell_kernels/test.cpp: the two string equalities the
  collations give, the length-first variant of review A-07 over raw pointers, the enumeration of
  short strings, the suite that compares the kernels with the models, the NUMERIC cells as they lie
  on disk, and the suite that compares the two readers of such a cell.

  What is shown: each model is equality of a normal form (spaces read as zero, trailing zeros
  dropped), so it is an equivalence; the length-first variant reads no byte outside its operands and
  gives the model's answer for every pair of strings; the suite meets every string of length 0 to 4
  once and passes exactly when the kernels decide the normal form there; a NUMERIC cell says the size,
  the signs and the scale it was made with.
\<close>

type_synonym bytes = "u8 list"

section \<open>Strings as the collations see them\<close>

definition space_class :: "u8 \<Rightarrow> bool" where
  "space_class c = (c = 0x20 \<or> c = 0)"

text \<open>A \<open>for\<close> loop that returns false at the first index that fails.\<close>

definition each_in :: "nat \<Rightarrow> nat \<Rightarrow> (nat \<Rightarrow> bool) \<Rightarrow> bool" where
  "each_in i n f = list_all f [i..<n]"

lemma each_in_iff [simp]: "each_in i n f \<longleftrightarrow> (\<forall>k. i \<le> k \<and> k < n \<longrightarrow> f k)"
  by (auto simp: each_in_def list_all_iff)

definition ref_eq_class :: "bytes \<Rightarrow> bytes \<Rightarrow> bool \<Rightarrow> bool" where
  "ref_eq_class a b ti =
     (let n = min (length a) (length b)
      in if \<not> each_in 0 n (\<lambda>i. (if a ! i = 0x20 then 0 else a ! i) = (if b ! i = 0x20 then 0 else b ! i)) then False
         else if length a = length b then True
         else if \<not> ti then False
         else let l = (if length b < length a then a else b) in each_in n (length l) (\<lambda>i. space_class (l ! i)))"

definition ref_eq_binary :: "bytes \<Rightarrow> bytes \<Rightarrow> bool" where
  "ref_eq_binary a b =
     (let n = min (length a) (length b)
      in if take n a \<noteq> take n b then False
         else let l = (if length b < length a then a else b) in each_in n (length l) (\<lambda>i. l ! i = 0))"

subsection \<open>The normal form\<close>

text \<open>
  The specification: a space reads as zero, and trailing zeros do not count. \<open>padded\<close> is the
  string as it would be compared if the shorter one were filled with zeros.
\<close>

definition zero_space :: "u8 \<Rightarrow> u8" where
  "zero_space c = (if c = 0x20 then 0 else c)"

definition padded :: "bytes \<Rightarrow> nat \<Rightarrow> u8" where
  "padded s i = (if i < length s then s ! i else 0)"

definition no_tail :: "bytes \<Rightarrow> bytes" where
  "no_tail s = rev (dropWhile (\<lambda>c. c = 0) (rev s))"

lemma zero_space_0 [simp]: "zero_space c = 0 \<longleftrightarrow> space_class c"
  by (auto simp: zero_space_def space_class_def)

lemma no_tail_snoc [simp]: "no_tail (s @ [c]) = (if c = 0 then no_tail s else s @ [c])"
  by (simp add: no_tail_def)

lemma no_tail_Nil [simp]: "no_tail [] = []"
  by (simp add: no_tail_def)

lemma padded_snoc_0: "padded (s @ [0]) = padded s"
  by (auto simp: padded_def nth_append fun_eq_iff)

lemma padded_no_tail: "padded (no_tail s) = padded s"
  by (induction s rule: rev_induct) (simp_all add: padded_snoc_0)

lemma no_tail_last: "no_tail s \<noteq> [] \<Longrightarrow> last (no_tail s) \<noteq> 0"
  by (induction s rule: rev_induct) (simp_all split: if_splits)

lemma padded_inj:
  assumes "padded a = padded b" "a \<noteq> [] \<Longrightarrow> last a \<noteq> 0" "b \<noteq> [] \<Longrightarrow> last b \<noteq> 0"
  shows "a = b"
proof -
  have short: "\<not> length x < length y"
    if "padded x = padded y" "y \<noteq> [] \<Longrightarrow> last y \<noteq> 0" for x y :: bytes
  proof
    assume l: "length x < length y"
    then have "y \<noteq> []" by auto
    then have "padded y (length y - 1) \<noteq> 0" using that(2) by (simp add: padded_def last_conv_nth)
    moreover have "\<not> length y - 1 < length x" using l by linarith
    then have "padded x (length y - 1) = 0" by (simp only: padded_def if_False)
    ultimately show False using that(1) by simp
  qed
  have len: "length a = length b" using short [of a b] short [of b a] assms by (metis linorder_neqE_nat)
  show ?thesis
  proof (rule nth_equalityI [OF len])
    fix i assume "i < length a"
    then show "a ! i = b ! i" using fun_cong [OF assms(1), of i] len by (simp add: padded_def)
  qed
qed

lemma no_tail_eq_iff: "no_tail a = no_tail b \<longleftrightarrow> padded a = padded b"
  using padded_inj [of "no_tail a" "no_tail b"] no_tail_last padded_no_tail by metis

lemma padded_eq_iff:
  "padded a = padded b \<longleftrightarrow>
     (\<forall>i < min (length a) (length b). a ! i = b ! i) \<and>
     (let l = if length b < length a then a else b
      in \<forall>i. min (length a) (length b) \<le> i \<and> i < length l \<longrightarrow> l ! i = 0)"
  (is "?l = (?r1 \<and> ?r2)")
proof
  assume e: ?l
  have r: "padded a i = padded b i" for i using e by simp
  have ?r1 using r by (metis min_less_iff_conj padded_def)
  moreover have ?r2
    using r by (auto simp: padded_def Let_def min_def split: if_splits)
      (metis leD, metis leD)
  ultimately show "?r1 \<and> ?r2" ..
next
  assume "?r1 \<and> ?r2"
  then show ?l
    by (auto simp: padded_def fun_eq_iff Let_def min_def not_less split: if_splits)
qed

lemma ref_eq_binary_normal: "ref_eq_binary a b \<longleftrightarrow> no_tail a = no_tail b"
proof -
  have "take n a = take n b \<longleftrightarrow> (\<forall>i < n. a ! i = b ! i)" if "n = min (length a) (length b)" for n
    using that by (auto simp: list_eq_iff_nth_eq)
  then show ?thesis
    unfolding no_tail_eq_iff padded_eq_iff ref_eq_binary_def by (simp add: Let_def)
qed

lemma ref_eq_class_normal:
  "ref_eq_class a b ti \<longleftrightarrow>
     (if ti then no_tail (map zero_space a) = no_tail (map zero_space b)
      else map zero_space a = map zero_space b)"
proof -
  let ?a = "map zero_space a" and ?b = "map zero_space b"
  have pre: "each_in 0 (min (length a) (length b))
      (\<lambda>i. (if a ! i = 0x20 then 0 else a ! i) = (if b ! i = 0x20 then 0 else b ! i)) \<longleftrightarrow>
      (\<forall>i < min (length a) (length b). ?a ! i = ?b ! i)"
    by (simp add: zero_space_def)
  show ?thesis
  proof (cases "length a = length b")
    case True
    have "?a = ?b \<longleftrightarrow> (\<forall>i < min (length a) (length b). ?a ! i = ?b ! i)"
      using True by (auto simp: list_eq_iff_nth_eq)
    moreover have "padded ?a = padded ?b \<longleftrightarrow> ?a = ?b"
      unfolding padded_eq_iff using True by (auto simp: list_eq_iff_nth_eq Let_def)
    ultimately show ?thesis
      unfolding no_tail_eq_iff ref_eq_class_def Let_def pre using True by simp
  next
    case False
    then have "?a \<noteq> ?b" by (metis length_map)
    then show ?thesis
      unfolding no_tail_eq_iff padded_eq_iff ref_eq_class_def Let_def pre using False by auto
  qed
qed

section \<open>The lengths first\<close>

text \<open>
  Review A-07 over raw pointers: a read outside the block a pointer names is \<open>None\<close>. The lengths are
  \<open>int\<close>s; a loop \<open>for (i = 0; i < n; i++)\<close> runs over \<open>[0..<nat n]\<close>.
\<close>

definition byte_at :: "bytes \<Rightarrow> nat \<Rightarrow> u8 option" where
  "byte_at p i = (if i < length p then Some (p ! i) else None)"

text \<open>The loop that returns false at the first index that fails and stops at a bad read.\<close>

fun each_read :: "(nat \<Rightarrow> bool option) \<Rightarrow> nat list \<Rightarrow> bool option" where
  "each_read f [] = Some True"
| "each_read f (i # is) =
     (case f i of None \<Rightarrow> None | Some ok \<Rightarrow> if ok then each_read f is else Some False)"

definition mem_equal :: "bytes \<Rightarrow> bytes \<Rightarrow> nat \<Rightarrow> bool option" where
  "mem_equal p q n = (if n \<le> length p \<and> n \<le> length q then Some (take n p = take n q) else None)"

definition read2 :: "(u8 \<Rightarrow> u8 \<Rightarrow> bool) \<Rightarrow> bytes \<Rightarrow> bytes \<Rightarrow> nat \<Rightarrow> bool option" where
  "read2 f p q i =
     (case byte_at p i of None \<Rightarrow> None
      | Some c \<Rightarrow> (case byte_at q i of None \<Rightarrow> None | Some d \<Rightarrow> Some (f c d)))"

definition a07_eq_class :: "bytes \<Rightarrow> int \<Rightarrow> bytes \<Rightarrow> int \<Rightarrow> bool \<Rightarrow> bool option" where
  "a07_eq_class a na b nb ti =
     (let n = (if na < nb then na else nb);
          tail_ok =
            (if na \<noteq> nb then
               if \<not> ti then Some False
               else let tail = (if nb < na then drop (nat n) a else drop (nat n) b)
                    in each_read (\<lambda>i. map_option space_class (byte_at tail i))
                         [0..<nat (if nb < na then na - nb else nb - na)]
             else Some True)
      in case tail_ok of None \<Rightarrow> None
         | Some ok \<Rightarrow>
             if \<not> ok then Some False
             else (case mem_equal a b (nat n) of None \<Rightarrow> None
                   | Some same \<Rightarrow>
                       if same then Some True
                       else each_read (read2 (\<lambda>c d. \<not> (c \<noteq> d \<and> \<not> (space_class c \<and> space_class d))) a b)
                              [0..<nat n]))"

lemma each_read_Some:
  assumes "\<And>i. i \<in> set is \<Longrightarrow> f i = Some (g i)"
  shows "each_read f is = Some (list_all g is)"
  using assms by (induction "is") auto

lemma zero_space_eq: "zero_space c = zero_space d \<longleftrightarrow> c = d \<or> space_class c \<and> space_class d"
  by (auto simp: zero_space_def space_class_def)

lemma ref_eq_class_loops:
  "ref_eq_class a b ti \<longleftrightarrow>
     (length a = length b \<or> ti \<and> (\<forall>i. min (length a) (length b) \<le> i \<longrightarrow>
         i < length (if length b < length a then a else b) \<longrightarrow> space_class ((if length b < length a then a else b) ! i)))
     \<and> (\<forall>i < min (length a) (length b). zero_space (a ! i) = zero_space (b ! i))"
proof -
  have pre: "each_in 0 (min (length a) (length b))
      (\<lambda>i. (if a ! i = 0x20 then 0 else a ! i) = (if b ! i = 0x20 then 0 else b ! i)) \<longleftrightarrow>
      (\<forall>i < min (length a) (length b). zero_space (a ! i) = zero_space (b ! i))"
    by (simp add: zero_space_def)
  show ?thesis unfolding ref_eq_class_def Let_def pre by auto
qed

lemma a07_tail:
  assumes "m \<le> length l"
  shows "each_read (\<lambda>i. map_option space_class (byte_at (drop m l) i)) [0..<length l - m]
    = Some (\<forall>i. m \<le> i \<longrightarrow> i < length l \<longrightarrow> space_class (l ! i))"
proof -
  have "each_read (\<lambda>i. map_option space_class (byte_at (drop m l) i)) [0..<length l - m]
      = Some (list_all (\<lambda>i. space_class (l ! (m + i))) [0..<length l - m])"
    using assms by (intro each_read_Some) (auto simp: byte_at_def)
  moreover have "list_all (\<lambda>i. space_class (l ! (m + i))) [0..<length l - m]
      \<longleftrightarrow> (\<forall>i. m \<le> i \<longrightarrow> i < length l \<longrightarrow> space_class (l ! i))"
  proof
    assume h: "list_all (\<lambda>i. space_class (l ! (m + i))) [0..<length l - m]"
    show "\<forall>i. m \<le> i \<longrightarrow> i < length l \<longrightarrow> space_class (l ! i)"
    proof (intro allI impI)
      fix i assume i: "m \<le> i" "i < length l"
      then have "i - m \<in> set [0..<length l - m]" by auto
      then have "space_class (l ! (m + (i - m)))" using h unfolding list_all_iff by blast
      then show "space_class (l ! i)" using i by simp
    qed
  next
    assume "\<forall>i. m \<le> i \<longrightarrow> i < length l \<longrightarrow> space_class (l ! i)"
    then show "list_all (\<lambda>i. space_class (l ! (m + i))) [0..<length l - m]"
      by (simp add: list_all_iff less_diff_conv add.commute)
  qed
  ultimately show ?thesis by simp
qed

lemma a07_prefix:
  assumes "n \<le> length a" "n \<le> length b"
  shows "each_read (read2 (\<lambda>c d. \<not> (c \<noteq> d \<and> \<not> (space_class c \<and> space_class d))) a b) [0..<n]
    = Some (\<forall>i < n. zero_space (a ! i) = zero_space (b ! i))"
proof -
  have "each_read (read2 (\<lambda>c d. \<not> (c \<noteq> d \<and> \<not> (space_class c \<and> space_class d))) a b) [0..<n]
      = Some (list_all (\<lambda>i. zero_space (a ! i) = zero_space (b ! i)) [0..<n])"
    using assms by (intro each_read_Some) (auto simp: read2_def byte_at_def zero_space_eq)
  moreover have "list_all (\<lambda>i. zero_space (a ! i) = zero_space (b ! i)) [0..<n] \<longleftrightarrow>
      (\<forall>i < n. zero_space (a ! i) = zero_space (b ! i))"
    by (auto simp only: list_all_iff set_upt atLeastLessThan_iff)
  ultimately show ?thesis by simp
qed

lemma a07_exact: "a07_eq_class a (int (length a)) b (int (length b)) ti = Some (ref_eq_class a b ti)"
proof -
  let ?n = "min (length a) (length b)" and ?l = "if length b < length a then a else b"
  let ?tail = "\<forall>i. ?n \<le> i \<longrightarrow> i < length ?l \<longrightarrow> space_class (?l ! i)"
  let ?same = "\<forall>i < ?n. zero_space (a ! i) = zero_space (b ! i)"
  have n: "nat (if int (length a) < int (length b) then int (length a) else int (length b)) = ?n" by simp
  have d: "nat (if int (length b) < int (length a) then int (length a) - int (length b)
        else int (length b) - int (length a)) = length ?l - ?n" by auto
  have t: "(if int (length b) < int (length a) then drop ?n a else drop ?n b) = drop ?n ?l" by simp
  have tail: "(if int (length a) \<noteq> int (length b) then if \<not> ti then Some False
        else each_read (\<lambda>i. map_option space_class (byte_at (drop ?n ?l) i)) [0..<length ?l - ?n]
      else Some True) = Some (length a = length b \<or> ti \<and> ?tail)"
    by (subst a07_tail) auto
  have mem: "mem_equal a b ?n = Some (take ?n a = take ?n b)" by (simp add: mem_equal_def)
  have pre: "each_read (read2 (\<lambda>c d. \<not> (c \<noteq> d \<and> \<not> (space_class c \<and> space_class d))) a b) [0..<?n] = Some ?same"
    by (rule a07_prefix) simp_all
  have decide: "(if \<not> T then Some False else if M then Some True else Some S) = Some (T \<and> S)" if "M \<Longrightarrow> S" for T M S
    using that by auto
  have "take ?n a = take ?n b \<Longrightarrow> ?same" by (metis nth_take)
  then show ?thesis
    unfolding a07_eq_class_def Let_def n d t tail mem pre ref_eq_class_loops option.case
    by (rule decide)
qed

text \<open>
  C11. The length-first equality of review A-07 never reads outside its two operands and answers what
  the collation's model answers, for every two strings and both values of the flag; the model itself
  is equality of the normal forms.
\<close>

theorem a07_reads_in_bounds:
  "a07_eq_class a (int (length a)) b (int (length b)) ti = Some (ref_eq_class a b ti)
   \<and> (ref_eq_class a b ti \<longleftrightarrow>
       (if ti then no_tail (map zero_space a) = no_tail (map zero_space b)
        else map zero_space a = map zero_space b))"
  by (intro conjI a07_exact ref_eq_class_normal)

section \<open>Every short string\<close>

definition cell_alpha :: "u8 list" where "cell_alpha = [0x61, 0x62, 0x20, 0x00]"

text \<open>One turn of the outer loop: every string of \<open>out[from..to)\<close> with each letter appended.\<close>

definition grow_strings :: "nat \<Rightarrow> nat \<Rightarrow> bytes list \<Rightarrow> bytes list" where
  "grow_strings from to out =
     fold (\<lambda>k out. fold (\<lambda>c out. out @ [out ! k @ [c]]) cell_alpha out) [from..<to] out"

definition all_strings :: "nat \<Rightarrow> bytes list" where
  "all_strings maxlen =
     fst (fold (\<lambda>len (out, from). let to = length out in (grow_strings from to out, to)) [1..<Suc maxlen] ([[]], 0))"

text \<open>The strings of one length, in the order they are made.\<close>

fun level :: "nat \<Rightarrow> bytes list" where
  "level 0 = [[]]"
| "level (Suc n) = concat (map (\<lambda>s. map (\<lambda>c. s @ [c]) cell_alpha) (level n))"

lemma grow_letters: "k < length out \<Longrightarrow>
    fold (\<lambda>c out. out @ [out ! k @ [c]]) cs out = out @ map (\<lambda>c. out ! k @ [c]) cs"
  by (induction cs arbitrary: out) (simp_all add: nth_append)

lemma grow_level:
  assumes "j \<le> length lv"
  shows "grow_strings (length pre) (length pre + j) (pre @ lv)
    = pre @ lv @ concat (map (\<lambda>s. map (\<lambda>c. s @ [c]) cell_alpha) (take j lv))"
  using assms
proof (induction j)
  case 0
  then show ?case by (simp add: grow_strings_def)
next
  case (Suc j)
  then have j: "j < length lv" by simp
  have "grow_strings (length pre) (length pre + Suc j) (pre @ lv)
      = fold (\<lambda>c out. out @ [out ! (length pre + j) @ [c]]) cell_alpha
          (grow_strings (length pre) (length pre + j) (pre @ lv))"
    by (simp add: grow_strings_def)
  also have "\<dots> = pre @ lv @ concat (map (\<lambda>s. map (\<lambda>c. s @ [c]) cell_alpha) (take j lv))
      @ map (\<lambda>c. lv ! j @ [c]) cell_alpha"
    using j Suc.IH by (subst grow_letters) (simp_all add: nth_append)
  finally show ?case using j by (simp add: take_Suc_conv_app_nth)
qed

lemma all_strings_levels: "all_strings n = concat (map level [0..<Suc n])"
proof -
  let ?step = "\<lambda>len (out, from). let to = length out in (grow_strings from to out, to)"
  have "fold ?step [1..<Suc n] ([[]], 0) = (concat (map level [0..<Suc n]), length (concat (map level [0..<n])))"
  proof (induction n)
    case 0
    then show ?case by simp
  next
    case (Suc n)
    let ?pre = "concat (map level [0..<n])"
    have "grow_strings (length ?pre) (length ?pre + length (level n)) (?pre @ level n)
        = ?pre @ level n @ level (Suc n)"
      by (subst grow_level) simp_all
    then show ?case using Suc.IH by simp
  qed
  then show ?thesis by (simp only: all_strings_def fst_conv)
qed

lemma set_level: "set (level n) = {s. length s = n \<and> set s \<subseteq> set cell_alpha}"
proof (induction n)
  case 0
  then show ?case by auto
next
  case (Suc n)
  have "(\<exists>t \<in> {t. length t = n \<and> set t \<subseteq> set cell_alpha}. \<exists>c \<in> set cell_alpha. s = t @ [c])
      \<longleftrightarrow> length s = Suc n \<and> set s \<subseteq> set cell_alpha" for s
    by (cases s rule: rev_cases) auto
  then show ?case using Suc.IH by (auto simp: image_iff)
qed

lemma length_level: "length (level n) = 4 ^ n"
  by (induction n) (simp_all add: length_concat comp_def sum_list_triv cell_alpha_def)

lemma set_all_strings: "set (all_strings n) = {s. length s \<le> n \<and> set s \<subseteq> set cell_alpha}"
  by (auto simp: all_strings_levels set_level less_Suc_eq_le simp del: upt_Suc)

lemma length_all_strings: "length (all_strings n) = (\<Sum>i\<le>n. 4 ^ i)"
proof -
  have "length (all_strings n) = sum_list (map (\<lambda>i. 4 ^ i) [0..<Suc n])"
    by (simp add: all_strings_levels length_concat comp_def length_level del: upt_Suc level.simps)
  also have "\<dots> = (\<Sum>i \<in> set [0..<Suc n]. 4 ^ i)" by (rule sum_list_distinct_conv_sum_set) simp
  also have "set [0..<Suc n] = {..n}" by (auto simp del: upt_Suc)
  finally show ?thesis .
qed

lemma distinct_all_strings: "distinct (all_strings n)"
proof (rule card_distinct)
  have "card (set cell_alpha) = 4" by (simp add: cell_alpha_def)
  then have "card {s. set s \<subseteq> set cell_alpha \<and> length s \<le> n} = (\<Sum>i\<le>n. 4 ^ i)"
    using card_lists_length_le [of "set cell_alpha" n] by simp
  moreover have "{s. set s \<subseteq> set cell_alpha \<and> length s \<le> n} = set (all_strings n)"
    by (auto simp: set_all_strings)
  ultimately show "card (set (all_strings n)) = length (all_strings n)"
    by (simp only: length_all_strings)
qed

section \<open>The suite of the equality kernels\<close>

record kernel_tally =
  mism_class :: nat
  mism_a07 :: nat
  mism_bin :: nat
  cell_pairs :: nat

definition kernel_flag :: "(bytes \<Rightarrow> bytes \<Rightarrow> bool \<Rightarrow> bool) \<Rightarrow> bytes \<Rightarrow> bytes \<Rightarrow> int \<Rightarrow> kernel_tally \<Rightarrow> kernel_tally" where
  "kernel_flag eq_class a b ti t =
     (let want = ref_eq_class a b (ti \<noteq> 0)
      in t\<lparr>mism_class := mism_class t + (if unitseam_eb_str_eq_class eq_class a b (ti \<noteq> 0) \<noteq> want then 1 else 0),
           mism_a07 := mism_a07 t +
             (if a07_eq_class a (int (length a)) b (int (length b)) (ti \<noteq> 0) \<noteq> Some want then 1 else 0)\<rparr>)"

definition kernel_pair ::
  "(bytes \<Rightarrow> bytes \<Rightarrow> bool \<Rightarrow> bool) \<Rightarrow> (bytes \<Rightarrow> bytes \<Rightarrow> bool) \<Rightarrow> bytes \<Rightarrow> bytes \<Rightarrow> kernel_tally \<Rightarrow> kernel_tally" where
  "kernel_pair eq_class eq_binary a b t =
     (let t1 = fold (kernel_flag eq_class a b) [0, 1] t
      in t1\<lparr>mism_bin := mism_bin t1 + (if unitseam_eb_str_eq_binary eq_binary a b \<noteq> ref_eq_binary a b then 1 else 0),
            cell_pairs := cell_pairs t1 + 1\<rparr>)"

definition kernel_suite :: "(bytes \<Rightarrow> bytes \<Rightarrow> bool \<Rightarrow> bool) \<Rightarrow> (bytes \<Rightarrow> bytes \<Rightarrow> bool) \<Rightarrow> nat \<Rightarrow> kernel_tally" where
  "kernel_suite eq_class eq_binary len =
     (let s = all_strings len
      in fold (\<lambda>a. fold (kernel_pair eq_class eq_binary a) s) s
           \<lparr>mism_class = 0, mism_a07 = 0, mism_bin = 0, cell_pairs = 0\<rparr>)"

lemma kernel_pair_counts:
  "mism_class (kernel_pair ec eb a b t) = mism_class t + (\<Sum>ti \<in> UNIV. if ec a b ti \<noteq> ref_eq_class a b ti then 1 else 0)"
  "mism_a07 (kernel_pair ec eb a b t) = mism_a07 t"
  "mism_bin (kernel_pair ec eb a b t) = mism_bin t + (if eb a b \<noteq> ref_eq_binary a b then 1 else 0)"
  "cell_pairs (kernel_pair ec eb a b t) = cell_pairs t + 1"
  by (simp_all add: kernel_pair_def kernel_flag_def Let_def a07_exact unitseam_eb_str_eq_class_def
      unitseam_eb_str_eq_binary_def UNIV_bool)

lemma kernel_suite_fold:
  "kernel_suite ec eb n = fold (\<lambda>(a, b). kernel_pair ec eb a b) (pairs_of (\<lambda>_. all_strings n) (all_strings n))
     \<lparr>mism_class = 0, mism_a07 = 0, mism_bin = 0, cell_pairs = 0\<rparr>"
  by (simp add: kernel_suite_def Let_def fold_pairs)

lemma kernel_suite_counts:
  fixes n :: nat
  defines "ps \<equiv> pairs_of (\<lambda>_. all_strings n) (all_strings n)"
  shows "mism_class (kernel_suite ec eb n) =
      sum_list (map (\<lambda>(a, b). \<Sum>ti \<in> UNIV. if ec a b ti \<noteq> ref_eq_class a b ti then 1 else 0) ps)"
    "mism_a07 (kernel_suite ec eb n) = 0"
    "mism_bin (kernel_suite ec eb n) = sum_list (map (\<lambda>(a, b). if eb a b \<noteq> ref_eq_binary a b then 1 else 0) ps)"
    "cell_pairs (kernel_suite ec eb n) = length ps"
  unfolding kernel_suite_fold ps_def
     apply (subst counter_sum [where counter = mism_class and
        worth = "\<lambda>(a, b). \<Sum>ti \<in> UNIV. if ec a b ti \<noteq> ref_eq_class a b ti then 1 else 0"];
      simp add: kernel_pair_counts split: prod.split)
    apply (subst counter_sum [where counter = mism_a07 and worth = "\<lambda>_. 0"];
      simp add: kernel_pair_counts split: prod.split)
   apply (subst counter_sum [where counter = mism_bin and
      worth = "\<lambda>(a, b). if eb a b \<noteq> ref_eq_binary a b then 1 else 0"];
    simp add: kernel_pair_counts split: prod.split)
  apply (subst counter_sum [where counter = cell_pairs and worth = "\<lambda>_. 1"];
    simp add: kernel_pair_counts sum_list_triv split: prod.split)
  done

text \<open>
  C34. The suite of the equality kernels meets every ordered pair of strings of length 0 to \<open>n\<close> over its
  alphabet once, counts no mismatch of the length-first variant, and counts none of the kernels exactly
  when on those strings the class kernel decides equality of the normal forms (with and without the
  trailing-space rule) and the binary kernel equality up to trailing zeros.
\<close>

theorem kernel_suite_exact:
  "(mism_class (kernel_suite ec eb n) = 0 \<and> mism_bin (kernel_suite ec eb n) = 0 \<longleftrightarrow>
      (\<forall>a b. length a \<le> n \<and> set a \<subseteq> set cell_alpha \<and> length b \<le> n \<and> set b \<subseteq> set cell_alpha \<longrightarrow>
         (ec a b True \<longleftrightarrow> no_tail (map zero_space a) = no_tail (map zero_space b)) \<and>
         (ec a b False \<longleftrightarrow> map zero_space a = map zero_space b) \<and>
         (eb a b \<longleftrightarrow> no_tail a = no_tail b)))
   \<and> mism_a07 (kernel_suite ec eb n) = 0
   \<and> cell_pairs (kernel_suite ec eb n) = (\<Sum>i\<le>n. 4 ^ i)\<^sup>2"
proof (intro conjI)
  have "mism_class (kernel_suite ec eb n) = 0 \<and> mism_bin (kernel_suite ec eb n) = 0 \<longleftrightarrow>
      (\<forall>(a, b) \<in> set (pairs_of (\<lambda>_. all_strings n) (all_strings n)).
         ec a b True = ref_eq_class a b True \<and> ec a b False = ref_eq_class a b False \<and> eb a b = ref_eq_binary a b)"
    by (auto simp: kernel_suite_counts sum_list_eq_0_iff UNIV_bool split: prod.splits)
  also have "\<dots> \<longleftrightarrow> (\<forall>a b. length a \<le> n \<and> set a \<subseteq> set cell_alpha \<and> length b \<le> n \<and> set b \<subseteq> set cell_alpha \<longrightarrow>
         (ec a b True \<longleftrightarrow> no_tail (map zero_space a) = no_tail (map zero_space b)) \<and>
         (ec a b False \<longleftrightarrow> map zero_space a = map zero_space b) \<and>
         (eb a b \<longleftrightarrow> no_tail a = no_tail b))"
    by (auto simp: set_all_strings ref_eq_class_normal ref_eq_binary_normal)
  finally show "mism_class (kernel_suite ec eb n) = 0 \<and> mism_bin (kernel_suite ec eb n) = 0 \<longleftrightarrow> \<dots>" .
qed (simp_all add: kernel_suite_counts length_pairs_of length_all_strings power2_eq_square)

theorem kernel_suite_exact_witness:
  "mism_class (kernel_suite ref_eq_class ref_eq_binary 4) = 0
   \<and> mism_a07 (kernel_suite ref_eq_class ref_eq_binary 4) = 0
   \<and> cell_pairs (kernel_suite ref_eq_class ref_eq_binary 4) = 116281"
proof -
  have "(\<Sum>i\<le>4. 4 ^ i :: nat) = 341" by (simp add: numeral_eq_Suc)
  then show ?thesis
    using kernel_suite_exact [of ref_eq_class ref_eq_binary 4]
    by (simp add: ref_eq_class_normal ref_eq_binary_normal power2_eq_square)
qed

section \<open>NUMERIC cells\<close>

text \<open>
  \<open>mk_numeric\<close> lays a cell out in the caller's buffer: the size and the sign, the precision and the
  sign of the scale, the scale, then the magnitude's bytes, taken from a 32-bit linear congruence. The
  suite's buffer has 32 bytes and at most 20 are written. The result is the buffer and the size.
\<close>

definition cell_lcg :: "u32 \<Rightarrow> u32" where "cell_lcg seed = seed * 1103515245 + 12345"

definition mk_numeric :: "bytes \<Rightarrow> int \<Rightarrow> bool \<Rightarrow> int \<Rightarrow> u32 \<Rightarrow> bytes \<times> int" where
  "mk_numeric buf nbytes neg scale seed =
     (let buf = buf[0 := word_of_int ((nbytes + 3) OR (if neg then 0x80 else 0)),
                    1 := word_of_int (38 OR (if scale < 0 then 0x80 else 0)),
                    2 := word_of_int (if scale < 0 then - scale else scale)];
          (buf, seed) =
            fold (\<lambda>i (buf, seed). let seed = cell_lcg seed in (buf[3 + i := ucast (drop_bit 16 seed)], seed))
              [0..<nat nbytes] (buf, seed)
      in (buf, nbytes + 3))"

text \<open>The layout read back: what each byte of a cell says.\<close>

definition cell_size :: "bytes \<Rightarrow> int" where "cell_size b = uint (b ! 0 AND 0x7f)"
definition cell_neg :: "bytes \<Rightarrow> bool" where "cell_neg b = bit (b ! 0) 7"
definition cell_precision :: "bytes \<Rightarrow> int" where "cell_precision b = uint (b ! 1 AND 0x7f)"
definition cell_scale :: "bytes \<Rightarrow> int" where
  "cell_scale b = (if bit (b ! 1) 7 then - uint (b ! 2) else uint (b ! 2))"

text \<open>The magnitude's bytes: the third byte of each state of the congruence.\<close>

definition lcg_bytes :: "nat \<Rightarrow> u32 \<Rightarrow> bytes" where
  "lcg_bytes n seed = map (\<lambda>i. ucast (drop_bit 16 ((cell_lcg ^^ Suc i) seed))) [0..<n]"

lemma mk_numeric_loop:
  assumes "3 + n \<le> length buf"
  shows "fold (\<lambda>i (buf, seed). let seed = cell_lcg seed in (buf[3 + i := ucast (drop_bit 16 seed)], seed))
      [0..<n] (buf, seed) = (take 3 buf @ lcg_bytes n seed @ drop (3 + n) buf, (cell_lcg ^^ n) seed)"
  using assms
proof (induction n)
  case 0
  then show ?case by (simp add: lcg_bytes_def)
next
  case (Suc n)
  let ?w = "take 3 buf @ lcg_bytes n seed"
  have len: "length ?w = 3 + n" using Suc.prems by (simp add: lcg_bytes_def)
  have "(?w @ drop (3 + n) buf)[3 + n := c] = ?w @ c # drop (3 + Suc n) buf" for c
    using Suc.prems len by (simp add: list_update_append Cons_nth_drop_Suc [symmetric])
  then have "(take 3 buf @ lcg_bytes n seed @ drop (3 + n) buf)[3 + n := ucast (drop_bit 16 ((cell_lcg ^^ Suc n) seed))]
      = take 3 buf @ lcg_bytes (Suc n) seed @ drop (3 + Suc n) buf"
    by (simp add: lcg_bytes_def)
  then show ?case using Suc by simp
qed

lemma low7_or_80:
  assumes "0 \<le> k" "k < 128"
  shows "uint (word_of_int (k OR (if b then 0x80 else 0)) AND 0x7f :: u8) = k"
    and "bit (word_of_int (k OR (if b then 0x80 else 0)) :: u8) 7 \<longleftrightarrow> b"
proof -
  have k: "take_bit 7 k = k" using assms by (simp add: take_bit_int_eq_self)
  have m: "(0x7f :: u8) = mask 7" by (simp add: mask_eq_exp_minus_1)
  have "uint (word_of_int (k OR (if b then 0x80 else 0)) AND 0x7f :: u8)
      = take_bit 7 (k OR (if b then 0x80 else 0))"
    unfolding m by (simp add: take_bit_eq_mask [symmetric] unsigned_take_bit_eq unsigned_of_int)
  also have "\<dots> = k" using k by (simp add: take_bit_or)
  finally show "uint (word_of_int (k OR (if b then 0x80 else 0)) AND 0x7f :: u8) = k" .
  have "\<not> bit k 7" using k by (metis bit_take_bit_iff less_irrefl)
  then show "bit (word_of_int (k OR (if b then 0x80 else 0)) :: u8) 7 \<longleftrightarrow> b"
    by (simp add: bit_or_iff bit_simps)
qed

text \<open>
  A cell says what it was made of: for up to 29 magnitude bytes in a 32-byte buffer the size, the
  sign, the precision 38 and the scale read back as given, the magnitude is the congruence's bytes, and
  nothing past the cell is written.
\<close>

theorem mk_numeric_says:
  assumes "mk_numeric buf nbytes neg scale seed = (cell, sz)"
    and "length buf = 32" "0 \<le> nbytes" "nbytes \<le> 29" "- 255 \<le> scale" "scale \<le> 255"
  shows "sz = nbytes + 3 \<and> length cell = 32
    \<and> cell_size cell = sz \<and> cell_neg cell = neg \<and> cell_precision cell = 38 \<and> cell_scale cell = scale
    \<and> take (nat nbytes) (drop 3 cell) = lcg_bytes (nat nbytes) seed
    \<and> drop (nat sz) cell = drop (nat sz) buf"
proof -
  define h where "h = buf[0 := word_of_int ((nbytes + 3) OR (if neg then 0x80 else 0)),
      1 := word_of_int (38 OR (if scale < 0 then 0x80 else 0)),
      2 := word_of_int (if scale < 0 then - scale else scale)]"
  have lh: "length h = 32" using assms(2) by (simp add: h_def)
  have room: "3 + nat nbytes \<le> length h" using assms(4) lh by simp
  have c: "cell = take 3 h @ lcg_bytes (nat nbytes) seed @ drop (3 + nat nbytes) h" "sz = nbytes + 3"
    using assms(1) unfolding mk_numeric_def Let_def h_def [symmetric] mk_numeric_loop [OF room, unfolded Let_def]
    by simp_all
  have at: "cell ! i = h ! i" if "i < 3" for i using that lh by (simp add: c nth_append)
  have at0: "h ! 0 = word_of_int ((nbytes + 3) OR (if neg then 0x80 else 0))"
    and at1: "h ! 1 = word_of_int (38 OR (if scale < 0 then 0x80 else 0))"
    and at2: "h ! 2 = word_of_int (if scale < 0 then - scale else scale)"
    using assms(2) by (simp_all add: h_def)
  have mag: "uint (h ! 2) = (if scale < 0 then - scale else scale)"
    unfolding at2 using assms(5,6) by (simp add: unsigned_of_int take_bit_int_eq_self)
  have "cell_size cell = sz" "cell_neg cell = neg"
    using low7_or_80 [of "nbytes + 3" neg] assms(3,4) at0 at [of 0] by (simp_all add: cell_size_def cell_neg_def c(2))
  moreover have "cell_precision cell = 38" "cell_scale cell = scale"
    using low7_or_80 [of 38 "scale < 0"] at1 at [of 1] at [of 2] mag
    by (simp_all add: cell_precision_def cell_scale_def)
  moreover have "take (nat nbytes) (drop 3 cell) = lcg_bytes (nat nbytes) seed" "length cell = 32"
    using room lh by (simp_all add: c lcg_bytes_def)
  moreover have "drop (nat sz) cell = drop (nat sz) buf"
    using assms(3) room lh by (simp add: c h_def lcg_bytes_def nat_add_distrib add.commute)
  ultimately show ?thesis using c(2) by simp
qed

section \<open>The suite of the two readers\<close>

record cell_num =
  cn_coef :: u128
  cn_scale :: int
  cn_neg :: bool

definition cell_num_zero :: cell_num where "cell_num_zero = \<lparr>cn_coef = 0, cn_scale = 0, cn_neg = False\<rparr>"

definition read_differs :: "bool \<times> cell_num \<Rightarrow> bool \<times> cell_num \<Rightarrow> bool" where
  "read_differs f s =
     (case (f, s) of ((okf, fast), (oks, slow)) \<Rightarrow>
        if okf \<noteq> oks then True
        else if \<not> okf then False
        else cn_coef fast \<noteq> cn_coef slow \<or> cn_scale fast \<noteq> cn_scale slow
             \<or> (cn_neg fast \<and> cn_coef fast \<noteq> 0) \<noteq> (cn_neg slow \<and> cn_coef slow \<noteq> 0))"

text \<open>The cell a seed makes, over the buffer the seed before it left.\<close>

definition seed_cell :: "u32 \<Rightarrow> bytes \<Rightarrow> bytes \<times> int" where
  "seed_cell seed buf =
     mk_numeric buf (uint (seed mod 18)) ((seed div 18) mod 2 = 1) (uint ((seed div 36) mod 40) - 2) seed"

definition num_case ::
  "(bytes \<Rightarrow> int \<Rightarrow> cell_num \<Rightarrow> bool \<times> cell_num) \<Rightarrow> (bytes \<Rightarrow> int \<Rightarrow> cell_num \<Rightarrow> bool \<times> cell_num)
    \<Rightarrow> nat \<Rightarrow> bytes \<times> nat \<times> nat \<Rightarrow> bytes \<times> nat \<times> nat" where
  "num_case in_place from_disk k st =
     (case st of (buf, cases, differ) \<Rightarrow>
        (case seed_cell (of_nat k) buf of (buf, sz) \<Rightarrow>
           (buf, cases + 1,
            if read_differs (unitseam_eb_num_from_disk in_place buf sz cell_num_zero) (from_disk buf sz cell_num_zero)
            then differ + 1 else differ)))"

definition num_suite ::
  "(bytes \<Rightarrow> int \<Rightarrow> cell_num \<Rightarrow> bool \<times> cell_num) \<Rightarrow> (bytes \<Rightarrow> int \<Rightarrow> cell_num \<Rightarrow> bool \<times> cell_num)
    \<Rightarrow> nat \<Rightarrow> bytes \<Rightarrow> nat \<times> nat" where
  "num_suite in_place from_disk seeds buf = snd (fold (num_case in_place from_disk) [1..<Suc seeds] (buf, 0, 0))"

text \<open>The number a decoded cell stands for at its scale, and the cells the suite reads in turn.\<close>

definition cn_number :: "cell_num \<Rightarrow> int" where
  "cn_number n = (if cn_neg n then - uint (cn_coef n) else uint (cn_coef n))"

definition reads_alike :: "bool \<times> cell_num \<Rightarrow> bool \<times> cell_num \<Rightarrow> bool" where
  "reads_alike f s \<longleftrightarrow> fst f = fst s \<and>
     (fst f \<longrightarrow> cn_number (snd f) = cn_number (snd s) \<and> cn_scale (snd f) = cn_scale (snd s))"

fun suite_cells :: "nat list \<Rightarrow> bytes \<Rightarrow> (bytes \<times> int) list" where
  "suite_cells [] buf = []"
| "suite_cells (k # ks) buf = (let c = seed_cell (of_nat k) buf in c # suite_cells ks (fst c))"

lemma cn_number_eq:
  "cn_number a = cn_number b \<longleftrightarrow>
     cn_coef a = cn_coef b \<and> ((cn_neg a \<and> cn_coef a \<noteq> 0) = (cn_neg b \<and> cn_coef b \<noteq> 0))"
proof -
  have opp: "x = - y \<longleftrightarrow> x = 0 \<and> y = 0" "- x = y \<longleftrightarrow> x = 0 \<and> y = 0" if "0 \<le> x" "0 \<le> y" for x y :: int
    using that by auto
  have "uint (cn_coef a) = uint (cn_coef b) \<longleftrightarrow> cn_coef a = cn_coef b" by (simp add: word_uint_eq_iff)
  then show ?thesis
    unfolding cn_number_def
    by (cases "cn_neg a"; cases "cn_neg b") (auto simp: opp uint_0_iff)
qed

lemma read_differs_iff: "read_differs f s \<longleftrightarrow> \<not> reads_alike f s"
  by (cases f; cases s) (auto simp: read_differs_def reads_alike_def cn_number_eq)

lemma num_suite_fold:
  "\<exists>b. fold (num_case ip fd) ks (buf, c, d) =
     (b, c + length ks, d + length (filter (\<lambda>(cell, sz). \<not> reads_alike (ip cell sz cell_num_zero) (fd cell sz cell_num_zero))
                                       (suite_cells ks buf)))"
proof (induction ks arbitrary: buf c d)
  case Nil
  then show ?case by simp
next
  case (Cons k ks)
  obtain cell sz where sc: "seed_cell (of_nat k) buf = (cell, sz)" by fastforce
  show ?case
    using Cons.IH [of cell "c + 1" "if read_differs (ip cell sz cell_num_zero) (fd cell sz cell_num_zero) then d + 1 else d"]
    by (auto simp: num_case_def sc unitseam_eb_num_from_disk_def read_differs_iff Let_def)
qed

text \<open>
  The suite of the NUMERIC readers counts one case per seed and no difference exactly when, on every
  cell it lays out, the reader in place and the reader from disk accept alike and, where they accept,
  read the same number at the same scale (a negative zero is zero).
\<close>

theorem num_suite_exact:
  "fst (num_suite ip fd seeds buf) = seeds
   \<and> (snd (num_suite ip fd seeds buf) = 0 \<longleftrightarrow>
       (\<forall>(cell, sz) \<in> set (suite_cells [1..<Suc seeds] buf).
          reads_alike (ip cell sz cell_num_zero) (fd cell sz cell_num_zero)))"
proof -
  obtain b where "fold (num_case ip fd) [1..<Suc seeds] (buf, 0, 0) =
     (b, 0 + length [1..<Suc seeds], 0 + length (filter (\<lambda>(cell, sz). \<not> reads_alike (ip cell sz cell_num_zero)
        (fd cell sz cell_num_zero)) (suite_cells [1..<Suc seeds] buf)))"
    using num_suite_fold [of ip fd "[1..<Suc seeds]" buf 0 0] by blast
  then show ?thesis by (auto simp: num_suite_def filter_empty_conv split: prod.splits simp del: upt_Suc)
qed

text \<open>A reader of one-byte magnitudes against itself.\<close>

definition read_one :: "bytes \<Rightarrow> int \<Rightarrow> cell_num \<Rightarrow> bool \<times> cell_num" where
  "read_one b sz n = (sz = 4, n\<lparr>cn_coef := ucast (b ! 3), cn_scale := cell_scale b, cn_neg := cell_neg b\<rparr>)"

theorem num_suite_exact_witness: "num_suite read_one read_one 20000 (replicate 32 0) = (20000, 0)"
proof -
  have "reads_alike x x" for x by (simp add: reads_alike_def)
  then show ?thesis
    using num_suite_exact [of read_one read_one 20000 "replicate 32 0"]
    by (simp add: prod_eq_iff case_prod_beta del: upt_Suc)
qed

theorem mk_numeric_says_witness:
  "cell_size (fst (mk_numeric (replicate 32 0) 2 True (- 2) 55)) = 5
   \<and> cell_neg (fst (mk_numeric (replicate 32 0) 2 True (- 2) 55))
   \<and> cell_scale (fst (mk_numeric (replicate 32 0) 2 True (- 2) 55)) = - 2"
  using mk_numeric_says [of "replicate 32 0" 2 True "- 2" 55 "fst (mk_numeric (replicate 32 0) 2 True (- 2) 55)"
      "snd (mk_numeric (replicate 32 0) 2 True (- 2) 55)"]
  by simp

end
