(* ===== verification/SketchMix.thy ===== *)
theory SketchMix
  imports Prelude
begin

unbundle bit_operations_syntax

text \<open>
  The key sketch of unit/query/g_query_aggregate.slab_sketch/test.cpp: the re-mix of a key's hash, its
  inverse by Newton's iteration on the odd multipliers, the branchless rank, the mixed value built for
  a register and a rank (case K1), and the fakes of the aligning helpers.

  What is shown: the inverse undoes the mix on every 32-bit value, both ways; the rank is one more than
  the number of leading zeros among the low 22 bits; the value built for a register and a rank has that
  register and that rank, and its preimage under the mix exists; aligning rounds up to the next
  multiple.
\<close>

section \<open>The mix\<close>

definition mix :: "u32 \<Rightarrow> u32" where
  "mix h =
     (let h = h XOR drop_bit 16 h;
          h = h * 0x7feb352d;
          h = h XOR drop_bit 15 h;
          h = h * 0x846ca68b;
          h = h XOR drop_bit 16 h
      in h)"

text \<open>\<open>x *= 2u - a * x\<close>, five times from \<open>x = a\<close>.\<close>

definition inv_mul :: "u32 \<Rightarrow> u32" where
  "inv_mul a = ((\<lambda>x. x * (2 - a * x)) ^^ 5) a"

definition unmix :: "u32 \<Rightarrow> u32" where
  "unmix m =
     (let m = m XOR drop_bit 16 m;
          m = m * inv_mul 0x846ca68b;
          m = m XOR (drop_bit 15 m XOR drop_bit 30 m);
          m = m * inv_mul 0x7feb352d;
          m = m XOR drop_bit 16 m
      in m)"

text \<open>
  The iteration for any odd multiplier: an odd square is one modulo eight, and each turn squares the
  error, so after five turns the error is a multiple of \<open>2\<^sup>3\<^sup>2\<close> and more.
\<close>

lemma newton_error: "1 - a * (x * (2 - a * x)) = (1 - a * x)\<^sup>2" for a x :: "'a :: comm_ring_1"
  by (simp add: power2_eq_square algebra_simps)

lemma newton_error_iter: "1 - a * ((\<lambda>x. x * (2 - a * x)) ^^ n) x = (1 - a * x) ^ 2 ^ n" for a x :: "'a :: comm_ring_1"
proof (induction n)
  case (Suc n)
  then show ?case by (simp add: newton_error power_mult [symmetric] mult.commute)
qed simp

lemma word_pow2_0: "LENGTH('a) \<le> n \<Longrightarrow> (2 :: 'a :: len word) ^ n = 0"
  by (metis dual_order.trans exp_eq_zero_iff word_exp_length_eq_0)

lemma inv_mul_odd:
  assumes "odd a"
  shows "a * inv_mul a = 1"
proof -
  have z: "(2 :: u32) ^ 32 = 0" by (rule word_pow2_0) simp
  obtain b where b: "a = 2 * b + 1" using assms by (elim oddE)
  have "1 - a * a = 2 * (- (2 * b * (b + 1)))" unfolding b by (simp add: algebra_simps)
  then have "(1 - a * a) ^ 2 ^ 5 = 2 ^ 32 * (- (2 * b * (b + 1))) ^ 32" by (simp add: power_mult_distrib)
  also have "\<dots> = 0" unfolding z by (rule mult_zero_left)
  finally have "1 - a * inv_mul a = 0" unfolding inv_mul_def newton_error_iter .
  then show ?thesis by simp
qed

text \<open>\<open>x ^= x >> n\<close> is undone by XOR with the shifts by its multiples.\<close>

lemma xorshift16: "(x XOR drop_bit 16 x) XOR drop_bit 16 (x XOR drop_bit 16 x) = x" for x :: u32
  by (rule bit_eqI) (auto simp: bit_simps dest: bit_imp_le_length)

lemma xorshift15: "(x XOR drop_bit 15 x) XOR (drop_bit 15 (x XOR drop_bit 15 x) XOR drop_bit 30 (x XOR drop_bit 15 x)) = x"
  for x :: u32
  by (rule bit_eqI) (auto simp: bit_simps dest: bit_imp_le_length)

lemma xorshift15': "(x XOR (drop_bit 15 x XOR drop_bit 30 x)) XOR drop_bit 15 (x XOR (drop_bit 15 x XOR drop_bit 30 x)) = x"
  for x :: u32
  by (rule bit_eqI) (auto simp: bit_simps dest: bit_imp_le_length)

lemma inv_mul_cancel:
  "0x846ca68b * inv_mul 0x846ca68b = 1" "0x7feb352d * inv_mul 0x7feb352d = 1"
  by (rule inv_mul_odd; simp)+

lemma unmix_mix_eq: "unmix (mix h) = h"
proof -
  have c: "x * 0x846ca68b * inv_mul 0x846ca68b = x" "x * 0x7feb352d * inv_mul 0x7feb352d = x" for x
    by (simp_all only: mult.assoc inv_mul_cancel mult_1_right)
  show ?thesis unfolding mix_def unmix_def Let_def xorshift16 c xorshift15 ..
qed

lemma mix_unmix_eq: "mix (unmix m) = m"
proof -
  have c: "x * inv_mul 0x846ca68b * 0x846ca68b = x" "x * inv_mul 0x7feb352d * 0x7feb352d = x" for x
    by (simp_all only: mult.assoc mult.commute [of "inv_mul _"] inv_mul_cancel mult_1_right)
  show ?thesis unfolding mix_def unmix_def Let_def xorshift16 c xorshift15' ..
qed

text \<open>
  C30. The re-mix of a hash and its inverse undo each other on every 32-bit value, and the inverse of an
  odd multiplier that five Newton steps give is its inverse modulo \<open>2\<^sup>3\<^sup>2\<close>.
\<close>

theorem mix_inverse:
  "unmix (mix h) = h \<and> mix (unmix m) = m \<and> (odd a \<longrightarrow> a * inv_mul a = 1)"
  by (simp add: unmix_mix_eq mix_unmix_eq inv_mul_odd)

theorem mix_inverse_witness: "unmix (mix 42) = 42 \<and> mix (unmix 7) = 7 \<and> 3 * inv_mul 3 = 1"
  using mix_inverse [of 42 7 3] by simp

section \<open>The rank\<close>

text \<open>\<open>__builtin_clz\<close>: the zero bits above the first one; it is not defined at zero.\<close>

definition clz32 :: "u32 \<Rightarrow> nat" where
  "clz32 x = length (takeWhile (\<lambda>i. \<not> bit x (31 - i)) [0..<32])"

definition rank_clz :: "u32 \<Rightarrow> u8" where
  "rank_clz m = word_of_nat (clz32 (push_bit 10 m OR 0x200) + 1)"

text \<open>The value the suite builds for a register and a rank; \<open>rnd\<close> is the generator's next number.\<close>

definition k1_value :: "u32 \<Rightarrow> u32 \<Rightarrow> u32 \<Rightarrow> u32" where
  "k1_value r idx rnd =
     (let low = (if r \<le> 22 then push_bit (unat (22 - r)) 1 else 0)
      in push_bit 22 idx OR low OR (if r \<le> 21 then rnd AND (push_bit (unat (22 - r)) 1 - 1) else 0))"

lemma length_takeWhile_upt: "length (takeWhile P [0..<n]) = k \<longleftrightarrow>
    k \<le> n \<and> (\<forall>j < k. P j) \<and> (k < n \<longrightarrow> \<not> P k)"
proof -
  let ?k = "length (takeWhile P [0..<n])"
  have le: "?k \<le> n" using length_takeWhile_le [of P "[0..<n]"] by simp
  have all: "P j" if "j < ?k" for j
    using takeWhile_nth [OF that] set_takeWhileD [OF nth_mem [OF that]] that le by simp
  have no: "\<not> P ?k" if "?k < n" using nth_length_takeWhile [of P "[0..<n]"] that by simp
  show ?thesis
  proof
    show "?k = k \<Longrightarrow> k \<le> n \<and> (\<forall>j < k. P j) \<and> (k < n \<longrightarrow> \<not> P k)" using le all no by auto
    assume h: "k \<le> n \<and> (\<forall>j < k. P j) \<and> (k < n \<longrightarrow> \<not> P k)"
    have "\<not> ?k < k" using h no by (metis less_le_trans)
    moreover have "\<not> k < ?k" using h le all by (metis less_le_trans)
    ultimately show "?k = k" by simp
  qed
qed

lemma clz32_iff: "clz32 x = k \<longleftrightarrow> k \<le> 32 \<and> (\<forall>j < k. \<not> bit x (31 - j)) \<and> (k < 32 \<longrightarrow> bit x (31 - k))"
  by (simp add: clz32_def length_takeWhile_upt)

lemma bit_rank_word: "j \<le> 22 \<Longrightarrow> bit (push_bit 10 m OR 0x200 :: u32) (31 - j) \<longleftrightarrow> j = 22 \<or> bit m (21 - j)"
proof -
  assume j: "j \<le> 22"
  have n: "bit (0x200 :: u32) i \<longleftrightarrow> i = 9" for i
  proof -
    have "(0x200 :: u32) = 2 ^ 9" by simp
    then show ?thesis by (simp only: bit_exp_iff) auto
  qed
  have "bit (push_bit 10 m OR 0x200 :: u32) (31 - j) \<longleftrightarrow> 10 \<le> 31 - j \<and> bit m (31 - j - 10) \<or> 31 - j = 9"
    unfolding bit_or_iff n bit_push_bit_iff by auto
  then show ?thesis using j by (cases "j = 22") auto
qed

lemma clz32_rank:
  "clz32 (push_bit 10 m OR 0x200) = k \<longleftrightarrow> k \<le> 22 \<and> (\<forall>j < k. \<not> bit m (21 - j)) \<and> (k < 22 \<longrightarrow> bit m (21 - k))"
proof -
  let ?x = "push_bit 10 m OR 0x200 :: u32"
  have top: "bit ?x (31 - 22)" by (subst bit_rank_word) simp_all
  have "clz32 ?x = k \<longleftrightarrow> k \<le> 22 \<and> (\<forall>j < k. \<not> bit ?x (31 - j)) \<and> bit ?x (31 - k)"
  proof
    assume "clz32 ?x = k"
    then have h: "k \<le> 32" "\<And>j. j < k \<Longrightarrow> \<not> bit ?x (31 - j)" "k < 32 \<Longrightarrow> bit ?x (31 - k)"
      unfolding clz32_iff by auto
    have "\<not> 22 < k" using h(2) top by blast
    then show "k \<le> 22 \<and> (\<forall>j < k. \<not> bit ?x (31 - j)) \<and> bit ?x (31 - k)" using h by simp
  qed (simp add: clz32_iff)
  then show ?thesis by (auto simp: bit_rank_word)
qed

lemma clz32_rank_le: "clz32 (push_bit 10 m OR 0x200) \<le> 22"
  using clz32_rank [of m] by blast

text \<open>The rank as a number: one to twenty-three.\<close>

lemma unat_rank: "unat (rank_clz m) = clz32 (push_bit 10 m OR 0x200) + 1"
proof -
  have "clz32 (push_bit 10 m OR 0x200) + 1 < 2 ^ LENGTH(8)" using clz32_rank_le [of m] by simp
  then show ?thesis unfolding rank_clz_def unat_of_nat by (rule mod_less)
qed

lemma rank_spec:
  "1 \<le> unat (rank_clz m) \<and> unat (rank_clz m) \<le> 23
   \<and> (\<forall>j. 22 - unat (rank_clz m) < j \<and> j < 22 \<longrightarrow> \<not> bit m j)
   \<and> (unat (rank_clz m) \<le> 22 \<longrightarrow> bit m (22 - unat (rank_clz m)))"
proof -
  obtain k where k: "clz32 (push_bit 10 m OR 0x200) = k" by simp
  then have h: "k \<le> 22" "\<And>j. j < k \<Longrightarrow> \<not> bit m (21 - j)" "k < 22 \<Longrightarrow> bit m (21 - k)"
    unfolding clz32_rank by auto
  have "\<not> bit m j" if "22 - (k + 1) < j" "j < 22" for j
    using h(2) [of "21 - j"] that h(1) by simp
  then show ?thesis unfolding unat_rank k using h by simp
qed

lemma rank_unique:
  assumes "1 \<le> r" "r \<le> 23" "\<And>j. 22 - r < j \<Longrightarrow> j < 22 \<Longrightarrow> \<not> bit m j" "r \<le> 22 \<Longrightarrow> bit m (22 - r)"
    "r = 23 \<Longrightarrow> \<not> bit m 0"
  shows "unat (rank_clz m) = r"
proof -
  have "clz32 (push_bit 10 m OR 0x200) = r - 1"
    unfolding clz32_rank
  proof (intro conjI allI impI)
    fix j assume "j < r - 1"
    then show "\<not> bit m (21 - j)"
      using assms(3) [of "21 - j"] assms(5) by (cases "j = 21") (use assms(2) in auto)
  next
    assume "r - 1 < 22"
    then show "bit m (21 - (r - 1))" using assms(1,4) by (simp add: Suc_diff_Suc)
  qed (use assms in simp)
  then show ?thesis unfolding unat_rank using assms(1) by simp
qed

section \<open>A value for every register and rank\<close>

lemma rank_word:
  assumes "r \<le> 23"
  shows "(word_of_nat r :: u32) \<le> 22 \<longleftrightarrow> r \<le> 22" "(word_of_nat r :: u32) \<le> 21 \<longleftrightarrow> r \<le> 21"
    "r \<le> 22 \<Longrightarrow> unat (22 - word_of_nat r :: u32) = 22 - r"
  using assms by (simp_all add: word_le_nat_alt unat_of_nat unat_sub)

lemma bit_k1:
  assumes "r \<le> 23" "j < 32"
  shows "bit (k1_value (word_of_nat r) idx rnd) j \<longleftrightarrow>
     22 \<le> j \<and> bit idx (j - 22) \<or> j = 22 - r \<and> r \<le> 22 \<or> r \<le> 21 \<and> j < 22 - r \<and> bit rnd j"
proof -
  have m: "(push_bit k 1 - 1 :: u32) = mask k" for k
    by (simp add: mask_eq_exp_minus_1 push_bit_eq_mult)
  have b: "bit (push_bit k (1 :: u32)) j \<longleftrightarrow> j = k" for k
    using assms(2) by (auto simp: bit_exp_iff)
  have low: "bit (if r \<le> 22 then push_bit (unat (22 - word_of_nat r :: u32)) 1 else 0 :: u32) j \<longleftrightarrow> j = 22 - r \<and> r \<le> 22"
  proof (cases "r \<le> 22")
    case True
    then show ?thesis unfolding rank_word(3) [OF assms(1) True] by (simp only: if_True b simp_thms)
  qed simp
  have rest: "bit (if r \<le> 21 then rnd AND mask (unat (22 - word_of_nat r :: u32)) else 0 :: u32) j \<longleftrightarrow>
      r \<le> 21 \<and> j < 22 - r \<and> bit rnd j"
    using rank_word [OF assms(1)] assms(2) by (auto simp: bit_and_iff bit_mask_iff)
  show ?thesis
    unfolding k1_value_def Let_def m rank_word [OF assms(1)] bit_or_iff low rest
    using assms(2) by (auto simp: bit_push_bit_iff)
qed

lemma k1_rank:
  assumes "1 \<le> r" "r \<le> 23"
  shows "unat (rank_clz (k1_value (word_of_nat r) idx rnd)) = r"
proof (rule rank_unique)
  show "\<not> bit (k1_value (word_of_nat r) idx rnd) 0" if "r = 23"
    using bit_k1 [of r 0 idx rnd] that by simp
qed (use assms in \<open>auto simp: bit_k1\<close>)

lemma k1_register:
  assumes "1 \<le> r" "r \<le> 23" "idx < 1024"
  shows "drop_bit 22 (k1_value (word_of_nat r) idx rnd) = idx"
proof (rule bit_eqI)
  fix n assume "possible_bit TYPE(u32) n"
  then have n: "n < 32" by simp
  have idx: "bit idx n \<Longrightarrow> n < 10"
  proof -
    assume "bit idx n"
    moreover have "take_bit 10 idx = idx" using assms(3) by (simp add: take_bit_eq_mask less_mask_eq)
    ultimately show "n < 10" by (metis bit_take_bit_iff)
  qed
  show "bit (drop_bit 22 (k1_value (word_of_nat r) idx rnd)) n \<longleftrightarrow> bit idx n"
  proof (cases "n < 10")
    case True
    then show ?thesis using assms(1,2) by (auto simp: bit_drop_bit_eq bit_k1)
  next
    case False
    then have "\<not> bit (k1_value (word_of_nat r) idx rnd) (22 + n)" by (auto dest: bit_imp_le_length)
    then show ?thesis using False idx by (auto simp: bit_drop_bit_eq)
  qed
qed

text \<open>
  The branchless rank is one more than the zeros above the first one among the low 22 bits, 23 when
  there is none; and for every register and every rank from 1 to 23 the value the suite builds has that
  register and that rank, and is the re-mix of the hash the suite feeds.
\<close>

theorem rank_and_register:
  assumes "1 \<le> r" "r \<le> 23" "idx < 1024"
  shows "unat (rank_clz (k1_value (word_of_nat r) idx rnd)) = r
    \<and> drop_bit 22 (k1_value (word_of_nat r) idx rnd) = idx
    \<and> mix (unmix (k1_value (word_of_nat r) idx rnd)) = k1_value (word_of_nat r) idx rnd
    \<and> 1 \<le> unat (rank_clz m) \<and> unat (rank_clz m) \<le> 23
    \<and> (\<forall>j. 22 - unat (rank_clz m) < j \<and> j < 22 \<longrightarrow> \<not> bit m j)
    \<and> (unat (rank_clz m) \<le> 22 \<longrightarrow> bit m (22 - unat (rank_clz m)))"
  using k1_rank [OF assms(1,2)] k1_register [OF assms] rank_spec [of m] mix_unmix_eq by simp

theorem rank_and_register_witness:
  "unat (rank_clz (k1_value 23 341 99)) = 23 \<and> drop_bit 22 (k1_value 23 341 99) = 341"
  using rank_and_register [of 23 341 99 0] by simp

section \<open>Aligning\<close>

text \<open>
  The alignment of a record of \<open>n\<close> bytes (\<open>double\<close> and pointers eight bytes, \<open>int\<close> four, \<open>short\<close> two)
  and the rounding up to it. The sizes of the suite are far below the range of \<open>int\<close>, where the sum
  could overflow.
\<close>

definition db_alignment :: "int \<Rightarrow> int" where
  "db_alignment n = (if 8 \<le> n then 8 else if 8 \<le> n then 8 else if 4 \<le> n then 4 else if 2 \<le> n then 2 else 1)"

definition db_align_to :: "int \<Rightarrow> int \<Rightarrow> int" where
  "db_align_to n alignment = (n + alignment - 1) AND NOT (alignment - 1)"

lemma and_not_mask_int: "x AND NOT (mask k) = x div 2 ^ k * 2 ^ k" for x :: int
proof -
  have "x AND NOT (mask k) = push_bit k (drop_bit k x)"
    by (rule bit_eqI) (auto simp: bit_simps)
  then show ?thesis by (simp add: push_bit_eq_mult drop_bit_eq_div)
qed

lemma db_align_to_pow2: "db_align_to n (2 ^ k) = (n + 2 ^ k - 1) div 2 ^ k * 2 ^ k"
proof -
  have "(2 ^ k - 1 :: int) = mask k" by (simp add: mask_eq_exp_minus_1)
  then show ?thesis unfolding db_align_to_def by (simp only: and_not_mask_int)
qed

lemma db_alignment_pow2: "db_alignment n = 2 ^ (if 8 \<le> n then 3 else if 4 \<le> n then 2 else if 2 \<le> n then 1 else 0)"
  by (simp add: db_alignment_def)

text \<open>The aligned size is the least multiple of the alignment that is not below the size.\<close>

theorem align_least:
  "db_alignment n dvd db_align_to n (db_alignment n)
   \<and> n \<le> db_align_to n (db_alignment n) \<and> db_align_to n (db_alignment n) < n + db_alignment n"
proof -
  obtain k where k: "db_alignment n = 2 ^ k" using db_alignment_pow2 by blast
  let ?a = "2 ^ k :: int"
  have "(n + ?a - 1) div ?a * ?a = n + ?a - 1 - (n + ?a - 1) mod ?a" by (simp add: minus_mod_eq_div_mult)
  moreover have "0 \<le> (n + ?a - 1) mod ?a" "(n + ?a - 1) mod ?a < ?a" by simp_all
  ultimately have "n \<le> (n + ?a - 1) div ?a * ?a" "(n + ?a - 1) div ?a * ?a < n + ?a" by linarith+
  then show ?thesis unfolding k db_align_to_pow2 by simp
qed

end
