(* ===== verification/WordMag.thy ===== *)
theory WordMag
  imports Decimal "HOL-Library.State_Monad"
begin

unbundle bit_operations_syntax

text \<open>
  The magnitudes and the generator of unit/query/numeric_opfunc.word_path_arith/test.cpp: 17-byte
  big-endian numbers (multiplication by a small factor, comparison, the table of powers of ten, the
  count of decimal digits, one more and one less), the edge magnitudes, and the seeded generator of
  magnitudes, scales and operands, in the state monad over the generator's state.

  What is shown: each operation on bytes is its operation on numbers, with the wrap-around at
  \<open>256\<^sup>1\<^sup>7\<close>; the loop that shifts a random magnitude below \<open>10\<^sup>4\<^sup>0\<close> ends; every operand the generator
  can answer, from any state, is one the engine's constructor takes.
\<close>

section \<open>Magnitudes\<close>

type_synonym mag = "u8 list"

definition mag_ok :: "mag \<Rightarrow> bool" where "mag_ok m \<longleftrightarrow> length m = DB_NUMERIC_BUF_SIZE"

text \<open>The loop from the last byte: what it leaves and the carry out of the first byte.\<close>

fun mag_mul_small :: "mag \<Rightarrow> u32 \<Rightarrow> u32 \<Rightarrow> mag \<times> u32" where
  "mag_mul_small [] f add = ([], add)"
| "mag_mul_small (b # bs) f add =
     (let (bs', carry) = mag_mul_small bs f add; v = ucast b * f + carry
      in (ucast (v AND 0xff) # bs', drop_bit 8 v))"

text \<open>\<open>memcmp\<close>: the order of the first bytes that differ, as unsigned characters.\<close>

fun mag_cmp :: "mag \<Rightarrow> mag \<Rightarrow> int" where
  "mag_cmp (a # as) (b # bs) = (if a < b then - 1 else if b < a then 1 else mag_cmp as bs)"
| "mag_cmp _ _ = 0"

primrec P10 :: "nat \<Rightarrow> mag" where
  "P10 0 = (replicate DB_NUMERIC_BUF_SIZE 0)[DB_NUMERIC_BUF_SIZE - 1 := 1]"
| "P10 (Suc i) = fst (mag_mul_small (P10 i) 10 0)"

function mag_digits_loop :: "mag \<Rightarrow> nat \<Rightarrow> nat" where
  "mag_digits_loop m d = (if d < 40 \<and> 0 \<le> mag_cmp m (P10 d) then mag_digits_loop m (Suc d) else d)"
  by pat_completeness auto
termination by (relation "measure (\<lambda>(m, d). 40 - d)") auto

declare mag_digits_loop.simps [simp del]

definition mag_digits :: "mag \<Rightarrow> nat" where "mag_digits m = mag_digits_loop m 1"

definition u128_byte :: "nat \<Rightarrow> u8 list \<times> u128 \<Rightarrow> u8 list \<times> u128" where
  "u128_byte i = (\<lambda>(bs, v). (ucast (v AND 0xff) # bs, drop_bit 8 v))"

definition mag_from_u128 :: "u128 \<Rightarrow> u8 \<Rightarrow> mag" where
  "mag_from_u128 v hi = hi # fst (fold u128_byte [0..<16] ([], v))"

text \<open>The loops from the last byte, over the bytes in that order.\<close>

fun minus_one_loop :: "u8 list \<Rightarrow> u8 list" where
  "minus_one_loop [] = []"
| "minus_one_loop (b # bs) = (b - 1) # (if b \<noteq> 0 then bs else minus_one_loop bs)"

fun plus_one_loop :: "u8 list \<Rightarrow> u8 list" where
  "plus_one_loop [] = []"
| "plus_one_loop (b # bs) = (b + 1) # (if b + 1 \<noteq> 0 then bs else plus_one_loop bs)"

definition mag_minus_one :: "mag \<Rightarrow> mag" where "mag_minus_one a = rev (minus_one_loop (rev a))"
definition mag_plus_one :: "mag \<Rightarrow> mag" where "mag_plus_one a = rev (plus_one_loop (rev a))"

subsection \<open>What they compute\<close>

lemma length_mag_mul [simp]: "length (fst (mag_mul_small m f add)) = length m"
  by (induction m) (auto simp: Let_def split_beta)

lemma low_byte:
  fixes v :: "'a :: len word"
  assumes "8 \<le> LENGTH('a)"
  shows "unat (ucast (v AND 0xff) :: u8) = unat v mod 256"
proof -
  have m: "(0xff :: 'a word) = mask 8" by (simp add: mask_eq_exp_minus_1)
  have "ucast (v AND 0xff) = (ucast v :: u8)"
    unfolding m using assms by (intro bit_eqI) (auto simp: bit_simps dest: bit_imp_le_length)
  then show ?thesis by (simp add: unsigned_ucast_eq take_bit_eq_mod)
qed

lemma carry_zero: "x + c * p < p \<Longrightarrow> c = (0 :: nat)"
  by (cases c) simp_all

lemma mag_mul_small_num:
  assumes "unat f < 2 ^ 24" "unat add \<le> unat f"
  shows "unat (snd (mag_mul_small m f add)) \<le> unat f \<and>
    buf_num (fst (mag_mul_small m f add)) + unat (snd (mag_mul_small m f add)) * 256 ^ length m
      = buf_num m * unat f + unat add"
proof (induction m)
  case Nil
  then show ?case using assms by simp
next
  case (Cons b bs)
  obtain bs' c where r: "mag_mul_small bs f add = (bs', c)" by fastforce
  define v where "v = ucast b * f + c"
  have IH: "unat c \<le> unat f" "buf_num bs' + unat c * 256 ^ length bs = buf_num bs * unat f + unat add"
    using Cons.IH r by auto
  have b: "unat b \<le> 255" using u8_bound [of b] by linarith
  have "unat b * unat f + unat c < 4294967296"
  proof -
    have "unat b * unat f \<le> 255 * unat f" using b by (rule mult_le_mono1)
    moreover have "unat f < 16777216" using assms(1) by simp
    ultimately show ?thesis using IH(1) by linarith
  qed
  then have v: "unat v = unat b * unat f + unat c"
  proof -
    have "take_bit 32 (unat b) = unat b" using b by (intro take_bit_nat_eq_self) simp
    then show ?thesis
      using \<open>unat b * unat f + unat c < 4294967296\<close>
      unfolding v_def by (simp add: unat_word_ariths unsigned_ucast_eq mod_add_left_eq)
  qed
  have low: "unat (ucast (v AND 0xff) :: u8) = unat v mod 256" by (rule low_byte) simp
  have high: "unat (drop_bit 8 v) = unat v div 256"
    by (simp add: drop_bit_eq_div unat_div)
  have "unat v div 256 \<le> unat f"
  proof -
    have "unat v \<le> 256 * unat f" using v IH(1) mult_le_mono1 [OF b, of "unat f"] by linarith
    then show ?thesis using div_le_mono [of "unat v" "256 * unat f" 256] by simp
  qed
  moreover have "unat v mod 256 * 256 ^ length bs + buf_num bs' + unat v div 256 * 256 ^ Suc (length bs)
      = (unat b * 256 ^ length bs + buf_num bs) * unat f + unat add"
  proof -
    have "unat v mod 256 * p + unat v div 256 * (256 * p) = (unat v mod 256 + unat v div 256 * 256) * p" for p
      by (simp only: add_mult_distrib mult.assoc)
    then have "unat v mod 256 * 256 ^ length bs + unat v div 256 * 256 ^ Suc (length bs) = unat v * 256 ^ length bs"
      by (simp only: mod_div_mult_eq power_Suc)
    then show ?thesis using IH(2) v by (simp add: algebra_simps)
  qed
  ultimately show ?case using low high by (simp add: r v_def [symmetric] Let_def length_mag_mul [of bs f add, unfolded r, simplified])
qed

lemma P10_ok [simp]: "length (P10 i) = 17"
  by (induction i) (simp_all add: DB_NUMERIC_BUF_SIZE_def)

lemma P10_num: "i \<le> 40 \<Longrightarrow> buf_num (P10 i) = 10 ^ i"
proof (induction i)
  case 0
  have "(replicate DB_NUMERIC_BUF_SIZE 0)[DB_NUMERIC_BUF_SIZE - 1 := 1] = replicate 16 (0 :: u8) @ [1]"
    by code_simp
  then show ?case by (simp add: buf_num_def map_replicate be_num_append)
next
  case (Suc i)
  let ?r = "mag_mul_small (P10 i) 10 0"
  have e: "buf_num (fst ?r) + unat (snd ?r) * 256 ^ 17 = 10 ^ Suc i"
    using mag_mul_small_num [of 10 0 "P10 i"] Suc by (simp add: mult.commute)
  have "(10 :: nat) ^ Suc i \<le> 10 ^ 40" using Suc.prems by (intro power_increasing) auto
  also have "\<dots> < 256 ^ 17" by simp
  finally have small: "(10 :: nat) ^ Suc i < 256 ^ 17" .
  have "unat (snd ?r) = 0" by (rule carry_zero [of "buf_num (fst ?r)" _ "256 ^ 17"]) (use e small in linarith)
  then show ?case using e by simp
qed

lemma mag_cmp_num:
  assumes "length a = length b"
  shows "mag_cmp a b = (if buf_num a < buf_num b then - 1 else if buf_num a = buf_num b then 0 else 1)"
  using assms
proof (induction a b rule: list_induct2)
  case (Cons x xs y ys)
  have less: "unat x * 256 ^ length xs + buf_num xs < unat y * 256 ^ length ys + buf_num ys"
    if "unat x < unat y" and "length xs = length ys" for x y :: u8 and xs ys :: mag
  proof -
    have "Suc (unat x) * 256 ^ length xs \<le> unat y * 256 ^ length ys" using that by (metis Suc_leI mult_le_mono1)
    then show ?thesis using buf_num_bound [of xs] by simp
  qed
  show ?case
    using Cons less [of x y xs ys] less [of y x ys xs]
    by (cases x y rule: linorder_cases) (auto simp: word_less_nat_alt)
qed simp

text \<open>The comparison keeps the contract of a three-way comparison over the numbers.\<close>

interpretation mag: three_way mag_cmp "\<lambda>m. int (buf_num m)" mag_ok
  by unfold_locales (simp_all add: mag_cmp_num mag_ok_def)

lemma mag_ok_P10 [simp]: "mag_ok (P10 i)"
  by (simp add: mag_ok_def DB_NUMERIC_BUF_SIZE_def)

lemma mag_ge_P10: "mag_ok m \<Longrightarrow> i \<le> 40 \<Longrightarrow> 0 \<le> mag_cmp m (P10 i) \<longleftrightarrow> 10 ^ i \<le> buf_num m"
  using mag.cmp_ge_iff [of m "P10 i"] by (simp add: P10_num flip: of_nat_power)

lemma mag_digits_loop_spec:
  assumes "mag_ok m" "1 \<le> d" "d \<le> 40" "d = 1 \<or> 10 ^ (d - 1) \<le> buf_num m" "buf_num m < 10 ^ 40"
  shows "mag_digits_loop m d \<le> 40 \<and> 1 \<le> mag_digits_loop m d \<and> buf_num m < 10 ^ mag_digits_loop m d
    \<and> (mag_digits_loop m d = 1 \<or> 10 ^ (mag_digits_loop m d - 1) \<le> buf_num m)"
  using assms
proof (induction m d rule: mag_digits_loop.induct)
  case (1 m d)
  show ?case
  proof (cases "d < 40 \<and> 0 \<le> mag_cmp m (P10 d)")
    case True
    then have "10 ^ d \<le> buf_num m" using mag_ge_P10 [of m d] 1 by simp
    moreover have "mag_digits_loop m d = mag_digits_loop m (Suc d)"
      using True by (subst mag_digits_loop.simps) (simp only: if_True simp_thms)
    ultimately show ?thesis using 1(1) [OF True] 1(2-) True by (simp del: power_Suc)
  next
    case False
    then have "buf_num m < 10 ^ d"
      using mag_ge_P10 [of m d] 1 by (cases "d = 40") auto
    moreover have "mag_digits_loop m d = d"
      using False by (subst mag_digits_loop.simps) (simp only: if_False)
    ultimately show ?thesis using 1(2-) by simp
  qed
qed

lemma mag_digits_spec:
  assumes "mag_ok m" "buf_num m < 10 ^ 40"
  shows "1 \<le> mag_digits m \<and> mag_digits m \<le> 40 \<and> buf_num m < 10 ^ mag_digits m
    \<and> (buf_num m \<noteq> 0 \<longrightarrow> 10 ^ (mag_digits m - 1) \<le> buf_num m)"
  using mag_digits_loop_spec [of m 1] assms by (auto simp: mag_digits_def)

lemma mag_from_u128_loop:
  "length (fst (fold u128_byte [0..<k] ([], v))) = k
   \<and> buf_num (fst (fold u128_byte [0..<k] ([], v))) + unat (snd (fold u128_byte [0..<k] ([], v))) * 256 ^ k = unat v"
proof (induction k)
  case (Suc k)
  obtain bs w where r: "fold u128_byte [0..<k] ([], v) = (bs, w)" by fastforce
  have IH: "length bs = k" "buf_num bs + unat w * 256 ^ k = unat v" using Suc unfolding r by simp_all
  have st: "fold u128_byte [0..<Suc k] ([], v) = (ucast (w AND 0xff) # bs, drop_bit 8 w)"
    using r by (simp only: upt_Suc_append fold_append fold_simps comp_apply zero_le) (simp add: u128_byte_def)
  have low: "unat (ucast (w AND 0xff) :: u8) = unat w mod 256" by (rule low_byte) simp
  have high: "unat (drop_bit 8 w) = unat w div 256" by (simp add: drop_bit_eq_div unat_div)
  have "unat w mod 256 * p + unat w div 256 * (256 * p) = (unat w mod 256 + unat w div 256 * 256) * p" for p
    by (simp only: add_mult_distrib mult.assoc)
  then have "unat w mod 256 * p + unat w div 256 * (256 * p) = unat w * p" for p
    by (simp only: mod_div_mult_eq)
  from this [of "256 ^ k"] show ?case
    using IH unfolding st fst_conv snd_conv length_Cons buf_num_simps low high power_Suc by simp
qed simp

lemma mag_from_u128_num: "length (mag_from_u128 v hi) = 17 \<and> buf_num (mag_from_u128 v hi) = unat hi * 2 ^ 128 + unat v"
proof -
  let ?f = "fold u128_byte [0..<16] ([], v)"
  have l: "length (fst ?f) = 16" and e: "buf_num (fst ?f) + unat (snd ?f) * 256 ^ 16 = unat v"
    using mag_from_u128_loop [where k = 16 and v = v] by blast+
  have "unat v < 256 ^ 16" using unsigned_less [of v, where 'a = nat] by simp
  then have "unat (snd ?f) = 0" using e by (intro carry_zero [of "buf_num (fst ?f)" _ "256 ^ 16"]) linarith
  then show ?thesis using l e by (simp add: mag_from_u128_def)
qed

lemma buf_num_rev_Cons: "buf_num (rev (b # bs)) = unat b + 256 * buf_num (rev bs)"
  by (simp add: buf_num_def)

lemma length_plus_minus [simp]: "length (plus_one_loop bs) = length bs" "length (minus_one_loop bs) = length bs"
  by (induction bs) simp_all

lemma plus_one_loop_num: "buf_num (rev (plus_one_loop bs)) = (buf_num (rev bs) + 1) mod 256 ^ length bs"
proof (induction bs)
  case (Cons b bs)
  show ?case
  proof (cases "b + 1 = 0")
    case True
    then have "b = - 1" by (simp add: eq_neg_iff_add_eq_0)
    then have b: "unat b = 255" by (simp add: unsigned_minus_1_eq_mask mask_eq_exp_minus_1)
    then show ?thesis
      unfolding plus_one_loop.simps buf_num_rev_Cons using True Cons.IH b
      by (simp add: mult_mod_right)
  next
    case False
    then have u: "unat (b + 1) = unat b + 1" by (simp add: unat_eq_0 unatSuc add.commute)
    have "buf_num (rev (b # bs)) + 1 < 256 ^ length (b # bs)"
    proof -
      have "unat (b + 1) < 256" by (rule u8_bound)
      then have "unat b + 1 \<le> 255" using u by linarith
      moreover have "buf_num (rev bs) < 256 ^ length bs" using buf_num_bound [of "rev bs"] by simp
      ultimately have "unat b + 256 * buf_num (rev bs) + 1 < 256 * 256 ^ length bs" by linarith
      then show ?thesis by (simp only: buf_num_rev_Cons length_Cons power_Suc)
    qed
    then show ?thesis
      using False u by (simp only: plus_one_loop.simps if_True buf_num_rev_Cons mod_less simp_thms)
  qed
qed simp

lemma minus_one_loop_num:
  "buf_num (rev (minus_one_loop bs)) = (buf_num (rev bs) + (256 ^ length bs - 1)) mod 256 ^ length bs"
proof (induction bs)
  case (Cons b bs)
  let ?n = "buf_num (rev bs)" and ?p = "256 ^ length bs :: nat"
  have n: "?n < ?p" using buf_num_bound [of "rev bs"] by simp
  have p: "1 \<le> ?p" by simp
  show ?case
  proof (cases "b = 0")
    case True
    obtain q where "?p = Suc q" using p by (metis Suc_le_D One_nat_def)
    then have "256 * ?n + (256 * ?p - 1) = 255 + 256 * (?n + (?p - 1))" by simp
    then have "(256 * ?n + (256 * ?p - 1)) mod (256 * ?p) = 256 * ((?n + (?p - 1)) mod ?p) + 255"
      by (simp add: mod_mult2_eq)
    moreover have "unat (b - 1) = 255"
      using True by (simp add: unsigned_minus_1_eq_mask mask_eq_exp_minus_1)
    ultimately show ?thesis
      unfolding minus_one_loop.simps buf_num_rev_Cons using True Cons.IH by simp
  next
    case False
    then have u: "unat (b - 1) = unat b - 1" by (rule unat_minus_one)
    have "unat b \<noteq> 0" using False by (simp add: unat_eq_0)
    then have u1: "1 \<le> unat b" by linarith
    have "unat b < 256" by (rule u8_bound)
    then have "unat b - 1 + 256 * ?n < 256 * ?p" using n u1 by linarith
    moreover have "unat b + 256 * ?n + (256 * ?p - 1) = (unat b - 1 + 256 * ?n) + 256 * ?p" using p u1 by linarith
    ultimately have "(unat b + 256 * ?n + (256 * ?p - 1)) mod (256 * ?p) = unat b - 1 + 256 * ?n"
      by (simp only: mod_add_self2 mod_less)
    moreover have "minus_one_loop (b # bs) = (b - 1) # bs" using False by simp
    ultimately show ?thesis unfolding length_Cons power_Suc by (simp only: buf_num_rev_Cons u)
  qed
qed simp

lemma mag_plus_minus_num:
  "buf_num (mag_plus_one m) = (buf_num m + 1) mod 256 ^ length m"
  "buf_num (mag_minus_one m) = (buf_num m + (256 ^ length m - 1)) mod 256 ^ length m"
  using plus_one_loop_num [of "rev m"] minus_one_loop_num [of "rev m"]
  by (simp_all add: mag_plus_one_def mag_minus_one_def)

lemma mag_ok_simps [simp]: "mag_ok (mag_from_u128 v hi)"
    "mag_ok (mag_plus_one m) = mag_ok m" "mag_ok (mag_minus_one m) = mag_ok m"
  using mag_from_u128_num by (simp_all add: mag_ok_def DB_NUMERIC_BUF_SIZE_def mag_plus_one_def mag_minus_one_def)

text \<open>
  Each operation on 17-byte magnitudes is its operation on numbers: the small product leaves the
  number and the carry, the comparison is the order, the table holds the powers of ten, the digit count
  is the number of decimal digits, and one more and one less wrap around at \<open>256\<^sup>1\<^sup>7\<close>.
\<close>

theorem magnitude_operations:
  assumes "mag_ok m" "mag_ok k" "unat f < 2 ^ 24" "unat add \<le> unat f" "i \<le> 40"
  shows "buf_num (fst (mag_mul_small m f add)) + unat (snd (mag_mul_small m f add)) * 256 ^ 17
      = buf_num m * unat f + unat add
    \<and> mag_cmp m k = (if buf_num m < buf_num k then - 1 else if buf_num m = buf_num k then 0 else 1)
    \<and> buf_num (P10 i) = 10 ^ i
    \<and> (buf_num m < 10 ^ 40 \<longrightarrow> 1 \<le> mag_digits m \<and> mag_digits m \<le> 40 \<and> buf_num m < 10 ^ mag_digits m
        \<and> (buf_num m \<noteq> 0 \<longrightarrow> 10 ^ (mag_digits m - 1) \<le> buf_num m))
    \<and> buf_num (mag_from_u128 v hi) = unat hi * 2 ^ 128 + unat v
    \<and> buf_num (mag_plus_one m) = (buf_num m + 1) mod 256 ^ 17
    \<and> buf_num (mag_minus_one m) = (buf_num m + (256 ^ 17 - 1)) mod 256 ^ 17"
proof -
  have l: "length m = 17" "length k = 17" using assms(1,2) by (simp_all add: mag_ok_def DB_NUMERIC_BUF_SIZE_def)
  show ?thesis
    using mag_mul_small_num [OF assms(3,4), of m] mag_cmp_num [of m k] mag_digits_spec [OF assms(1)]
      mag_from_u128_num [of v hi] mag_plus_minus_num [of m]
    unfolding l P10_num [OF assms(5)] by blast
qed

theorem magnitude_operations_witness:
  "buf_num (mag_minus_one (P10 40)) = 10 ^ 40 - 1 \<and> mag_cmp (P10 3) (P10 2) = 1 \<and> mag_digits (P10 3) = 4"
proof -
  let ?d = "mag_digits (P10 3)"
  have n: "buf_num (P10 40) = 10 ^ 40" "buf_num (P10 3) = 10 ^ 3" "buf_num (P10 2) = 10 ^ 2"
    by (rule P10_num; simp)+
  have a: "buf_num (mag_minus_one (P10 40)) = (buf_num (P10 40) + (256 ^ 17 - 1)) mod 256 ^ 17"
    using magnitude_operations [of "P10 40" "P10 2" 10 0 0 0 0] by simp
  have b: "mag_cmp (P10 3) (P10 2) = 1" and
    d: "buf_num (P10 3) < 10 ^ ?d" "10 ^ (?d - 1) \<le> buf_num (P10 3)"
    using magnitude_operations [of "P10 3" "P10 2" 10 0 0 0 0] n(2,3) by simp_all
  have "\<not> ?d \<le> 3"
  proof
    assume "?d \<le> 3"
    then have "(10 :: nat) ^ ?d \<le> 10 ^ 3" by (rule power_increasing) simp
    then show False using d(1) unfolding n by linarith
  qed
  moreover have "\<not> 4 \<le> ?d - 1"
  proof
    assume "4 \<le> ?d - 1"
    then have "(10 :: nat) ^ 4 \<le> 10 ^ (?d - 1)" by (rule power_increasing) simp
    then show False using d(2) unfolding n by simp
  qed
  ultimately have "?d = 4" by linarith
  then show ?thesis using a b unfolding n by simp
qed

section \<open>The edge magnitudes\<close>

definition edge_mags :: "mag list" where
  "edge_mags =
     map (\<lambda>v. mag_from_u128 v 0)
       [0, 1, 2, 5, 9, 10, 99, 12345, push_bit 32 1, push_bit 63 1 - 1, push_bit 63 1, push_bit 64 1 - 1, push_bit 64 1,
        push_bit 64 1 + 1, push_bit 127 1 - 1, push_bit 127 1, NOT 0]
     @ [mag_from_u128 0 1, mag_plus_one (mag_from_u128 0 1)]
     @ concat (map (\<lambda>k. [P10 k, mag_minus_one (P10 k)]) [18, 19, 20, 37, 38, 39])
     @ [mag_minus_one (P10 40)]"

lemma edge_numbers:
  "map buf_num edge_mags =
     [0, 1, 2, 5, 9, 10, 99, 12345, 2 ^ 32, 2 ^ 63 - 1, 2 ^ 63, 2 ^ 64 - 1, 2 ^ 64, 2 ^ 64 + 1, 2 ^ 127 - 1, 2 ^ 127,
      2 ^ 128 - 1, 2 ^ 128, 2 ^ 128 + 1, 10 ^ 18, 10 ^ 18 - 1, 10 ^ 19, 10 ^ 19 - 1, 10 ^ 20, 10 ^ 20 - 1,
      10 ^ 37, 10 ^ 37 - 1, 10 ^ 38, 10 ^ 38 - 1, 10 ^ 39, 10 ^ 39 - 1, 10 ^ 40 - 1]"
proof -
  have v: "buf_num (mag_from_u128 v h) = unat h * 2 ^ 128 + unat v" for v h using mag_from_u128_num by blast
  have l: "length (mag_from_u128 v h) = 17" for v h using mag_from_u128_num by blast
  have t: "unat (NOT 0 :: u128) = 2 ^ 128 - 1"
    by (simp add: unsigned_minus_1_eq_mask mask_eq_exp_minus_1)
  show ?thesis unfolding edge_mags_def map_append list.map concat.simps append.simps mag_plus_minus_num v l P10_ok t
    by (simp add: P10_num)
qed

lemma length_edge_mags: "length edge_mags = 32"
  by (simp add: edge_mags_def)

lemma edge_mags_ok: "m \<in> set edge_mags \<Longrightarrow> mag_ok m \<and> buf_num m < 10 ^ 40"
proof
  assume m: "m \<in> set edge_mags"
  show "mag_ok m" using m by (auto simp: edge_mags_def)
  have "buf_num m \<in> set (map buf_num edge_mags)" using m by simp
  then show "buf_num m < 10 ^ 40" unfolding edge_numbers by auto
qed

section \<open>The generator\<close>

type_synonym 'a generator = "(u64, 'a) state"

text \<open>One step of the 64-bit mixer; the state is the counter.\<close>

definition rnd :: "u64 generator" where
  "rnd = State (\<lambda>st.
     let st = st + 0x9E3779B97F4A7C15;
         z = (st XOR drop_bit 30 st) * 0xBF58476D1CE4E5B9;
         z = (z XOR drop_bit 27 z) * 0x94D049BB133111EB
     in (z XOR drop_bit 31 z, st))"

definition rnd_range :: "int \<Rightarrow> int \<Rightarrow> int generator" where
  "rnd_range lo hi = do { u \<leftarrow> rnd; State_Monad.return (lo + uint (u mod word_of_int (hi - lo + 1))) }"

definition set_mag_bit :: "mag \<Rightarrow> nat \<Rightarrow> mag" where
  "set_mag_bit m i =
     m[DB_NUMERIC_BUF_SIZE - 1 - i div 8 := m ! (DB_NUMERIC_BUF_SIZE - 1 - i div 8) OR push_bit (i mod 8) 1]"

fun rand_bits :: "nat list \<Rightarrow> mag \<Rightarrow> mag generator" where
  "rand_bits [] m = State_Monad.return m"
| "rand_bits (i # is) m = do { u \<leftarrow> rnd; rand_bits is (if u AND 1 \<noteq> 0 then set_mag_bit m i else m) }"

text \<open>\<open>while (mag_cmp (m, P10[40]) >= 0) m.b[0] >>= 1\<close>.\<close>

partial_function (option) shrink :: "mag \<Rightarrow> mag option" where
  "shrink m = (if 0 \<le> mag_cmp m (P10 40) then shrink (m[0 := drop_bit 1 (m ! 0)]) else Some m)"

definition rand_mag :: "mag option generator" where
  "rand_mag = do {
     u \<leftarrow> rnd;
     if u mod 8 = 0
     then do { k \<leftarrow> rnd; State_Monad.return (Some (edge_mags ! unat (k mod of_nat (length edge_mags)))) }
     else do {
       bits \<leftarrow> rnd_range 0 133;
       m \<leftarrow> rand_bits [0..<nat bits] (replicate DB_NUMERIC_BUF_SIZE 0);
       State_Monad.return (shrink (if 0 < bits then set_mag_bit m (nat bits - 1) else m))
     }
   }"

definition edge_scales :: "int list" where
  "edge_scales =
     [-214, -213, -200, -120, -108, -107, -100, -84, -40, -39, -38, -37, -20, -19, -2, -1, 0, 1, 2, 5, 18, 19, 20, 37,
      38, 39, 40, 76, 100, 126, 127, 200, 214, 251, 252]"

definition clamp :: "int \<Rightarrow> int \<Rightarrow> int \<Rightarrow> int" where
  "clamp lo hi s = (if s < lo then lo else if hi < s then hi else s)"

definition rand_scale :: "int \<Rightarrow> bool \<Rightarrow> int generator" where
  "rand_scale near_scale use_near =
     (if use_near then do { d \<leftarrow> rnd_range (-45) 45; State_Monad.return (clamp (-214) 252 (near_scale + d)) }
      else do {
        u \<leftarrow> rnd;
        if u mod 3 = 0
        then do { k \<leftarrow> rnd; State_Monad.return (edge_scales ! unat (k mod of_nat (length edge_scales))) }
        else rnd_range (-214) 252
      })"

record spec =
  sp_mag :: mag
  sp_prec :: int
  sp_scale :: int
  sp_neg :: bool
  sp_is_float :: bool

text \<open>
  The operand: its sign is drawn, and a zero's sign is dropped but for one draw in fifty; \<open>||\<close> draws only
  when the digits fit 38; precision and scale are drawn by kind.
\<close>

definition rand_spec_of :: "int \<Rightarrow> bool \<Rightarrow> mag \<Rightarrow> spec generator" where
  "rand_spec_of near_scale use_near m = do {
     let digits = int (mag_digits m);
     let is_zero = mag_cmp m (P10 0) < 0;
     u \<leftarrow> rnd;
     neg \<leftarrow> (if is_zero then do { w \<leftarrow> rnd; State_Monad.return (if w mod 50 \<noteq> 0 then False else u AND 1 \<noteq> 0) }
            else State_Monad.return (u AND 1 \<noteq> 0));
     is_float \<leftarrow> (if 38 < digits then State_Monad.return True
                  else do { w \<leftarrow> rnd; State_Monad.return (w mod 3 \<noteq> 0) });
     if is_float then do {
       w \<leftarrow> rnd;
       prec \<leftarrow> (if w mod 5 = 0 then rnd_range digits 40 else State_Monad.return digits);
       scale \<leftarrow> rand_scale near_scale use_near;
       State_Monad.return \<lparr>sp_mag = m, sp_prec = prec, sp_scale = scale, sp_neg = neg, sp_is_float = True\<rparr>
     } else do {
       prec \<leftarrow> rnd_range digits 38;
       w \<leftarrow> rnd;
       scale \<leftarrow> (if w mod 10 = 0 then rnd_range (-84) (-1) else rnd_range 0 prec);
       near \<leftarrow> (if use_near then do { w \<leftarrow> rnd; State_Monad.return (w mod 2 = 0) } else State_Monad.return False);
       scale \<leftarrow> (if near then do { d \<leftarrow> rnd_range (-3) 3; State_Monad.return (clamp (-84) 127 (near_scale + d)) }
                else State_Monad.return scale);
       State_Monad.return \<lparr>sp_mag = m, sp_prec = prec, sp_scale = scale, sp_neg = neg, sp_is_float = False\<rparr>
     }
   }"

definition rand_spec :: "int \<Rightarrow> bool \<Rightarrow> spec option generator" where
  "rand_spec near_scale use_near = do {
     m \<leftarrow> rand_mag;
     case m of None \<Rightarrow> State_Monad.return None
     | Some m \<Rightarrow> do { s \<leftarrow> rand_spec_of near_scale use_near m; State_Monad.return (Some s) }
   }"

subsection \<open>What a generator can answer\<close>

text \<open>\<open>pred_state P g\<close>: from every state of the generator the answer of \<open>g\<close> satisfies \<open>P\<close>.\<close>

lemma gen_return: "P x \<Longrightarrow> pred_state P (State_Monad.return x)"
  by (rule pred_stateI) simp

lemma gen_bind: "pred_state Q g \<Longrightarrow> (\<And>x. Q x \<Longrightarrow> pred_state P (f x)) \<Longrightarrow> pred_state P (State_Monad.bind g f)"
  by (rule bind_predI) (auto elim: state.pred_mono_strong)

lemma gen_any: "pred_state (\<lambda>_. True) g"
  by (rule pred_stateI) simp

lemma gen_draw: "(\<And>u. pred_state P (f u)) \<Longrightarrow> pred_state P (State_Monad.bind g f)"
  by (rule gen_bind [OF gen_any])

lemma gen_if: "(b \<Longrightarrow> pred_state P g) \<Longrightarrow> (\<not> b \<Longrightarrow> pred_state P h) \<Longrightarrow> pred_state P (if b then g else h)"
  by simp

lemma gen_weaken: "pred_state Q g \<Longrightarrow> (\<And>x. Q x \<Longrightarrow> P x) \<Longrightarrow> pred_state P g"
  by (auto elim: state.pred_mono_strong)

lemma rnd_range_bounds:
  assumes "lo \<le> hi" "hi - lo < 2 ^ 31"
  shows "pred_state (\<lambda>x. lo \<le> x \<and> x \<le> hi) (rnd_range lo hi)"
proof -
  have n: "uint (word_of_int (hi - lo + 1) :: u64) = hi - lo + 1"
  proof -
    have u: "uint (word_of_int x :: u64) = x" if "0 \<le> x" "x < 2 ^ 64" for x
      using that by (simp add: unsigned_of_int take_bit_int_eq_self)
    show ?thesis by (rule u) (use assms in simp_all)
  qed
  have "uint (u mod word_of_int (hi - lo + 1) :: u64) < hi - lo + 1" for u :: u64
    unfolding uint_mod n using assms(1) by (intro pos_mod_bound) simp
  then show ?thesis
    unfolding rnd_range_def by (intro gen_draw gen_return) (smt (verit) uint_ge_0)
qed

lemma set_mag_bit_ok [simp]: "mag_ok (set_mag_bit m i) = mag_ok m"
  by (simp add: mag_ok_def set_mag_bit_def)

lemma rand_bits_ok: "mag_ok m \<Longrightarrow> pred_state mag_ok (rand_bits is m)"
  by (induction "is" arbitrary: m) (auto intro!: gen_return gen_draw)

text \<open>
  The shifting loop ends: while the number is not below \<open>10\<^sup>4\<^sup>0\<close> its first byte is not zero, and each turn
  halves it.
\<close>

lemma shrink_ends:
  assumes "mag_ok m"
  shows "\<exists>m'. shrink m = Some m' \<and> mag_ok m' \<and> buf_num m' < 10 ^ 40 \<and> tl m' = tl m
    \<and> (buf_num m < 10 ^ 40 \<longrightarrow> m' = m)"
  using assms
proof (induction "unat (m ! 0)" arbitrary: m rule: less_induct)
  case less
  have ge: "0 \<le> mag_cmp m (P10 40) \<longleftrightarrow> 10 ^ 40 \<le> buf_num m" using mag_ge_P10 [OF less.prems, of 40] by simp
  obtain b bs where m: "m = b # bs" "length bs = 16"
    using less.prems by (cases m) (auto simp: mag_ok_def DB_NUMERIC_BUF_SIZE_def)
  show ?case
  proof (cases "10 ^ 40 \<le> buf_num m")
    case False
    then show ?thesis using ge less.prems by (subst shrink.simps) simp
  next
    case True
    have "unat b \<noteq> 0"
    proof
      assume "unat b = 0"
      then have "buf_num m < 256 ^ 16" using buf_num_bound [of bs] m by simp
      then show False using True by simp
    qed
    then have "unat (drop_bit 1 b) < unat b" by (simp add: drop_bit_eq_div unat_div)
    moreover have "shrink m = shrink (drop_bit 1 b # bs)"
      using True ge m by (subst shrink.simps) simp
    moreover have "mag_ok (drop_bit 1 b # bs)" using less.prems m by (simp add: mag_ok_def)
    ultimately obtain m' where "shrink m = Some m'" "mag_ok m'" "buf_num m' < 10 ^ 40" "tl m' = bs"
      using less.hyps [of "drop_bit 1 b # bs"] m by auto
    then show ?thesis using True m(1) by (intro exI [of _ m']) simp
  qed
qed

lemma rand_mag_ok: "pred_state (\<lambda>r. \<exists>m. r = Some m \<and> mag_ok m \<and> buf_num m < 10 ^ 40) rand_mag"
proof -
  have k: "unat (k mod of_nat (length edge_mags) :: u64) < length edge_mags" for k :: u64
    by (simp add: length_edge_mags unat_mod)
  have e: "\<exists>m. Some (edge_mags ! unat (k mod of_nat (length edge_mags) :: u64)) = Some m \<and> mag_ok m \<and> buf_num m < 10 ^ 40"
    for k :: u64 using edge_mags_ok [OF nth_mem [OF k]] by blast
  have z: "mag_ok (replicate DB_NUMERIC_BUF_SIZE 0)" by (simp add: mag_ok_def)
  have s: "\<exists>m'. shrink m = Some m' \<and> mag_ok m' \<and> buf_num m' < 10 ^ 40" if "mag_ok m" for m
    using shrink_ends [OF that] by blast
  show ?thesis
    unfolding rand_mag_def
    apply (rule gen_draw, rule gen_if)
     apply (intro gen_draw gen_return e)
    apply (rule gen_draw, rule gen_bind [OF rand_bits_ok [OF z]], rule gen_return, rule s)
    apply simp
    done
qed

lemma rand_scale_bounds: "pred_state (\<lambda>s. - 214 \<le> s \<and> s \<le> 252) (rand_scale near use_near)"
proof -
  have "unat (k mod of_nat (length edge_scales) :: u64) < length edge_scales" for k :: u64
    by (simp add: edge_scales_def unat_mod)
  moreover have "\<forall>s \<in> set edge_scales. - 214 \<le> s \<and> s \<le> 252" by (simp add: edge_scales_def)
  ultimately have "- 214 \<le> edge_scales ! unat (k mod of_nat (length edge_scales) :: u64)
      \<and> edge_scales ! unat (k mod of_nat (length edge_scales) :: u64) \<le> 252" for k :: u64
    by (meson nth_mem)
  then show ?thesis
    unfolding rand_scale_def
    by (intro gen_if gen_draw gen_return rnd_range_bounds) (auto simp: clamp_def)
qed

text \<open>A well-formed operand.\<close>

definition spec_ok :: "spec \<Rightarrow> bool" where
  "spec_ok s \<longleftrightarrow> mag_ok (sp_mag s) \<and> buf_num (sp_mag s) < 10 ^ nat (sp_prec s)
     \<and> 1 \<le> sp_prec s \<and> sp_prec s \<le> (if sp_is_float s then 40 else 38)
     \<and> (if sp_is_float s then - 214 \<le> sp_scale s \<and> sp_scale s \<le> 252 else - 84 \<le> sp_scale s \<and> sp_scale s \<le> 127)"

lemma rand_spec_of_ok:
  assumes "mag_ok m" "buf_num m < 10 ^ 40"
  shows "pred_state (\<lambda>s. spec_ok s \<and> sp_mag s = m) (rand_spec_of near use_near m)"
proof -
  let ?d = "int (mag_digits m)"
  have d: "1 \<le> ?d" "?d \<le> 40" "buf_num m < 10 ^ mag_digits m" using mag_digits_spec [OF assms] by auto
  have fits: "buf_num m < 10 ^ nat p" if "?d \<le> p" for p
  proof -
    have "mag_digits m \<le> nat p" using that by linarith
    then have "(10 :: nat) ^ mag_digits m \<le> 10 ^ nat p" by (rule power_increasing) simp
    then show ?thesis using d(3) by linarith
  qed
  have flt: "pred_state (\<lambda>s. spec_ok s \<and> sp_mag s = m) (do {
       w \<leftarrow> rnd;
       prec \<leftarrow> (if w mod 5 = 0 then rnd_range ?d 40 else State_Monad.return ?d);
       scale \<leftarrow> rand_scale near use_near;
       State_Monad.return \<lparr>sp_mag = m, sp_prec = prec, sp_scale = scale, sp_neg = neg, sp_is_float = True\<rparr> })" for neg
  proof (rule gen_draw, rule gen_bind [where Q = "\<lambda>p. ?d \<le> p \<and> p \<le> 40"])
    show "pred_state (\<lambda>p. ?d \<le> p \<and> p \<le> 40) (if w mod 5 = 0 then rnd_range ?d 40 else State_Monad.return ?d)" for w :: u64
      using d by (intro gen_if rnd_range_bounds gen_return) auto
  next
    fix p assume "?d \<le> p \<and> p \<le> 40"
    then show "pred_state (\<lambda>s. spec_ok s \<and> sp_mag s = m) (do { scale \<leftarrow> rand_scale near use_near;
       State_Monad.return \<lparr>sp_mag = m, sp_prec = p, sp_scale = scale, sp_neg = neg, sp_is_float = True\<rparr> })"
      using d(1) assms(1) fits [of p]
      by (intro gen_bind [OF rand_scale_bounds] gen_return) (auto simp: spec_ok_def)
  qed
  have fxd: "pred_state (\<lambda>s. spec_ok s \<and> sp_mag s = m) (do {
       prec \<leftarrow> rnd_range ?d 38;
       w \<leftarrow> rnd;
       scale \<leftarrow> (if w mod 10 = 0 then rnd_range (-84) (-1) else rnd_range 0 prec);
       nr \<leftarrow> (if use_near then do { w \<leftarrow> rnd; State_Monad.return (w mod 2 = 0) } else State_Monad.return False);
       scale \<leftarrow> (if nr then do { d \<leftarrow> rnd_range (-3) 3; State_Monad.return (clamp (-84) 127 (near + d)) }
                else State_Monad.return scale);
       State_Monad.return \<lparr>sp_mag = m, sp_prec = prec, sp_scale = scale, sp_neg = neg, sp_is_float = False\<rparr> })"
    if "?d \<le> 38" for neg
  proof (rule gen_bind [OF rnd_range_bounds])
    fix p assume p: "?d \<le> p \<and> p \<le> 38"
    let ?ok = "\<lambda>s. - 84 \<le> s \<and> s \<le> (127 :: int)"
    have scale: "pred_state ?ok (if w mod 10 = 0 then rnd_range (-84) (-1) else rnd_range 0 p)" for w :: u64
      using p d(1) by (intro gen_if gen_weaken [OF rnd_range_bounds]) auto
    have near: "pred_state ?ok (if nr then do { d \<leftarrow> rnd_range (-3) 3; State_Monad.return (clamp (-84) 127 (near + d)) }
        else State_Monad.return s)" if "?ok s" for nr s
      using that by (intro gen_if gen_draw gen_return) (auto simp: clamp_def)
    show "pred_state (\<lambda>s. spec_ok s \<and> sp_mag s = m) (do {
       w \<leftarrow> rnd;
       scale \<leftarrow> (if w mod 10 = 0 then rnd_range (-84) (-1) else rnd_range 0 p);
       nr \<leftarrow> (if use_near then do { w \<leftarrow> rnd; State_Monad.return (w mod 2 = 0) } else State_Monad.return False);
       scale \<leftarrow> (if nr then do { d \<leftarrow> rnd_range (-3) 3; State_Monad.return (clamp (-84) 127 (near + d)) }
                else State_Monad.return scale);
       State_Monad.return \<lparr>sp_mag = m, sp_prec = p, sp_scale = scale, sp_neg = neg, sp_is_float = False\<rparr> })"
      using p d(1) assms(1) fits [of p]
      by (intro gen_draw gen_bind [OF scale] gen_bind [OF near] gen_return) (auto simp: spec_ok_def)
  qed (use that in auto)
  show ?thesis
    unfolding rand_spec_of_def Let_def
    apply (rule gen_draw, rule gen_draw)
    apply (rule gen_bind [where Q = "\<lambda>f. f \<or> ?d \<le> 38"])
     apply (intro gen_if gen_return gen_draw; simp)
    apply (rule gen_if, rule flt, rule fxd)
    apply simp
    done
qed

text \<open>
  C26. From every state of the generator, whatever scale it is asked to be near to, it answers an operand
  (the loop that shifts its magnitude ends), and the operand is well formed: a 17-byte magnitude within
  its precision, a precision from 1 to 40 (38 for a fixed one), a scale in the range of its kind.
\<close>

theorem rand_spec_well_formed:
  "\<exists>s. fst (run_state (rand_spec near use_near) st) = Some s \<and> spec_ok s"
proof -
  have "pred_state (\<lambda>r. \<exists>s. r = Some s \<and> spec_ok s) (rand_spec near use_near)"
    unfolding rand_spec_def
  proof (rule gen_bind [OF rand_mag_ok], elim exE conjE)
    fix r m assume "r = Some m" "mag_ok m" "buf_num m < 10 ^ 40"
    then show "pred_state (\<lambda>r. \<exists>s. r = Some s \<and> spec_ok s)
        (case r of None \<Rightarrow> State_Monad.return None
         | Some m \<Rightarrow> do { s \<leftarrow> rand_spec_of near use_near m; State_Monad.return (Some s) })"
      by (auto intro!: gen_bind [OF rand_spec_of_ok] gen_return)
  qed
  then show ?thesis by (rule pred_state_run_state)
qed

text \<open>The 32 edge magnitudes are the 32 numbers below \<open>10\<^sup>4\<^sup>0\<close> the case names, all different.\<close>

theorem edge_magnitudes: "length edge_mags = 32 \<and> distinct (map buf_num edge_mags) \<and> list_all (\<lambda>m. buf_num m < 10 ^ 40) edge_mags"
proof -
  have "distinct (map buf_num edge_mags)" unfolding edge_numbers by simp
  then show ?thesis using edge_mags_ok by (simp add: length_edge_mags list_all_iff)
qed

end
