(* ===== verification/CnfModel.thy ===== *)
theory CnfModel
  imports Prelude
begin

text \<open>
  The inspections of unit/parser/cnf.keep_or_whole/test.cpp: the length of a list and of a chain, the
  searches for lists, marks and disjunctions below a term, and the model of the predicate the planner
  builds from a condition with the depth its evaluation reaches.

  What is shown: each search is the statement about the nodes below; the predicate built from a
  condition has no missing operand; the depth of a list of chains of terms is two more than the deepest
  term whatever their number, while a left-nested disjunction forces one level per operand.
\<close>

section \<open>Conditions\<close>

text \<open>
  A parse tree node. \<open>Expr\<close> is a \<open>PT_EXPR\<close>, \<open>Other\<close> a node of another type; \<open>NULL\<close> the null
  pointer. The fields: the operator, \<open>paren_type\<close>, whether \<open>type_enum\<close> is logical, the location,
  whether an outer join mark is set, the first two arguments, \<open>next\<close> and \<open>or_next\<close>.
\<close>

datatype pt_op = PT_AND | PT_OR | PT_term nat

datatype pt_node =
    NULL
  | Other pt_node pt_node
  | Expr pt_op int bool int bool pt_node pt_node pt_node pt_node

fun nd_next :: "pt_node \<Rightarrow> pt_node" where
  "nd_next NULL = NULL"
| "nd_next (Other n r) = n"
| "nd_next (Expr op paren logical loc mark a1 a2 n r) = n"

fun nd_or_next :: "pt_node \<Rightarrow> pt_node" where
  "nd_or_next NULL = NULL"
| "nd_or_next (Other n r) = r"
| "nd_or_next (Expr op paren logical loc mark a1 a2 n r) = r"

fun list_len :: "pt_node \<Rightarrow> nat" where
  "list_len NULL = 0"
| "list_len (Other n r) = Suc (list_len n)"
| "list_len (Expr op paren logical loc mark a1 a2 n r) = Suc (list_len n)"

fun chain_len :: "pt_node \<Rightarrow> nat" where
  "chain_len NULL = 0"
| "chain_len (Other n r) = Suc (chain_len r)"
| "chain_len (Expr op paren logical loc mark a1 a2 n r) = Suc (chain_len r)"

fun is_op :: "pt_node \<Rightarrow> pt_op \<Rightarrow> bool" where
  "is_op (Expr op paren logical loc mark a1 a2 n r) o' = (op = o')"
| "is_op _ _ = False"

text \<open>The builders of the suite: a term with its logical type, a conjunction, a disjunction.\<close>

definition cond_expr :: "pt_op \<Rightarrow> pt_node \<Rightarrow> pt_node \<Rightarrow> pt_node" where
  "cond_expr op a1 a2 = Expr op 0 True 0 False a1 a2 NULL NULL"

definition cond_and :: "pt_node \<Rightarrow> pt_node \<Rightarrow> pt_node" where "cond_and a b = cond_expr PT_AND a b"
definition cond_or :: "pt_node \<Rightarrow> pt_node \<Rightarrow> pt_node" where "cond_or a b = cond_expr PT_OR a b"

section \<open>Searches\<close>

fun no_lists_inside :: "pt_node \<Rightarrow> bool" where
  "no_lists_inside (Expr op paren logical loc mark a1 a2 n r) =
     ((a1 = NULL \<or> nd_or_next a1 = NULL \<and> nd_next a1 = NULL \<and> no_lists_inside a1) \<and>
      (a2 = NULL \<or> nd_or_next a2 = NULL \<and> nd_next a2 = NULL \<and> no_lists_inside a2))"
| "no_lists_inside _ = True"

fun inner_ors_marked :: "pt_node \<Rightarrow> int \<Rightarrow> bool \<Rightarrow> bool" where
  "inner_ors_marked (Expr op paren logical loc' mark a1 a2 n r) loc tp =
     (if \<not> tp \<and> op = PT_OR \<and> (paren \<noteq> 1 \<or> \<not> logical \<or> loc' \<noteq> loc) then False
      else if op \<noteq> PT_AND \<and> op \<noteq> PT_OR then True
      else inner_ors_marked a1 loc False \<and> inner_ors_marked a2 loc False)"
| "inner_ors_marked _ loc tp = True"

fun has_outer_mark :: "pt_node \<Rightarrow> bool" where
  "has_outer_mark (Expr op paren logical loc mark a1 a2 n r) = mark"
| "has_outer_mark _ = False"

fun contains_outer_mark :: "pt_node \<Rightarrow> bool" where
  "contains_outer_mark NULL = False"
| "contains_outer_mark (Other n r) = contains_outer_mark r"
| "contains_outer_mark (Expr op paren logical loc mark a1 a2 n r) =
     (if mark then True
      else if contains_outer_mark a1 \<or> contains_outer_mark a2 then True
      else contains_outer_mark r)"

fun hidden_outer_terms :: "pt_node \<Rightarrow> nat" where
  "hidden_outer_terms NULL = 0"
| "hidden_outer_terms (Other n r) =
     (if contains_outer_mark (Other n r) then 1 else 0) + hidden_outer_terms n"
| "hidden_outer_terms (Expr op paren logical loc mark a1 a2 n r) =
     (if \<not> mark \<and> contains_outer_mark (Expr op paren logical loc mark a1 a2 n r) then 1 else 0) + hidden_outer_terms n"

subsection \<open>What they decide\<close>

text \<open>
  The nodes a search meets, as relations: \<open>below e x\<close> when \<open>x\<close> is a non-null operand of \<open>e\<close> or below
  one; \<open>inside e x\<close> when \<open>x\<close> is \<open>e\<close>, follows it in its chain, or is inside an operand of such a node;
  \<open>logic_below e x\<close> when only conjunctions and disjunctions lie between.
\<close>

inductive below :: "pt_node \<Rightarrow> pt_node \<Rightarrow> bool" where
  arg1: "a1 \<noteq> NULL \<Longrightarrow> below (Expr op paren logical loc mark a1 a2 n r) a1"
| arg2: "a2 \<noteq> NULL \<Longrightarrow> below (Expr op paren logical loc mark a1 a2 n r) a2"
| deep1: "below a1 x \<Longrightarrow> below (Expr op paren logical loc mark a1 a2 n r) x"
| deep2: "below a2 x \<Longrightarrow> below (Expr op paren logical loc mark a1 a2 n r) x"

inductive inside :: "pt_node \<Rightarrow> pt_node \<Rightarrow> bool" where
  self: "e \<noteq> NULL \<Longrightarrow> inside e e"
| chain_other: "inside r x \<Longrightarrow> inside (Other n r) x"
| chain: "inside r x \<Longrightarrow> inside (Expr op paren logical loc mark a1 a2 n r) x"
| arg1: "inside a1 x \<Longrightarrow> inside (Expr op paren logical loc mark a1 a2 n r) x"
| arg2: "inside a2 x \<Longrightarrow> inside (Expr op paren logical loc mark a1 a2 n r) x"

inductive logic_below :: "pt_node \<Rightarrow> pt_node \<Rightarrow> bool" where
  arg1: "op = PT_AND \<or> op = PT_OR \<Longrightarrow> logic_below (Expr op paren logical loc mark a1 a2 n r) a1"
| arg2: "op = PT_AND \<or> op = PT_OR \<Longrightarrow> logic_below (Expr op paren logical loc mark a1 a2 n r) a2"
| deep1: "op = PT_AND \<or> op = PT_OR \<Longrightarrow> logic_below a1 x \<Longrightarrow> logic_below (Expr op paren logical loc mark a1 a2 n r) x"
| deep2: "op = PT_AND \<or> op = PT_OR \<Longrightarrow> logic_below a2 x \<Longrightarrow> logic_below (Expr op paren logical loc mark a1 a2 n r) x"

inductive_simps below_simps:
  "below NULL x" "below (Other n r) x" "below (Expr op paren logical loc mark a1 a2 n r) x"

inductive_simps inside_simps:
  "inside NULL x" "inside (Other n r) x" "inside (Expr op paren logical loc mark a1 a2 n r) x"

inductive_simps logic_below_simps:
  "logic_below NULL x" "logic_below (Other n r) x" "logic_below (Expr op paren logical loc mark a1 a2 n r) x"

lemma no_lists_inside_iff: "no_lists_inside e \<longleftrightarrow> (\<forall>x. below e x \<longrightarrow> nd_next x = NULL \<and> nd_or_next x = NULL)"
proof (induction e)
  case (Expr op paren logical loc mark a1 a2 n r)
  have e: "below (Expr op paren logical loc mark a1 a2 n r) x \<longleftrightarrow>
      a1 \<noteq> NULL \<and> (x = a1 \<or> below a1 x) \<or> a2 \<noteq> NULL \<and> (x = a2 \<or> below a2 x)" for x
    unfolding below_simps(3) using below_simps(1) by blast
  show ?case
    unfolding no_lists_inside.simps Expr.IH e by blast
qed (simp_all add: below_simps)

text \<open>What the suite asks of a disjunction kept below a term.\<close>

fun or_is_marked :: "int \<Rightarrow> pt_node \<Rightarrow> bool" where
  "or_is_marked loc (Expr op paren logical l mark a1 a2 n r) = (op = PT_OR \<longrightarrow> paren = 1 \<and> logical \<and> l = loc)"
| "or_is_marked loc _ = True"

lemma inner_ors_marked_iff:
  "inner_ors_marked e loc tp \<longleftrightarrow> (tp \<or> or_is_marked loc e) \<and> (\<forall>x. logic_below e x \<longrightarrow> or_is_marked loc x)"
proof (induction e arbitrary: tp)
  case (Expr op paren logical l mark a1 a2 n r)
  have e: "logic_below (Expr op paren logical l mark a1 a2 n r) x \<longleftrightarrow>
      (op = PT_AND \<or> op = PT_OR) \<and> (x = a1 \<or> x = a2 \<or> logic_below a1 x \<or> logic_below a2 x)" for x
    unfolding logic_below_simps(3) by blast
  show ?case
    unfolding inner_ors_marked.simps or_is_marked.simps Expr.IH e by auto
qed (simp_all add: logic_below_simps)

lemma contains_outer_mark_iff: "contains_outer_mark e \<longleftrightarrow> (\<exists>x. inside e x \<and> has_outer_mark x)"
proof (induction e)
  case (Expr op paren logical l mark a1 a2 n r)
  define e where "e = Expr op paren logical l mark a1 a2 n r"
  have i: "inside e x \<longleftrightarrow> x = e \<or> inside r x \<or> inside a1 x \<or> inside a2 x" for x
    unfolding e_def inside_simps(3) by blast
  have "contains_outer_mark e \<longleftrightarrow> has_outer_mark e \<or> contains_outer_mark a1 \<or> contains_outer_mark a2 \<or> contains_outer_mark r"
    unfolding e_def by simp
  then show ?case
    unfolding e_def [symmetric] Expr.IH i by blast
next
  case (Other n r)
  define e where "e = Other n r"
  have i: "inside e x \<longleftrightarrow> x = e \<or> inside r x" for x
    unfolding e_def inside_simps(2) by blast
  have m: "\<not> has_outer_mark e" "contains_outer_mark e = contains_outer_mark r" unfolding e_def by simp_all
  show ?case unfolding e_def [symmetric] i m(2) Other.IH using m(1) by blast
qed (simp add: inside_simps)

text \<open>The terms of a list, and the number of those that hide a mark.\<close>

fun list_terms :: "pt_node \<Rightarrow> pt_node list" where
  "list_terms NULL = []"
| "list_terms (Other n r) = Other n r # list_terms n"
| "list_terms (Expr op paren logical loc mark a1 a2 n r) = Expr op paren logical loc mark a1 a2 n r # list_terms n"

lemma hidden_outer_terms_count:
  "hidden_outer_terms l =
     length (filter (\<lambda>c. \<not> has_outer_mark c \<and> (\<exists>x. inside c x \<and> has_outer_mark x)) (list_terms l))"
  unfolding contains_outer_mark_iff [symmetric]
  by (induction l) (auto simp del: contains_outer_mark.simps)

lemma list_len_terms: "list_len l = length (list_terms l)"
  by (induction l) simp_all

text \<open>
  C37. What the inspections of a condition decide, on every parse tree: no operand anywhere below heads a
  list or a chain; every disjunction that only conjunctions and disjunctions separate from the top has
  its parenthesis, its logical type and the location; and the count of hidden marks is the number of
  top-level terms that carry no mark themselves and have a marked node inside.
\<close>

theorem cnf_inspections_exact:
  "(no_lists_inside e \<longleftrightarrow> (\<forall>x. below e x \<longrightarrow> nd_next x = NULL \<and> nd_or_next x = NULL))
   \<and> (inner_ors_marked e loc True \<longleftrightarrow> (\<forall>x. logic_below e x \<longrightarrow> or_is_marked loc x))
   \<and> hidden_outer_terms l =
       length (filter (\<lambda>c. \<not> has_outer_mark c \<and> (\<exists>x. inside c x \<and> has_outer_mark x)) (list_terms l))
   \<and> (hidden_outer_terms l = 0 \<longleftrightarrow> (\<forall>c \<in> set (list_terms l). \<forall>x. inside c x \<and> has_outer_mark x \<longrightarrow> has_outer_mark c))"
  unfolding hidden_outer_terms_count no_lists_inside_iff inner_ors_marked_iff filter_empty_conv length_0_conv
  by blast

theorem cnf_inspections_exact_witness:
  "\<exists>x. inside (cond_expr (PT_term 0) (Expr (PT_term 1) 0 True 0 True NULL NULL NULL NULL) NULL) x \<and> has_outer_mark x"
proof -
  define e where "e = cond_expr (PT_term 0) (Expr (PT_term 1) 0 True 0 True NULL NULL NULL NULL) NULL"
  have hidden: "hidden_outer_terms e \<noteq> 0" "list_terms e = [e]" by (simp_all add: cond_expr_def e_def)
  have "hidden_outer_terms e = 0 \<longleftrightarrow>
      (\<forall>c \<in> set (list_terms e). \<forall>x. inside c x \<and> has_outer_mark x \<longrightarrow> has_outer_mark c)"
    by (rule cnf_inspections_exact [of e 0 e, THEN conjunct2, THEN conjunct2, THEN conjunct2])
  then have "\<exists>x. inside e x \<and> has_outer_mark x" using hidden by auto
  then show ?thesis unfolding e_def .
qed

section \<open>The predicate and its depth\<close>

text \<open>
  The predicate the planner makes: the letter of a node ('A' a conjunction, 'O' a disjunction, 'L' a term)
  and its operands, which may be the null pointer. A chain becomes right-linear disjunctions in order,
  a list right-linear conjunctions, the newest first.
\<close>

datatype p_node = P_null | P_node char p_node p_node

function (sequential)
  pred_local :: "pt_node \<Rightarrow> p_node" and
  pred_chain :: "pt_node \<Rightarrow> p_node" and
  pred_list :: "pt_node \<Rightarrow> p_node \<Rightarrow> p_node"
where
  "pred_local (Expr op paren logical loc mark a1 a2 n r) =
     (if op = PT_AND then P_node (CHR ''A'') (pred_list a1 P_null) (pred_list a2 P_null)
      else if op = PT_OR then P_node (CHR ''O'') (pred_list a1 P_null) (pred_list a2 P_null)
      else P_node (CHR ''L'') P_null P_null)"
| "pred_local _ = P_node (CHR ''L'') P_null P_null"
| "pred_chain NULL = P_null"
| "pred_chain d = (let dp = pred_chain (nd_or_next d); t = pred_local d in if dp \<noteq> P_null then P_node (CHR ''O'') t dp else t)"
| "pred_list NULL cnf = cnf"
| "pred_list c cnf = pred_list (nd_next c) (let dp = pred_chain c in if cnf \<noteq> P_null then P_node (CHR ''A'') dp cnf else dp)"
  by pat_completeness auto
termination
  by (relation "measure (\<lambda>x. case x of Inl n \<Rightarrow> 3 * size n | Inr (Inl n) \<Rightarrow> 3 * size n + 1 | Inr (Inr (n, _)) \<Rightarrow> 3 * size n + 2)") auto

text \<open>
  The evaluator enters the first operand of every conjunction and disjunction before anything else: the
  depth it always reaches. When every operand is evaluated it iterates over the right operands of one
  letter. Following a null operand is \<open>None\<close>.
\<close>

fun forced_depth :: "p_node \<Rightarrow> nat option" where
  "forced_depth P_null = None"
| "forced_depth (P_node op l r) = (if op = CHR ''L'' then Some 1 else map_option Suc (forced_depth l))"

definition max_depth :: "nat option \<Rightarrow> nat option \<Rightarrow> nat option" where
  "max_depth x y = (case x of None \<Rightarrow> None | Some a \<Rightarrow> map_option (max a) y)"

text \<open>\<open>spine_depth op t\<close>: the maximum the loop over \<open>t\<close> takes, its first turn done by \<open>full_depth\<close>.\<close>

function (sequential)
  full_depth :: "p_node \<Rightarrow> nat option" and
  spine_depth :: "char \<Rightarrow> p_node \<Rightarrow> nat option"
where
  "full_depth P_null = None"
| "full_depth (P_node op l r) =
     (if op = CHR ''L'' then Some 1 else map_option Suc (max_depth (full_depth l) (spine_depth op r)))"
| "spine_depth op P_null = None"
| "spine_depth op (P_node op' l r) =
     (if op' = op then max_depth (full_depth l) (spine_depth op r) else full_depth (P_node op' l r))"
  by pat_completeness auto
termination
  by (relation "measure (\<lambda>x. case x of Inl p \<Rightarrow> 2 * size p | Inr (_, p) \<Rightarrow> 2 * size p + 1)") auto

text \<open>\<open>max_recursion_sql_depth\<close> by default; the call that would pass it fails.\<close>

definition UT_MAX_RECURSION_SQL_DEPTH :: nat where "UT_MAX_RECURSION_SQL_DEPTH = 400"

text \<open>A predicate without missing operands.\<close>

fun p_proper :: "p_node \<Rightarrow> bool" where
  "p_proper P_null = False"
| "p_proper (P_node op l r) =
     (if op = CHR ''L'' then l = P_null \<and> r = P_null else (op = CHR ''A'' \<or> op = CHR ''O'') \<and> p_proper l \<and> p_proper r)"

text \<open>A condition whose conjunctions and disjunctions have both operands.\<close>

fun cond_proper :: "pt_node \<Rightarrow> bool" where
  "cond_proper NULL = True"
| "cond_proper (Other n r) = (cond_proper n \<and> cond_proper r)"
| "cond_proper (Expr op paren logical loc mark a1 a2 n r) =
     ((op = PT_AND \<or> op = PT_OR \<longrightarrow> a1 \<noteq> NULL \<and> a2 \<noteq> NULL) \<and>
      cond_proper a1 \<and> cond_proper a2 \<and> cond_proper n \<and> cond_proper r)"

lemma pred_local_node [simp]: "pred_local n \<noteq> P_null"
  by (cases n) simp_all

lemma pred_chain_null [simp]: "pred_chain n = P_null \<longleftrightarrow> n = NULL"
  by (cases n) (simp_all add: Let_def)

lemma pred_proper:
  "cond_proper n \<Longrightarrow> p_proper (pred_local n)"
  "n' \<noteq> NULL \<Longrightarrow> cond_proper n' \<Longrightarrow> p_proper (pred_chain n')"
  "cond_proper c \<Longrightarrow> cnf = P_null \<and> c \<noteq> NULL \<or> p_proper cnf \<Longrightarrow> p_proper (pred_list c cnf)"
proof (induction n and n' and c cnf rule: pred_local_pred_chain_pred_list.induct)
qed (auto simp: Let_def)

text \<open>Both depths of a proper predicate exist, and what is forced is at most what is reached.\<close>

lemma depths_exist:
  "p_proper p \<Longrightarrow> \<exists>f d. forced_depth p = Some f \<and> full_depth p = Some d \<and> f \<le> d"
  "op \<noteq> CHR ''L'' \<Longrightarrow> p_proper q \<Longrightarrow> \<exists>m d. spine_depth op q = Some m \<and> full_depth q = Some d \<and> m \<le> d"
proof (induction p and op q rule: full_depth_spine_depth.induct)
  case (2 op l r)
  show ?case
  proof (cases "op = CHR ''L''")
    case False
    then have pr: "p_proper l" "p_proper r" using 2(3) by simp_all
    obtain f d where l: "forced_depth l = Some f" "full_depth l = Some d" "f \<le> d" using 2(1) [OF False pr(1)] by blast
    obtain m where r: "spine_depth op r = Some m" using 2(2) [OF False False pr(2)] by blast
    show ?thesis using False l r by (simp add: max_depth_def)
  qed simp
next
  case (4 op op' l r)
  show ?case
  proof (cases "op' = op")
    case True
    then have pr: "p_proper l" "p_proper r" "op' \<noteq> CHR ''L''" using 4(4,5) by simp_all
    obtain d where l: "full_depth l = Some d" using 4(1) [OF True pr(1)] by blast
    obtain m where r: "spine_depth op r = Some m" using 4(2) [OF True 4(4) pr(2)] by blast
    show ?thesis using pr(3) True l r by (simp add: max_depth_def max_def)
  next
    case False
    then show ?thesis using 4(3) [OF False 4(5)] by auto
  qed
qed simp_all

definition depth_le :: "nat option \<Rightarrow> nat \<Rightarrow> bool" where
  "depth_le x k \<longleftrightarrow> (\<exists>d. x = Some d \<and> d \<le> k)"

lemma depth_le_max [simp]: "depth_le (max_depth x y) k \<longleftrightarrow> depth_le x k \<and> depth_le y k"
  by (auto simp: depth_le_def max_depth_def split: option.splits)

lemma depth_le_Suc [simp]: "depth_le (map_option Suc x) (Suc k) \<longleftrightarrow> depth_le x k"
  by (auto simp: depth_le_def)

lemma depth_le_mono: "depth_le x k \<Longrightarrow> k \<le> k' \<Longrightarrow> depth_le x k'"
  by (auto simp: depth_le_def)

lemma spine_le_full: "op \<noteq> CHR ''L'' \<Longrightarrow> p_proper q \<Longrightarrow> depth_le (full_depth q) k \<Longrightarrow> depth_le (spine_depth op q) k"
  using depths_exist(2) [of op q] by (auto simp: depth_le_def)

text \<open>The disjuncts of a chain.\<close>

fun chain_terms :: "pt_node \<Rightarrow> pt_node list" where
  "chain_terms NULL = []"
| "chain_terms (Other n r) = Other n r # chain_terms r"
| "chain_terms (Expr op paren logical loc mark a1 a2 n r) = Expr op paren logical loc mark a1 a2 n r # chain_terms r"

lemma chain_len_terms: "chain_len c = length (chain_terms c)"
  by (induction c) simp_all

lemma pred_chain_step: "c \<noteq> NULL \<Longrightarrow>
    pred_chain c = (if nd_or_next c = NULL then pred_local c else P_node (CHR ''O'') (pred_local c) (pred_chain (nd_or_next c)))"
  by (cases c) (simp_all add: Let_def)

lemma chain_terms_step: "c \<noteq> NULL \<Longrightarrow> chain_terms c = c # chain_terms (nd_or_next c)"
  by (cases c) simp_all

lemma list_terms_step: "c \<noteq> NULL \<Longrightarrow> list_terms c = c # list_terms (nd_next c)"
  by (cases c) simp_all

lemma cond_proper_next: "cond_proper c \<Longrightarrow> cond_proper (nd_next c) \<and> cond_proper (nd_or_next c)"
  by (cases c) simp_all

lemma size_nd [simp]: "c \<noteq> NULL \<Longrightarrow> size (nd_next c) < size c" "c \<noteq> NULL \<Longrightarrow> size (nd_or_next c) < size c"
  by (cases c; simp)+

lemma chain_depth:
  assumes "c \<noteq> NULL" "cond_proper c" "\<And>d. d \<in> set (chain_terms c) \<Longrightarrow> depth_le (full_depth (pred_local d)) k"
  shows "depth_le (full_depth (pred_chain c)) (Suc k) \<and> depth_le (spine_depth (CHR ''O'') (pred_chain c)) k"
  using assms
proof (induction "size c" arbitrary: c rule: less_induct)
  case less
  have here: "depth_le (full_depth (pred_local c)) k" using less.prems chain_terms_step [of c] by simp
  show ?case
  proof (cases "nd_or_next c = NULL")
    case True
    then show ?thesis
      using here less.prems(1,2) pred_proper(1) [of c] spine_le_full [of "CHR ''O''" "pred_local c" k]
        depth_le_mono [OF here, of "Suc k"] by (simp add: pred_chain_step)
  next
    case False
    then have "depth_le (spine_depth (CHR ''O'') (pred_chain (nd_or_next c))) k"
      using less.hyps [of "nd_or_next c"] less.prems chain_terms_step [of c] cond_proper_next [of c] by simp
    then show ?thesis using False here less.prems(1) by (simp add: pred_chain_step)
  qed
qed

lemma pred_list_step: "c \<noteq> NULL \<Longrightarrow>
    pred_list c cnf = pred_list (nd_next c) (if cnf \<noteq> P_null then P_node (CHR ''A'') (pred_chain c) cnf else pred_chain c)"
  by (cases c) (simp_all add: Let_def)

lemma list_depth:
  assumes "cond_proper c"
    and "\<And>t d. t \<in> set (list_terms c) \<Longrightarrow> d \<in> set (chain_terms t) \<Longrightarrow> depth_le (full_depth (pred_local d)) k"
    and "cnf = P_null \<and> c \<noteq> NULL \<or>
      p_proper cnf \<and> depth_le (full_depth cnf) (k + 2) \<and> depth_le (spine_depth (CHR ''A'') cnf) (Suc k)"
  shows "depth_le (full_depth (pred_list c cnf)) (k + 2)"
  using assms
proof (induction "size c" arbitrary: c cnf rule: less_induct)
  case less
  show ?case
  proof (cases "c = NULL")
    case False
    let ?cnf = "if cnf \<noteq> P_null then P_node (CHR ''A'') (pred_chain c) cnf else pred_chain c"
    have dp: "depth_le (full_depth (pred_chain c)) (Suc k)" "p_proper (pred_chain c)"
      using chain_depth [OF False less.prems(1)] less.prems(2) list_terms_step [OF False]
        pred_proper(2) [OF False less.prems(1)] by auto
    then have "p_proper ?cnf \<and> depth_le (full_depth ?cnf) (k + 2) \<and> depth_le (spine_depth (CHR ''A'') ?cnf) (Suc k)"
      using less.prems(3) spine_le_full [of "CHR ''A''" "pred_chain c" "Suc k"] depth_le_mono [OF dp(1), of "k + 2"]
      by auto
    then show ?thesis
      unfolding pred_list_step [OF False]
      using less.prems(1,2) False list_terms_step [OF False] cond_proper_next [of c]
      by (intro less.hyps) auto
  qed (use less.prems in auto)
qed

text \<open>A single operand, as the grammar makes them, is its own list.\<close>

definition plain :: "pt_node \<Rightarrow> bool" where
  "plain e \<longleftrightarrow> e \<noteq> NULL \<and> nd_next e = NULL \<and> nd_or_next e = NULL"

lemma pred_list_plain: "plain e \<Longrightarrow> pred_list e P_null = pred_local e"
  by (cases e) (simp_all add: plain_def Let_def)

lemma plain_cond [simp]: "plain (cond_or a b)" "plain (cond_and a b)" "plain (cond_expr op a b)"
  by (simp_all add: plain_def cond_or_def cond_and_def cond_expr_def)

lemma left_or_depth:
  assumes "plain e"
  shows "forced_depth (pred_local (foldl cond_or e ds)) = map_option (\<lambda>f. length ds + f) (forced_depth (pred_local e))
    \<and> plain (foldl cond_or e ds)"
proof (induction ds rule: rev_induct)
  case Nil
  then show ?case using assms by (simp add: option.map_ident)
next
  case (snoc d ds)
  have "pred_local (cond_or a d) = P_node (CHR ''O'') (pred_list a P_null) (pred_list d P_null)" for a
    by (simp add: cond_or_def cond_expr_def)
  then show ?case
    using snoc by (cases "forced_depth (pred_local e)") (simp_all add: pred_list_plain)
qed

text \<open>
  C27. For every condition whose conjunctions and disjunctions have their operands: the predicate built
  from a list exists without missing operands, the depth its evaluation always reaches is at most the
  depth it can reach, and that depth is at most two more than the deepest disjunct, however many terms
  and disjuncts there are. A left-nested disjunction, in contrast, forces one level per operand: with
  450 disjuncts over a conjunction the evaluation passes the limit of 400 levels.
\<close>

theorem predicate_depths:
  assumes "cond_proper c" "c \<noteq> NULL"
    and "\<And>t d. t \<in> set (list_terms c) \<Longrightarrow> d \<in> set (chain_terms t) \<Longrightarrow> depth_le (full_depth (pred_local d)) k"
    and "plain e"
  shows "p_proper (pred_list c P_null)
    \<and> (\<exists>f d. forced_depth (pred_list c P_null) = Some f \<and> full_depth (pred_list c P_null) = Some d \<and> f \<le> d \<and> d \<le> k + 2)
    \<and> forced_depth (pred_list (foldl cond_or e ds) P_null)
        = map_option (\<lambda>f. length ds + f) (forced_depth (pred_local e))"
proof -
  have p: "p_proper (pred_list c P_null)" using pred_proper(3) assms(1,2) by blast
  have "depth_le (full_depth (pred_list c P_null)) (k + 2)"
    using assms by (intro list_depth) auto
  then show ?thesis
    using p depths_exist(1) [OF p] left_or_depth [OF assms(4), of ds]
    by (auto simp: depth_le_def pred_list_plain)
qed

theorem predicate_depths_witness:
  "forced_depth (pred_list (foldl cond_or (cond_and (cond_expr (PT_term 0) NULL NULL) (cond_expr (PT_term 1) NULL NULL))
      (replicate 450 (cond_expr (PT_term 2) NULL NULL))) P_null) = Some 452
   \<and> UT_MAX_RECURSION_SQL_DEPTH + 1 < 452"
proof -
  let ?x = "cond_expr (PT_term 0) NULL NULL" and ?y = "cond_expr (PT_term 1) NULL NULL"
  have "forced_depth (pred_local (cond_and ?x ?y)) = Some 2"
    by (simp add: cond_and_def cond_expr_def)
  moreover have "full_depth (pred_local ?x) = Some 1" "list_terms ?x = [?x]" "chain_terms ?x = [?x]" "cond_proper ?x" "?x \<noteq> NULL"
    by (simp_all add: cond_expr_def)
  ultimately show ?thesis
    using predicate_depths [of ?x 1 "cond_and ?x ?y" "replicate 450 (cond_expr (PT_term 2) NULL NULL)"]
    by (simp add: depth_le_def UT_MAX_RECURSION_SQL_DEPTH_def)
qed

end
