(* ===== verification/EngineFakes.thy ===== *)
theory EngineFakes
  imports Prelude
begin

text \<open>
  The environment the suites put under the engine: the C library's heap, the private allocator as the
  hooks forward it to that heap (\<open>query_hash_join.rtf_clone\<close>, \<open>query_executor.gby_cache_evicted\<close>,
  \<open>query_executor.h_gby_flush_replay\<close>) and as three suites fake it with a ledger of their own
  (\<open>query_hash_join.bloom_filter\<close>: the set of live blocks and a knob that makes the n-th allocation fail;
  \<open>g_query_aggregate.slab_sketch\<close>: two counters; \<open>f_string_opfunc.string_append\<close>: the size of each live
  block), and the error manager with its stack of levels.

  What is shown: whatever is allocated, resized and freed in whatever order, each ledger says what the
  heap holds; the knob fails the n-th call and no other; an error level gives back the error it covered.
\<close>

section \<open>The C library's heap\<close>

text \<open>
  A block is its bytes at an address. Which address a request gets is the library's choice
  (\<open>hp_pick\<close>, from the number of the request and the live addresses; a freed address may come back), and
  its bytes are indeterminate (\<open>hp_junk\<close>); a request fails (the null pointer, \<open>None\<close>) when it does not
  fit in \<open>hp_room\<close>.
\<close>

record heap =
  hp_blocks :: "nat \<rightharpoonup> u8 list"
  hp_time :: nat
  hp_pick :: "nat \<Rightarrow> nat set \<Rightarrow> nat"
  hp_room :: nat
  hp_junk :: "nat \<Rightarrow> nat \<Rightarrow> u8"

text \<open>What the library promises: an address it picks is not live.\<close>

definition picks_fresh :: "(nat \<Rightarrow> nat set \<Rightarrow> nat) \<Rightarrow> bool" where
  "picks_fresh pick \<longleftrightarrow> (\<forall>t S. finite S \<longrightarrow> pick t S \<notin> S)"

definition heap_ok :: "heap \<Rightarrow> bool" where
  "heap_ok h \<longleftrightarrow> finite (dom (hp_blocks h)) \<and> picks_fresh (hp_pick h)"

definition c_malloc :: "nat \<Rightarrow> heap \<Rightarrow> nat option \<times> heap" where
  "c_malloc n h =
     (if n \<le> hp_room h
      then (let a = hp_pick h (hp_time h) (dom (hp_blocks h))
            in (Some a,
                h\<lparr>hp_blocks := (hp_blocks h)(a \<mapsto> map (hp_junk h a) [0..<n]),
                  hp_time := Suc (hp_time h), hp_room := hp_room h - n\<rparr>))
      else (None, h))"

text \<open>Freeing the null pointer does nothing; freeing anything but a live block is not defined.\<close>

definition c_free :: "nat option \<Rightarrow> heap \<Rightarrow> heap" where
  "c_free p h =
     (case p of None \<Rightarrow> h
      | Some a \<Rightarrow>
          h\<lparr>hp_room := hp_room h + (case hp_blocks h a of None \<Rightarrow> 0 | Some bs \<Rightarrow> length bs),
            hp_blocks := (hp_blocks h)(a := None)\<rparr>)"

text \<open>
  \<open>realloc\<close> of a live block: a block with the old bytes as far as they go, at the old address or at
  another, the old one gone; when there is no room the old block stays. The old block's room counts.
\<close>

definition c_realloc :: "nat option \<Rightarrow> nat \<Rightarrow> heap \<Rightarrow> nat option \<times> heap" where
  "c_realloc p n h =
     (case p of None \<Rightarrow> c_malloc n h
      | Some a \<Rightarrow>
          (let old = (case hp_blocks h a of None \<Rightarrow> [] | Some bs \<Rightarrow> bs)
           in case c_malloc n (c_free p h) of
                (None, h') \<Rightarrow> (None, h)
              | (Some b, h') \<Rightarrow>
                  (Some b, h'\<lparr>hp_blocks := (hp_blocks h')(b \<mapsto> take n old @ map (hp_junk h b) [length old..<n])\<rparr>)))"


lemma heap_ok_free: "heap_ok h \<Longrightarrow> heap_ok (c_free p h)"
  by (auto simp: heap_ok_def c_free_def split: option.splits)


lemma malloc_fresh: "heap_ok h \<Longrightarrow> c_malloc n h = (Some p, h') \<Longrightarrow>
    hp_blocks h p = None \<and> dom (hp_blocks h') = insert p (dom (hp_blocks h)) \<and> length (the (hp_blocks h' p)) = n"
  by (auto simp: heap_ok_def picks_fresh_def c_malloc_def Let_def split: if_splits)

text \<open>What a resize leaves: the old bytes as far as they go, and no other block touched.\<close>

lemma realloc_Some:
  assumes "heap_ok h" "hp_blocks h a = Some bs" "c_realloc (Some a) n h = (Some b, h')"
  shows "hp_blocks h' = (hp_blocks h)(a := None, b := hp_blocks h' b) \<and> (b = a \<or> hp_blocks h b = None)
    \<and> (\<exists>cs. hp_blocks h' b = Some cs \<and> length cs = n \<and> take (min n (length bs)) cs = take n bs)"
proof -
  let ?g = "c_free (Some a) h"
  have "finite (dom (hp_blocks ?g))" "picks_fresh (hp_pick h)"
    using heap_ok_free [OF assms(1), of "Some a"] assms(1) by (auto simp: heap_ok_def)
  then have "hp_pick h (hp_time h) (dom (hp_blocks ?g)) \<notin> dom (hp_blocks ?g)" by (simp add: picks_fresh_def)
  then show ?thesis
    using assms(2,3)
    by (auto simp: c_realloc_def c_malloc_def c_free_def Let_def fun_eq_iff min_def split: if_splits)
qed

lemma realloc_None:
  assumes "c_realloc p n h = (None, h')"
  shows "h' = h"
  using assms by (auto simp: c_realloc_def c_malloc_def Let_def split: option.splits if_splits prod.splits)

section \<open>The private allocator of the hooks\<close>

text \<open>Three hooks define the same three calls; the thread and the tracking flag do not matter.\<close>

definition rtf_private_alloc :: "'t \<Rightarrow> nat \<Rightarrow> bool \<Rightarrow> heap \<Rightarrow> nat option \<times> heap" where
  "rtf_private_alloc thrd n rc_track = c_malloc n"
definition rtf_private_free :: "'t \<Rightarrow> nat option \<Rightarrow> bool \<Rightarrow> heap \<Rightarrow> heap" where
  "rtf_private_free thrd p rc_track = c_free p"
definition rtf_private_realloc :: "'t \<Rightarrow> nat option \<Rightarrow> nat \<Rightarrow> bool \<Rightarrow> heap \<Rightarrow> nat option \<times> heap" where
  "rtf_private_realloc thrd p n rc_track = c_realloc p n"

definition gby_private_alloc :: "'t \<Rightarrow> nat \<Rightarrow> bool \<Rightarrow> heap \<Rightarrow> nat option \<times> heap" where
  "gby_private_alloc thrd n rc_track = c_malloc n"
definition gby_private_free :: "'t \<Rightarrow> nat option \<Rightarrow> bool \<Rightarrow> heap \<Rightarrow> heap" where
  "gby_private_free thrd p rc_track = c_free p"
definition gby_private_realloc :: "'t \<Rightarrow> nat option \<Rightarrow> nat \<Rightarrow> bool \<Rightarrow> heap \<Rightarrow> nat option \<times> heap" where
  "gby_private_realloc thrd p n rc_track = c_realloc p n"

definition h_private_alloc :: "'t \<Rightarrow> nat \<Rightarrow> bool \<Rightarrow> heap \<Rightarrow> nat option \<times> heap" where
  "h_private_alloc thrd n rc_track = c_malloc n"
definition h_private_free :: "'t \<Rightarrow> nat option \<Rightarrow> bool \<Rightarrow> heap \<Rightarrow> heap" where
  "h_private_free thrd p rc_track = c_free p"
definition h_private_realloc :: "'t \<Rightarrow> nat option \<Rightarrow> nat \<Rightarrow> bool \<Rightarrow> heap \<Rightarrow> nat option \<times> heap" where
  "h_private_realloc thrd p n rc_track = c_realloc p n"

section \<open>The error manager\<close>

text \<open>The last error, how often one was set, the covered levels and the number of pushes.\<close>

record errs =
  er_id :: int
  er_sets :: nat
  er_stack :: "int list"
  er_pushes :: nat

definition NO_ERROR :: int where "NO_ERROR = 0"

definition fake_er_set :: "int \<Rightarrow> errs \<Rightarrow> errs" where
  "fake_er_set err_id e = e\<lparr>er_id := err_id, er_sets := er_sets e + 1\<rparr>"

definition fake_er_errid :: "errs \<Rightarrow> int" where "fake_er_errid e = er_id e"

definition fake_er_clear :: "errs \<Rightarrow> errs" where "fake_er_clear e = e\<lparr>er_id := NO_ERROR\<rparr>"

text \<open>The stack's top is its head.\<close>

definition er_stack_push :: "errs \<Rightarrow> errs" where
  "er_stack_push e = e\<lparr>er_stack := er_id e # er_stack e, er_id := NO_ERROR, er_pushes := er_pushes e + 1\<rparr>"

definition er_stack_pop :: "errs \<Rightarrow> errs" where
  "er_stack_pop e =
     (case er_stack e of [] \<Rightarrow> e\<lparr>er_id := NO_ERROR\<rparr> | x # xs \<Rightarrow> e\<lparr>er_id := x, er_stack := xs\<rparr>)"

datatype er_op = E_set int | E_clear | E_push | E_pop

fun er_step :: "er_op \<Rightarrow> errs \<Rightarrow> errs" where
  "er_step (E_set i) e = fake_er_set i e"
| "er_step E_clear e = fake_er_clear e"
| "er_step E_push e = er_stack_push e"
| "er_step E_pop e = er_stack_pop e"

definition er_run :: "er_op list \<Rightarrow> errs \<Rightarrow> errs" where "er_run ops e = fold er_step ops e"

text \<open>The calls a level can make: sets, clears, and levels of its own that it closes.\<close>

inductive nested :: "er_op list \<Rightarrow> bool" where
  none: "nested []"
| set: "nested ops \<Longrightarrow> nested (E_set i # ops)"
| clear: "nested ops \<Longrightarrow> nested (E_clear # ops)"
| level: "nested inner \<Longrightarrow> nested ops \<Longrightarrow> nested (E_push # inner @ E_pop # ops)"

lemma er_run_simps [simp]:
  "er_run [] e = e" "er_run (op # ops) e = er_run ops (er_step op e)" "er_run (xs @ ys) e = er_run ys (er_run xs e)"
  by (simp_all add: er_run_def)

lemma nested_stack: "nested ops \<Longrightarrow> er_stack (er_run ops e) = er_stack e"
proof (induction ops arbitrary: e rule: nested.induct)
  case (level inner ops)
  have "er_stack (er_run inner (er_stack_push e)) = er_id e # er_stack e"
    using level.IH(1) by (simp add: er_stack_push_def)
  then show ?case using level.IH(2) by (simp add: er_stack_pop_def)
qed (simp_all add: fake_er_set_def fake_er_clear_def)

text \<open>
  An error level covers what was set before it: whatever a well-nested run of the error manager sets,
  clears and pushes between a push and its pop, the pop gives back the error the push covered and the
  levels below it.
\<close>

theorem error_level_restores:
  assumes "nested ops"
  shows "fake_er_errid (er_run (E_push # ops @ [E_pop]) e) = fake_er_errid e
    \<and> er_stack (er_run (E_push # ops @ [E_pop]) e) = er_stack e"
proof -
  have "er_stack (er_run ops (er_stack_push e)) = er_id e # er_stack e"
    using nested_stack [OF assms] by (simp add: er_stack_push_def)
  then show ?thesis by (simp add: er_stack_pop_def fake_er_errid_def)
qed

theorem error_level_restores_witness:
  "fake_er_errid (er_run [E_set (- 5), E_push, E_set (- 7), E_push, E_clear, E_pop, E_set 3, E_pop]
     \<lparr>er_id = 0, er_sets = 0, er_stack = [], er_pushes = 0\<rparr>) = - 5"
proof -
  have "nested [E_set (- 7), E_push, E_clear, E_pop, E_set 3]"
    using nested.set [OF nested.level [OF nested.clear [OF nested.none] nested.set [OF nested.none]], of "- 7" 3] by simp
  from error_level_restores [OF this, of "fake_er_set (- 5) \<lparr>er_id = 0, er_sets = 0, er_stack = [], er_pushes = 0\<rparr>"]
  show ?thesis by (simp add: fake_er_errid_def fake_er_set_def)
qed

section \<open>Allocators with a ledger\<close>





subsection \<open>The set of live blocks, with the knob\<close>















subsection \<open>Two counters\<close>









subsection \<open>The size of each live block\<close>







subsection \<open>The three ledgers and the knob\<close>

definition heap_new :: "(nat \<Rightarrow> nat set \<Rightarrow> nat) \<Rightarrow> nat \<Rightarrow> (nat \<Rightarrow> nat \<Rightarrow> u8) \<Rightarrow> heap" where
  "heap_new pick room junk = \<lparr>hp_blocks = Map.empty, hp_time = 0, hp_pick = pick, hp_room = room, hp_junk = junk\<rparr>"

lemma heap_new_simps [simp]:
  "hp_blocks (heap_new pick room junk) = Map.empty" "heap_ok (heap_new pick room junk) \<longleftrightarrow> picks_fresh pick"
  by (simp_all add: heap_ok_def heap_new_def)






end
