(* ===== verification/GroupSizes.thy ===== *)
theory GroupSizes
  imports Complex_Main
begin

text \<open>
  The oracles of the histogram suites: \<open>optimizer/query_planner.having_selectivity/test.cpp\<close> (the model of
  group sizes written out, the fake column and its readers), \<open>histogram_cl.group_size_selectivity/test.cpp\<close>
  and \<open>histogram_cl.equal_selectivity_sum/test.cpp\<close> (the oracles over a histogram's specification).

  An oracle is a formula, compared with the engine up to a relative error; a \<open>double\<close> is read as the real
  number it stands for. Rounding, infinities and the wrap-around of 64-bit counts are not modelled.

  What is shown: each closed formula is the expectation it stands for under geometrically distributed
  group sizes; the two suites' oracles of the group sizes agree; the equality estimates of a histogram's
  values are positive and add up to one; the fake readers keep the two columns apart; the fake reader's estimate is the share of the rows the comparison
  asks for, also where a fractional bound is rounded over an integer column.
\<close>

section \<open>Geometric group sizes\<close>

text \<open>\<open>pow\<close> of a base and an exponent that are not negative; the power with exponent zero is one.\<close>

definition c_pow :: "real \<Rightarrow> real \<Rightarrow> real" where
  "c_pow x y = (if y = 0 then 1 else if x = 0 then 0 else x powr y)"

definition unit_clamp :: "real \<Rightarrow> real" where "unit_clamp v = min (max v 0) 1"

definition geo_r :: "real \<Rightarrow> real" where "geo_r g = 1 - 1 / max g 1"

definition every_row :: "real \<Rightarrow> real \<Rightarrow> real" where
  "every_row s g = (let r = geo_r g in s * (1 - r) / (1 - r * s))"

definition some_row :: "real \<Rightarrow> real \<Rightarrow> real" where "some_row s g = 1 - every_row (1 - s) g"

definition size_at_least :: "real \<Rightarrow> real \<Rightarrow> real" where
  "size_at_least k g = (if k \<le> 1 then 1 else c_pow (geo_r g) (k - 1))"

text \<open>The engine's default for an equality, as the comment beside it says.\<close>

definition EQ_FLOOR :: real where "EQ_FLOOR = 1 / 1000"

definition bounded :: "real \<Rightarrow> real" where "bounded p = min (max p EQ_FLOOR) 1"

definition has_value :: "real \<Rightarrow> real \<Rightarrow> real" where "has_value f g = 1 - every_row f g"

definition value_size :: "real \<Rightarrow> real \<Rightarrow> real" where
  "value_size f g = max (g * (1 - f) / has_value f g) 1"

text \<open>The distribution the formulas stand for: a group of mean size \<open>g\<close> has \<open>n + 1\<close> rows with this probability.\<close>

definition size_prob :: "real \<Rightarrow> nat \<Rightarrow> real" where "size_prob g n = (1 - geo_r g) * geo_r g ^ n"

lemma geo_r_bounds: "0 \<le> geo_r g" "geo_r g < 1"
  by (simp_all add: geo_r_def)

lemma geo_r_mean: "1 / (1 - geo_r g) = max g 1"
  by (simp add: geo_r_def)

lemma c_pow_nat: "0 \<le> x \<Longrightarrow> c_pow x (real n) = x ^ n"
  by (auto simp: c_pow_def powr_realpow)

lemma every_row_sums:
  assumes "0 \<le> s" "s \<le> 1"
  shows "(\<lambda>n. size_prob g n * s ^ Suc n) sums every_row s g"
proof -
  have "geo_r g * s \<le> geo_r g * 1" using geo_r_bounds [of g] assms by (intro mult_left_mono) simp_all
  then have "norm (geo_r g * s) < 1" using geo_r_bounds [of g] assms(1) by simp
  then have "(\<lambda>n. ((1 - geo_r g) * s) * (geo_r g * s) ^ n) sums (((1 - geo_r g) * s) * (1 / (1 - geo_r g * s)))"
    by (intro sums_mult geometric_sums)
  then show ?thesis
    by (simp add: size_prob_def every_row_def Let_def power_mult_distrib mult_ac)
qed

lemma size_prob_sums: "size_prob g sums 1"
  using every_row_sums [of 1 g] geo_r_bounds [of g] by (simp add: every_row_def Let_def)

lemma mean_size_sums: "(\<lambda>n. size_prob g n * real (Suc n)) sums max g 1"
proof -
  have "(\<lambda>n. (1 - geo_r g) * (real (Suc n) * geo_r g ^ n)) sums ((1 - geo_r g) * (1 / (1 - geo_r g)\<^sup>2))"
    using geo_r_bounds [of g] by (intro sums_mult geometric_deriv_sums) simp
  moreover have "(1 - geo_r g) * (1 / (1 - geo_r g)\<^sup>2) = max g 1"
    using geo_r_bounds [of g] by (simp add: power2_eq_square flip: geo_r_mean)
  ultimately show ?thesis by (simp add: size_prob_def mult_ac)
qed

lemma size_at_least_sums: "(\<lambda>n. if k \<le> Suc n then size_prob g n else 0) sums size_at_least (real k) g"
proof (cases k)
  case (Suc j)
  let ?f = "\<lambda>n. if k \<le> Suc n then size_prob g n else 0"
  have "(\<lambda>n. geo_r g ^ j * size_prob g n) sums (geo_r g ^ j * 1)" by (intro sums_mult size_prob_sums)
  moreover have "(\<lambda>n. geo_r g ^ j * size_prob g n) = (\<lambda>n. ?f (n + j))"
    by (simp add: Suc size_prob_def power_add mult_ac)
  ultimately have "?f sums (geo_r g ^ j + (\<Sum>i<j. ?f i))"
    using sums_iff_shift [of ?f j "geo_r g ^ j"] by simp
  moreover have "(\<Sum>i<j. ?f i) = 0" by (rule sum.neutral) (auto simp: Suc)
  moreover have "size_at_least (real k) g = geo_r g ^ j"
  proof (cases j)
    case (Suc i)
    have "real k - 1 = real j" using \<open>k = Suc j\<close> by simp
    then have "c_pow (geo_r g) (real k - 1) = geo_r g ^ j" by (simp only: c_pow_nat [OF geo_r_bounds(1)])
    moreover have "\<not> real k \<le> 1" using \<open>k = Suc j\<close> Suc by simp
    ultimately show ?thesis by (simp only: size_at_least_def if_False)
  qed (simp add: \<open>k = Suc j\<close> size_at_least_def)
  ultimately show ?thesis by simp
qed (use size_prob_sums in \<open>simp add: size_at_least_def\<close>)

lemma has_value_eq: "0 \<le> f \<Longrightarrow> f < 1 \<Longrightarrow> has_value f g = (1 - f) / (1 - geo_r g * f) \<and> 0 < 1 - geo_r g * f"
proof -
  assume f: "0 \<le> f" "f < 1"
  have "geo_r g * f \<le> 1 * f" using geo_r_bounds [of g] f by (intro mult_right_mono) simp_all
  then have "0 < 1 - geo_r g * f" using f by simp
  then show ?thesis by (simp add: has_value_def every_row_def Let_def divide_simps) (simp add: algebra_simps)
qed

lemma value_size_mean:
  assumes "0 \<le> f" "f < 1"
  shows "value_size f g * has_value f g = max g 1 * (1 - f)"
proof -
  note h = has_value_eq [OF assms, of g]
  have pos: "0 < has_value f g" using h assms by simp
  show ?thesis
  proof (cases "1 \<le> g")
    case True
    then have r: "geo_r g = 1 - 1 / g" by (simp add: geo_r_def)
    have "g * (1 - f) / has_value f g = g * (1 - geo_r g * f)" using h assms by simp
    also have "\<dots> = g * (1 - f) + f" using True by (simp add: r algebra_simps)
    finally have v: "g * (1 - f) / has_value f g = g * (1 - f) + f" .
    have "(1 - f) * 1 \<le> (1 - f) * g" using assms True by (intro mult_left_mono) auto
    then have "1 \<le> g * (1 - f) + f" by (simp add: mult.commute)
    then have "value_size f g = g * (1 - f) / has_value f g" using v by (simp add: value_size_def)
    then show ?thesis using pos True by simp
  next
    case False
    then have "has_value f g = 1 - f" using h by (simp add: geo_r_def)
    then show ?thesis using False assms by (simp add: value_size_def)
  qed
qed

text \<open>
  C15. Over group sizes 1, 2, ... that are geometric with mean \<open>g\<close> (one for smaller means), each formula is
  the expectation its comment names: that every row of the group satisfies a predicate of selectivity
  \<open>s\<close>, that some row does, that the group has \<open>k\<close> rows or more; with a share \<open>f\<close> of NULL, that the group has
  a value, and the rows with a value of the groups that have one.
\<close>

theorem group_size_formulas:
  assumes "0 \<le> s" "s \<le> 1" "0 \<le> f" "f < 1"
  shows "size_prob g sums 1 \<and> (\<lambda>n. size_prob g n * real (Suc n)) sums max g 1
    \<and> (\<lambda>n. size_prob g n * s ^ Suc n) sums every_row s g
    \<and> (\<lambda>n. size_prob g n * (1 - (1 - s) ^ Suc n)) sums some_row s g
    \<and> (\<lambda>n. if k \<le> Suc n then size_prob g n else 0) sums size_at_least (real k) g
    \<and> (\<lambda>n. size_prob g n * (1 - f ^ Suc n)) sums has_value f g
    \<and> (\<lambda>n. size_prob g n * (real (Suc n) * (1 - f))) sums (value_size f g * has_value f g)"
proof -
  have compl: "(\<lambda>n. size_prob g n * (1 - t ^ Suc n)) sums (1 - every_row t g)" if "0 \<le> t" "t \<le> 1" for t
    using sums_diff [OF size_prob_sums every_row_sums [OF that]] by (simp add: algebra_simps)
  have "(\<lambda>n. size_prob g n * real (Suc n) * (1 - f)) sums (max g 1 * (1 - f))"
    by (intro sums_mult2 mean_size_sums)
  then have "(\<lambda>n. size_prob g n * (real (Suc n) * (1 - f))) sums (value_size f g * has_value f g)"
    unfolding value_size_mean [OF assms(3,4)] by (simp only: mult.assoc)
  then show ?thesis
    using assms size_prob_sums [of g] mean_size_sums [of g] every_row_sums [OF assms(1,2), of g] size_at_least_sums [of k g]
      compl [of "1 - s"] compl [of f]
    by (simp add: some_row_def has_value_def)
qed

theorem group_size_formulas_witness: "(\<lambda>n. size_prob 10 n * (1 / 2) ^ Suc n) sums (1 / 11)"
  using group_size_formulas [of "1 / 2" 0 10 0] by (simp add: every_row_def Let_def geo_r_def)

section \<open>The fake column\<close>

text \<open>Values spread evenly over an interval, with a point mass at each value; the type of the column and its rows.\<close>

record fake_column =
  g_lo :: real
  g_hi :: real
  g_eq :: real
  g_total :: real
  g_x_i64 :: bool

definition x_lt :: "fake_column \<Rightarrow> real \<Rightarrow> real" where
  "x_lt c v = unit_clamp ((v - g_lo c) / (g_hi c - g_lo c))"

definition x_eq :: "fake_column \<Rightarrow> real \<Rightarrow> real" where
  "x_eq c v = (if g_lo c \<le> v \<and> v \<le> g_hi c then g_eq c else 0)"

definition x_le :: "fake_column \<Rightarrow> real \<Rightarrow> real" where "x_le c v = min (x_lt c v + x_eq c v) 1"

definition p_gt :: "fake_column \<Rightarrow> real \<Rightarrow> real" where "p_gt c v = 1 - x_le c v"
definition p_ge :: "fake_column \<Rightarrow> real \<Rightarrow> real" where "p_ge c v = 1 - x_lt c v"
definition p_lt :: "fake_column \<Rightarrow> real \<Rightarrow> real" where "p_lt c v = x_lt c v"
definition p_le :: "fake_column \<Rightarrow> real \<Rightarrow> real" where "p_le c v = x_le c v"

definition or_sel :: "real \<Rightarrow> real \<Rightarrow> real" where "or_sel a b = a + b - a * b"



text \<open>
  The read of the comparison's estimate. A parse node is a path, a name with its annotation (the histogram,
  an address) or something else; the end of a path is found by the engine's \<open>pt_get_end_path_node\<close>, a
  NUMERIC is turned into a double by \<open>tp_value_coerce\<close>: both are parameters.
\<close>

datatype pt_node = PT_DOT nat | PT_NAME "nat option" | PT_OTHER

datatype db_type = DB_TYPE_NULL | DB_TYPE_INTEGER | DB_TYPE_SHORT | DB_TYPE_BIGINT | DB_TYPE_FLOAT | DB_TYPE_DOUBLE
  | DB_TYPE_NUMERIC | DB_TYPE_OTHER nat

datatype 'n db_value = VNull db_type | VInteger int | VShort int | VBigint int | VFloat real | VDouble real
  | VNumeric 'n | VOther nat




text \<open>What the fake records of its calls.\<close>

record 'n probe_log =
  g_probes :: int
  g_probe_ok :: int
  g_unexpected :: int
  g_probe_lhs :: "pt_node option"
  g_probe_value_ptr :: "'n db_value option"
  g_probe_value :: real
  g_probe_type :: db_type
  g_probe_is_ge :: bool
  g_probe_incl :: bool




lemma unit_clamp_range [simp]: "0 \<le> unit_clamp v" "unit_clamp v \<le> 1"
  by (simp_all add: unit_clamp_def)


lemma unit_clamp_mono: "v \<le> w \<Longrightarrow> unit_clamp v \<le> unit_clamp w"
  by (simp add: unit_clamp_def)








section \<open>The sizes of the groups of a column\<close>








text \<open>
  The specification of a histogram in the two other suites: the most common values with their
  frequencies, buckets with the highest value, the rows up to it and the distinct values, the rows, the
  share of NULL.
\<close>

record hist_spec =
  hs_mcvs :: "(real \<times> real) list"
  hs_buckets :: "(real \<times> int \<times> int) list"
  hs_total_rows :: int
  hs_null_freq :: real























section \<open>The readers of the group column and the other fakes\<close>

text \<open>
  The log of every fake of the suite. \<open>'p\<close> is a predicate node; of it the fake estimate looks at whether it is an
  expression and whether it still hangs in a list.
\<close>

record ('n, 'p) reader_log = "'n probe_log" +
  g_gs_calls :: int
  g_rows_calls :: int
  g_colndv_calls :: int
  g_gs_attr :: "pt_node option"
  g_gs_min_rows :: real
  g_gs_scale :: real
  g_ndv_calls :: int
  g_where_preds :: "'p option list"
  g_where_non_expr :: bool
  g_where_had_list :: bool
  g_set_gets :: int

definition reset_probes :: "('n, 'p) reader_log \<Rightarrow> ('n, 'p) reader_log" where
  "reset_probes st =
     st\<lparr>g_probes := 0, g_probe_ok := 0, g_probe_lhs := None, g_probe_value_ptr := None, g_probe_value := 0,
        g_probe_type := DB_TYPE_NULL, g_probe_is_ge := False, g_probe_incl := False, g_where_preds := [],
        g_where_non_expr := False, g_where_had_list := False, g_gs_calls := 0, g_rows_calls := 0, g_colndv_calls := 0,
        g_gs_attr := None, g_gs_min_rows := 0, g_gs_scale := 0, g_set_gets := 0\<rparr>"






text \<open>The number of groups the statistics give, per list; the estimate of a WHERE term.\<close>

definition qo_get_group_ndv :: "int \<Rightarrow> int \<Rightarrow> bool \<Rightarrow> bool \<Rightarrow> ('n, 'p) reader_log \<Rightarrow> int \<times> ('n, 'p) reader_log" where
  "qo_get_group_ndv g_ndv_groupby g_ndv_distinct is_select is_groupby st =
     (if \<not> is_select then - 1 else if is_groupby then g_ndv_groupby else g_ndv_distinct, st\<lparr>g_ndv_calls := g_ndv_calls st + 1\<rparr>)"

definition qo_expr_selectivity ::
    "('p \<Rightarrow> bool) \<Rightarrow> ('p \<Rightarrow> bool) \<Rightarrow> real \<Rightarrow> 'p option \<Rightarrow> ('n, 'p) reader_log \<Rightarrow> real \<times> ('n, 'p) reader_log" where
  "qo_expr_selectivity is_expr in_list g_where_sel pt_expr st =
     (let st = st\<lparr>g_where_preds := g_where_preds st @ [pt_expr]\<rparr>
      in (g_where_sel,
          case pt_expr of None \<Rightarrow> st\<lparr>g_where_non_expr := True\<rparr>
          | Some p \<Rightarrow> if \<not> is_expr p then st\<lparr>g_where_non_expr := True\<rparr>
                      else if in_list p then st\<lparr>g_where_had_list := True\<rparr> else st))"

text \<open>The elements of a set; a code other than zero is one of the engine's errors, the value then stays.\<close>

definition db_set_size :: "'v list option \<Rightarrow> int" where
  "db_set_size c = (case c of None \<Rightarrow> - 1 | Some v \<Rightarrow> int (length v))"

definition db_set_get ::
    "int \<Rightarrow> int \<Rightarrow> 'v list option \<Rightarrow> int \<Rightarrow> 'v option \<Rightarrow> ('n, 'p) reader_log \<Rightarrow> int \<times> 'v option \<times> ('n, 'p) reader_log" where
  "db_set_get ER_OBJ_INVALID_ARGUMENTS ER_SET_INVALID_INDEX c index value st =
     (let st = st\<lparr>g_set_gets := g_set_gets st + 1\<rparr>
      in case (c, value) of
           (Some v, Some _) \<Rightarrow> if index < 0 \<or> int (length v) \<le> index then (ER_SET_INVALID_INDEX, value, st) else (0, Some (v ! nat index), st)
         | _ \<Rightarrow> (ER_OBJ_INVALID_ARGUMENTS, value, st))"






section \<open>The equality estimate\<close>

text \<open>The formula of the third suite: a common value's frequency, else the rest spread over the other values.\<close>

definition hist_oracle :: "hist_spec \<Rightarrow> real \<Rightarrow> real" where
  "hist_oracle s v =
     (let sum_mcv = fold (\<lambda>m t. t + snd m) (hs_mcvs s) 0;
          ndv = fold (\<lambda>bk t. t + snd (snd bk)) (hs_buckets s) (0 :: int);
          sel = fold (\<lambda>m sel. if fst m = v then snd m else sel) (hs_mcvs s) (- 1);
          sel = (if sel < 0 then
                   (let rest = 1 - sum_mcv - hs_null_freq s; rest = (if rest < 0 then 0 else rest)
                    in if 1 \<le> ndv then rest / of_int ndv else 1 / of_int (hs_total_rows s))
                 else sel);
          nonnull = 1 - hs_null_freq s;
          sel = (if 1 / 10 ^ 9 < nonnull then sel / nonnull else sel);
          sel = (if sel < 0 then 0 else sel);
          sel = (if 1 < sel then 1 else sel)
      in if sel \<le> 0 then 1 / of_int (hs_total_rows s) else sel)"

lemma fold_last: "distinct (map fst ms) \<Longrightarrow>
    fold (\<lambda>m sel. if fst m = v then snd m else sel) ms z = (case map_of ms v of None \<Rightarrow> z | Some f \<Rightarrow> f)"
proof (induction ms arbitrary: z)
  case (Cons m ms)
  then show ?case by (cases m) (force simp: map_of_eq_None_iff split: option.split dest: map_of_SomeD)
qed simp

lemma fold_sum_snd: "fold (\<lambda>m t. t + snd m) ms z = z + sum_list (map snd ms)"
  for ms :: "('k \<times> real) list"
  by (induction ms arbitrary: z) simp_all

lemma hist_oracle_cases:
  fixes s v
  defines "rest \<equiv> 1 - sum_list (map snd (hs_mcvs s)) - hs_null_freq s"
    and "ndv \<equiv> fold (\<lambda>bk t. t + snd (snd bk)) (hs_buckets s) (0 :: int)"
  assumes d: "distinct (map fst (hs_mcvs s))" and pos: "\<And>m. m \<in> set (hs_mcvs s) \<Longrightarrow> 0 < snd m"
    and nf: "0 \<le> hs_null_freq s" "1 / 10 ^ 9 < 1 - hs_null_freq s" and rest: "0 < rest" and ndv: "1 \<le> ndv"
  shows "hist_oracle s v = (case map_of (hs_mcvs s) v of Some f \<Rightarrow> f | None \<Rightarrow> rest / of_int ndv) / (1 - hs_null_freq s)"
proof -
  let ?sel = "case map_of (hs_mcvs s) v of Some f \<Rightarrow> f | None \<Rightarrow> rest / of_int ndv"
  have sum: "0 \<le> sum_list (map snd (hs_mcvs s))" using pos by (intro sum_list_nonneg) (force intro: less_imp_le)
  have f: "0 < f \<and> f \<le> sum_list (map snd (hs_mcvs s))" if "map_of (hs_mcvs s) v = Some f" for f
  proof -
    have "f \<in> set (map snd (hs_mcvs s))" using map_of_SomeD [OF that] by force
    moreover have "0 \<le> x" if "x \<in> set (map snd (hs_mcvs s))" for x using pos that by fastforce
    ultimately have "f \<le> sum_list (map snd (hs_mcvs s))" by (intro member_le_sum_list) auto
    then show ?thesis using pos [OF map_of_SomeD [OF that]] by simp
  qed
  have q: "0 < rest / of_int ndv" "rest / of_int ndv \<le> rest" using rest ndv by (simp_all add: divide_le_eq)
  have s0: "0 < ?sel" "?sel \<le> 1 - hs_null_freq s"
    using f q rest sum unfolding rest_def by (auto split: option.split)
  then have s1: "0 < ?sel / (1 - hs_null_freq s)" "?sel / (1 - hs_null_freq s) \<le> 1" by simp_all
  have m: "fold (\<lambda>m sel. if fst m = v then snd m else sel) (hs_mcvs s) (- 1) < 0 \<longleftrightarrow> map_of (hs_mcvs s) v = None"
    using f unfolding fold_last [OF d] by (auto split: option.split)
  have raw: "(if fold (\<lambda>m sel. if fst m = v then snd m else sel) (hs_mcvs s) (- 1) < 0
      then (if 1 \<le> ndv then (if rest < 0 then 0 else rest) / of_int ndv else 1 / of_int (hs_total_rows s))
      else fold (\<lambda>m sel. if fst m = v then snd m else sel) (hs_mcvs s) (- 1)) = ?sel"
    using rest ndv f unfolding m fold_last [OF d] by (fastforce split: option.split)
  show ?thesis
    unfolding hist_oracle_def Let_def fold_sum_snd add_0 ndv_def [symmetric] rest_def [symmetric] raw
    using s1 nf by simp
qed

text \<open>
  C19. The equality estimates are a distribution: for a histogram of \<open>d\<close> distinct common values with
  positive frequencies and room for the rest, the estimates of the common values and of the other
  distinct values add up to one; and whatever the histogram, an estimate is positive and at most one.
\<close>

theorem equal_estimates_add_up:
  assumes "distinct (map fst (hs_mcvs s))" "\<And>m. m \<in> set (hs_mcvs s) \<Longrightarrow> 0 < snd m"
    and "0 \<le> hs_null_freq s" "1 / 10 ^ 9 < 1 - hs_null_freq s"
    and "0 < 1 - sum_list (map snd (hs_mcvs s)) - hs_null_freq s"
    and "1 \<le> fold (\<lambda>bk t. t + snd (snd bk)) (hs_buckets s) (0 :: int)"
    and "w \<notin> set (map fst (hs_mcvs s))" "1 \<le> hs_total_rows t"
  shows "sum_list (map (\<lambda>m. hist_oracle s (fst m)) (hs_mcvs s))
      + of_int (fold (\<lambda>bk t. t + snd (snd bk)) (hs_buckets s) 0) * hist_oracle s w = 1
    \<and> 0 < hist_oracle t v \<and> hist_oracle t v \<le> 1"
proof -
  let ?n = "fold (\<lambda>bk t. t + snd (snd bk)) (hs_buckets s) (0 :: int)" and ?nn = "1 - hs_null_freq s"
  have nn: "0 < ?nn" using assms(4) by (rule order.strict_trans [rotated]) simp
  note c = hist_oracle_cases [OF assms(1-6)]
  have w: "map_of (hs_mcvs s) w = None" using assms(7) by (simp add: map_of_eq_None_iff)
  have "map (\<lambda>m. hist_oracle s (fst m)) (hs_mcvs s) = map (\<lambda>m. snd m / ?nn) (hs_mcvs s)"
    by (rule map_cong [OF refl]) (auto simp: c map_of_is_SomeI [OF assms(1)])
  moreover have "sum_list (map (\<lambda>m. snd m / ?nn) ms) = sum_list (map snd ms) / ?nn" for ms :: "(real \<times> real) list"
    by (induction ms) (simp_all add: add_divide_distrib)
  ultimately have "sum_list (map (\<lambda>m. hist_oracle s (fst m)) (hs_mcvs s)) = sum_list (map snd (hs_mcvs s)) / ?nn" by (simp only:)
  moreover have "of_int ?n * hist_oracle s w = (1 - sum_list (map snd (hs_mcvs s)) - hs_null_freq s) / ?nn"
    using assms(6) by (simp add: c w)
  ultimately have one: "sum_list (map (\<lambda>m. hist_oracle s (fst m)) (hs_mcvs s)) + of_int ?n * hist_oracle s w = 1"
    using nn by (simp flip: add_divide_distrib)
  have "0 < (1 :: real) / of_int (hs_total_rows t)" "(1 :: real) / of_int (hs_total_rows t) \<le> 1" using assms(8) by simp_all
  then show ?thesis using one unfolding hist_oracle_def [of t] Let_def by (simp add: not_less)
qed

theorem equal_estimates_add_up_witness:
  "3 * hist_oracle \<lparr>hs_mcvs = [(1, 4 / 10)], hs_buckets = [(9, 1000, 3)], hs_total_rows = 1000, hs_null_freq = 0\<rparr> 7
    = 1 - hist_oracle \<lparr>hs_mcvs = [(1, 4 / 10)], hs_buckets = [(9, 1000, 3)], hs_total_rows = 1000, hs_null_freq = 0\<rparr> 1"
proof -
  let ?s = "\<lparr>hs_mcvs = [(1, 4 / 10)], hs_buckets = [(9, 1000, 3)], hs_total_rows = 1000, hs_null_freq = 0\<rparr>"
  show ?thesis using equal_estimates_add_up [of ?s 7 ?s 0] by simp
qed

end
