(* ===== verification/ListScan.thy ===== *)
theory ListScan
  imports EngineFakes
begin

text \<open>
  The fake lists of \<open>query_hash_join.bloom_filter/test.cpp\<close>: lists of stored tuples, the scan over one of them
  with its knobs for failure, peeking at a stored tuple or copying it into the caller's record.

  What is shown: a scan hands out the tuples in order and ends, or fails where it was told to; a caller's
  buffer is never mistaken for a stored tuple, so that nothing the scan writes changes a list.
\<close>

section \<open>Lists\<close>

text \<open>
  A list is its place among the lists of the suite, counted from 1 (the page id of its list id);
  \<open>fl_tuple_cnt\<close> is the count kept in the list id. The types of its columns, by which the engine lays a tuple
  out, are left to the engine.
\<close>

record fake_list =
  fl_tuples :: "u8 list list"
  fl_tuple_cnt :: int
  fl_fail_open :: bool
  fl_stop_at :: int
  fl_stop_sets_error :: bool
  fl_opens :: int
  fl_open_calls :: int

record list_world =
  g_lists :: "fake_list list"
  lw_errs :: errs

definition new_list :: "list_world \<Rightarrow> int \<times> list_world" where
  "new_list w =
     (let fl = \<lparr>fl_tuples = [], fl_tuple_cnt = 0, fl_fail_open = False, fl_stop_at = - 1, fl_stop_sets_error = True, fl_opens = 0, fl_open_calls = 0\<rparr>;
          w = w\<lparr>g_lists := g_lists w @ [fl]\<rparr>
      in (int (length (g_lists w)), w))"

definition fake_list_of :: "list_world \<Rightarrow> int \<Rightarrow> nat option" where
  "fake_list_of w h = (if h \<le> 0 \<or> int (length (g_lists w)) < h then None else Some (nat (h - 1)))"

definition set_list :: "nat \<Rightarrow> (fake_list \<Rightarrow> fake_list) \<Rightarrow> list_world \<Rightarrow> list_world" where
  "set_list k f w = w\<lparr>g_lists := (g_lists w)[k := f (g_lists w ! k)]\<rparr>"

text \<open>A row is made into a tuple by the engine; \<open>None\<close> when the list is not one of the suite's.\<close>

definition bloom_add_row :: "('v \<Rightarrow> u8 list) \<Rightarrow> int \<Rightarrow> 'v \<Rightarrow> list_world \<Rightarrow> list_world option" where
  "bloom_add_row make_tuple l vals w =
     (case fake_list_of w l of None \<Rightarrow> None
      | Some k \<Rightarrow> Some (set_list k (\<lambda>fl. fl\<lparr>fl_tuples := fl_tuples fl @ [make_tuple vals], fl_tuple_cnt := fl_tuple_cnt fl + 1\<rparr>) w))"

definition set_error :: "int \<Rightarrow> list_world \<Rightarrow> list_world" where
  "set_error err w = w\<lparr>lw_errs := fake_er_set err (lw_errs w)\<rparr>"

section \<open>The scan\<close>

datatype scan_status = S_OPENED | S_CLOSED
datatype scan_position = S_BEFORE | S_ON | S_AFTER
datatype list_scan_code = S_SUCCESS | S_END | S_ERROR

record list_scan =
  sc_status :: scan_status
  sc_position :: scan_position
  sc_curr_tplno :: int
  sc_list :: int

text \<open>
  Where a record's tuple is: nowhere, the stored tuple of a list, or a buffer of the caller's of \<open>tr_size\<close>
  bytes; and the list whose layout the record is bound to.
\<close>

datatype tpl_ptr = Null | Stored nat nat | Owned "u8 list"

record tuple_record =
  tr_tpl :: tpl_ptr
  tr_size :: int
  tr_layout :: "int option"

text \<open>\<open>ER_FAILED\<close> is the engine's. \<open>None\<close> for the scan id when it stays as it was.\<close>

definition bloom_qfile_open_list_scan :: "int \<Rightarrow> int \<Rightarrow> list_world \<Rightarrow> (int \<times> list_scan option) \<times> list_world" where
  "bloom_qfile_open_list_scan ER_FAILED l w =
     (case fake_list_of w l of
        None \<Rightarrow> ((ER_FAILED, None), set_error ER_FAILED w)
      | Some k \<Rightarrow>
          (let w = set_list k (\<lambda>fl. fl\<lparr>fl_open_calls := fl_open_calls fl + 1\<rparr>) w
           in if fl_fail_open (g_lists w ! k) then ((ER_FAILED, None), set_error ER_FAILED w)
              else ((NO_ERROR, Some \<lparr>sc_status = S_OPENED, sc_position = S_BEFORE, sc_curr_tplno = - 1, sc_list = l\<rparr>),
                    set_list k (\<lambda>fl. fl\<lparr>fl_opens := fl_opens fl + 1\<rparr>) w)))"

text \<open>
  \<open>memcpy\<close> of a tuple to the place a record names. The buffer of the caller was resized before when it was too
  small; a record that names a stored tuple would have it overwritten.
\<close>

definition copy_tuple :: "u8 list \<Rightarrow> tuple_record \<Rightarrow> list_world \<Rightarrow> tuple_record \<times> list_world" where
  "copy_tuple t r w =
     (case tr_tpl r of
        Owned b \<Rightarrow> (r\<lparr>tr_tpl := Owned (t @ drop (length t) b)\<rparr>, w)
      | Stored k i \<Rightarrow> (r, set_list k (\<lambda>fl. fl\<lparr>fl_tuples := (fl_tuples fl)[i := t @ drop (length t) (fl_tuples fl ! i)]\<rparr>) w)
      | Null \<Rightarrow> (r, w))"

text \<open>The resize: a new buffer when the record owned none (its size is zero), the old bytes kept otherwise; what it adds is arbitrary.\<close>

definition grow_record :: "(nat \<Rightarrow> u8 list) \<Rightarrow> int \<Rightarrow> tuple_record \<Rightarrow> tuple_record" where
  "grow_record junk len r =
     (if tr_size r < len then
        (let old = (if tr_size r \<noteq> 0 then (case tr_tpl r of Owned b \<Rightarrow> b | _ \<Rightarrow> []) else [])
         in r\<lparr>tr_tpl := Owned (take (nat len) (old @ junk (nat len))), tr_size := len\<rparr>)
      else r)"

definition bloom_qfile_scan_list_next ::
    "int \<Rightarrow> (u8 list \<Rightarrow> int) \<Rightarrow> (nat \<Rightarrow> u8 list) \<Rightarrow> bool \<Rightarrow> list_scan \<Rightarrow> tuple_record \<Rightarrow> list_world
     \<Rightarrow> list_scan_code \<times> list_scan \<times> tuple_record \<times> list_world" where
  "bloom_qfile_scan_list_next ER_FAILED tuple_length junk peek s r w =
     (case fake_list_of w (sc_list s) of
        None \<Rightarrow> (S_ERROR, s, r, set_error ER_FAILED w)
      | Some k \<Rightarrow>
          (let fl = g_lists w ! k; next_no = sc_curr_tplno s + 1
           in if 0 \<le> fl_stop_at fl \<and> next_no = fl_stop_at fl then
                (S_ERROR, s, r, if fl_stop_sets_error fl then set_error ER_FAILED w else w)
              else if int (length (fl_tuples fl)) \<le> next_no then (S_END, s\<lparr>sc_position := S_AFTER\<rparr>, r, w)
              else (let s = s\<lparr>sc_curr_tplno := next_no, sc_position := S_ON\<rparr>; i = nat next_no; t = fl_tuples fl ! i
                    in if peek then (S_SUCCESS, s, r\<lparr>tr_tpl := Stored k i, tr_size := 0, tr_layout := Some (sc_list s)\<rparr>, w)
                       else (case copy_tuple (take (nat (tuple_length t)) t) (grow_record junk (tuple_length t) r) w of
                               (r, w) \<Rightarrow> (S_SUCCESS, s, r\<lparr>tr_layout := Some (sc_list s)\<rparr>, w)))))"

definition bloom_qfile_close_scan :: "list_scan \<Rightarrow> list_scan" where
  "bloom_qfile_close_scan s = s\<lparr>sc_status := S_CLOSED\<rparr>"

section \<open>A caller's loop\<close>

text \<open>What a record shows: the bytes of its tuple.\<close>

definition record_bytes :: "(u8 list \<Rightarrow> int) \<Rightarrow> tuple_record \<Rightarrow> list_world \<Rightarrow> u8 list" where
  "record_bytes tuple_length r w =
     (case tr_tpl r of Null \<Rightarrow> [] | Stored k i \<Rightarrow> fl_tuples (g_lists w ! k) ! i | Owned b \<Rightarrow> take (nat (tuple_length b)) b)"

text \<open>Calls until one does not succeed, each peeking or copying as its turn says; the tuples shown and the last answer.\<close>

type_synonym scan_state = "nat \<times> list_scan \<times> tuple_record \<times> list_world \<times> list_scan_code"

definition scan_get ::
    "int \<Rightarrow> (u8 list \<Rightarrow> int) \<Rightarrow> (nat \<Rightarrow> u8 list) \<Rightarrow> (nat \<Rightarrow> bool) \<Rightarrow> scan_state \<Rightarrow> u8 list option \<times> scan_state" where
  "scan_get err len junk peeks = (\<lambda>(n, s, r, w, c).
     (case bloom_qfile_scan_list_next err len junk (peeks n) s r w of (c, s, r, w) \<Rightarrow>
        (if c = S_SUCCESS then Some (record_bytes len r w) else None, (Suc n, s, r, w, c))))"

definition scan_all ::
    "int \<Rightarrow> (u8 list \<Rightarrow> int) \<Rightarrow> (nat \<Rightarrow> u8 list) \<Rightarrow> (nat \<Rightarrow> bool) \<Rightarrow> nat \<Rightarrow> list_scan \<Rightarrow> tuple_record \<Rightarrow> list_world
     \<Rightarrow> (u8 list list \<times> list_scan_code \<times> list_scan \<times> tuple_record \<times> list_world) option" where
  "scan_all err len junk peeks n s r w =
     map_option (\<lambda>(ts, i, s, r, w, c). (ts, c, s, r, w)) (drain (one_by_one (scan_get err len junk peeks)) n (0, s, r, w, S_SUCCESS))"

text \<open>A record whose size says how large the caller's own buffer is, none when it is zero.\<close>

definition record_ok :: "tuple_record \<Rightarrow> bool" where
  "record_ok r \<longleftrightarrow> 0 \<le> tr_size r \<and> (0 < tr_size r \<longrightarrow> (\<exists>b. tr_tpl r = Owned b \<and> int (length b) = tr_size r))"

text \<open>The lengths the engine wrote into the stored tuples: positive, within the stored bytes, read from the first of them.\<close>

definition lengths_ok :: "(u8 list \<Rightarrow> int) \<Rightarrow> fake_list \<Rightarrow> bool" where
  "lengths_ok len fl \<longleftrightarrow> (\<forall>t \<in> set (fl_tuples fl). 0 < len t \<and> int (length t) = len t \<and> (\<forall>b. len (t @ b) = len t))"

definition junk_ok :: "(nat \<Rightarrow> u8 list) \<Rightarrow> bool" where
  "junk_ok junk \<longleftrightarrow> (\<forall>n. length (junk n) = n)"

lemma copied_record:
  assumes "record_ok r" "0 < len t" "int (length t) = len t" "\<forall>b. len (t @ b) = len t" "junk_ok junk"
    and "copy_tuple (take (nat (len t)) t) (grow_record junk (len t) r) w = (r', w')"
  shows "w' = w \<and> record_ok r' \<and> (\<exists>b. tr_tpl r' = Owned (t @ b))"
proof -
  have t: "take (nat (len t)) t = t" "nat (len t) = length t" using assms(3) by (simp_all flip: assms(3))
  show ?thesis
  proof (cases "tr_size r < len t")
    case True
    define old where "old = (if tr_size r \<noteq> 0 then (case tr_tpl r of Owned b \<Rightarrow> b | _ \<Rightarrow> []) else [])"
    define b where "b = take (length t) (old @ junk (length t))"
    have b: "length b = length t" using assms(5) by (simp add: b_def junk_ok_def)
    have g: "grow_record junk (len t) r = r\<lparr>tr_tpl := Owned b, tr_size := len t\<rparr>"
      using True by (simp add: grow_record_def Let_def b_def old_def t)
    have "r' = r\<lparr>tr_tpl := Owned t, tr_size := len t\<rparr>" "w' = w"
      using assms(6) unfolding t g by (auto simp: copy_tuple_def b)
    then show ?thesis using assms(2,3) by (auto simp: record_ok_def)
  next
    case False
    then obtain b where b: "tr_tpl r = Owned b" "int (length b) = tr_size r" using assms(1,2) by (auto simp: record_ok_def)
    have "grow_record junk (len t) r = r" using False by (simp add: grow_record_def)
    then have "r' = r\<lparr>tr_tpl := Owned (t @ drop (length t) b)\<rparr>" "w' = w"
      using assms(6) b unfolding t by (simp_all add: copy_tuple_def)
    then show ?thesis using b False assms(1,3) by (auto simp: record_ok_def)
  qed
qed

text \<open>One call that finds a tuple.\<close>

lemma next_tuple:
  assumes l: "fake_list_of w (sc_list s) = Some k" and i: "sc_curr_tplno s + 1 = int i" "i < length (fl_tuples (g_lists w ! k))"
    and go: "\<not> (0 \<le> fl_stop_at (g_lists w ! k) \<and> int i = fl_stop_at (g_lists w ! k))"
    and ok: "record_ok r" "lengths_ok len (g_lists w ! k)" "junk_ok junk"
  obtains r' where "bloom_qfile_scan_list_next err len junk peek s r w =
      (S_SUCCESS, s\<lparr>sc_curr_tplno := int i, sc_position := S_ON\<rparr>, r', w)"
    "record_ok r'" "record_bytes len r' w = fl_tuples (g_lists w ! k) ! i"
proof (cases peek)
  case True
  then show ?thesis using that l i go by (simp add: bloom_qfile_scan_list_next_def Let_def record_ok_def record_bytes_def)
next
  case False
  let ?t = "fl_tuples (g_lists w ! k) ! i"
  have t: "0 < len ?t" "int (length ?t) = len ?t" "\<forall>b. len (?t @ b) = len ?t"
    using ok(2) i(2) by (auto simp: lengths_ok_def)
  obtain r' w' where c: "copy_tuple (take (nat (len ?t)) ?t) (grow_record junk (len ?t) r) w = (r', w')" by fastforce
  from copied_record [OF ok(1) t ok(3) c] obtain b where b: "w' = w" "record_ok r'" "tr_tpl r' = Owned (?t @ b)" by auto
  have "nat (len ?t) = length ?t" using t(2) by simp
  then have "record_bytes len (r'\<lparr>tr_layout := Some (sc_list s)\<rparr>) w = ?t" using b t(3) by (simp add: record_bytes_def)
  moreover have "record_ok (r'\<lparr>tr_layout := Some (sc_list s)\<rparr>)" using b(2) by (simp add: record_ok_def)
  ultimately show ?thesis using that l i go False c b(1) by (simp add: bloom_qfile_scan_list_next_def Let_def)
qed

text \<open>Where a scan of a list stops, and how.\<close>

definition told_to_stop :: "fake_list \<Rightarrow> bool" where
  "told_to_stop fl \<longleftrightarrow> 0 \<le> fl_stop_at fl \<and> fl_stop_at fl \<le> int (length (fl_tuples fl))"

definition scan_stop :: "fake_list \<Rightarrow> nat" where
  "scan_stop fl = (if told_to_stop fl then nat (fl_stop_at fl) else length (fl_tuples fl))"

text \<open>The scan as a source of tuples, over a world and one of its lists.\<close>

definition scan_left :: "list_world \<Rightarrow> nat \<Rightarrow> scan_state \<Rightarrow> u8 list list" where
  "scan_left w0 k = (\<lambda>(n, s, r, w, c).
     drop (nat (sc_curr_tplno s + 1)) (take (scan_stop (g_lists w0 ! k)) (fl_tuples (g_lists w0 ! k))))"

definition scan_readable :: "(u8 list \<Rightarrow> int) \<Rightarrow> (nat \<Rightarrow> u8 list) \<Rightarrow> list_world \<Rightarrow> nat \<Rightarrow> scan_state \<Rightarrow> bool" where
  "scan_readable len junk w0 k = (\<lambda>(n, s, r, w, c).
     w = w0 \<and> fake_list_of w0 (sc_list s) = Some k \<and> 0 \<le> sc_curr_tplno s + 1 \<and> sc_curr_tplno s + 1 \<le> int (scan_stop (g_lists w0 ! k))
     \<and> record_ok r \<and> lengths_ok len (g_lists w0 ! k) \<and> junk_ok junk)"

definition scan_finished :: "int \<Rightarrow> list_world \<Rightarrow> nat \<Rightarrow> scan_state \<Rightarrow> bool" where
  "scan_finished err w0 k = (\<lambda>(n, s, r, w, c).
     record_ok r \<and> c = (if told_to_stop (g_lists w0 ! k) then S_ERROR else S_END)
     \<and> w = (if told_to_stop (g_lists w0 ! k) \<and> fl_stop_sets_error (g_lists w0 ! k) then set_error err w0 else w0))"

lemma scan_get_cases:
  assumes "scan_readable len junk w0 k (n, s, r, w, c)" "i = nat (sc_curr_tplno s + 1)"
  shows "i < scan_stop (g_lists w0 ! k) \<Longrightarrow> \<exists>r'. scan_get err len junk peeks (n, s, r, w, c) =
      (Some (fl_tuples (g_lists w0 ! k) ! i), (Suc n, s\<lparr>sc_curr_tplno := int i, sc_position := S_ON\<rparr>, r', w0, S_SUCCESS)) \<and> record_ok r'"
    and "\<not> i < scan_stop (g_lists w0 ! k) \<Longrightarrow> \<exists>s'. scan_get err len junk peeks (n, s, r, w, c) =
      (None, (Suc n, s', r, if told_to_stop (g_lists w0 ! k) \<and> fl_stop_sets_error (g_lists w0 ! k) then set_error err w0 else w0,
              if told_to_stop (g_lists w0 ! k) then S_ERROR else S_END))"
proof -
  let ?fl = "g_lists w0 ! k"
  have r: "w = w0" "fake_list_of w0 (sc_list s) = Some k" "sc_curr_tplno s + 1 = int i" "i \<le> scan_stop ?fl"
    "record_ok r" "lengths_ok len ?fl" "junk_ok junk"
    using assms by (auto simp: scan_readable_def)
  {
    assume "i < scan_stop ?fl"
    then have lt: "i < length (fl_tuples ?fl)" "\<not> (0 \<le> fl_stop_at ?fl \<and> int i = fl_stop_at ?fl)"
      by (auto simp: scan_stop_def told_to_stop_def split: if_split_asm)
    obtain r' where "bloom_qfile_scan_list_next err len junk (peeks n) s r w0 =
        (S_SUCCESS, s\<lparr>sc_curr_tplno := int i, sc_position := S_ON\<rparr>, r', w0)"
      "record_ok r'" "record_bytes len r' w0 = fl_tuples ?fl ! i"
      using next_tuple [OF r(2,3) lt r(5-7)] by blast
    then show "\<exists>r'. scan_get err len junk peeks (n, s, r, w, c) =
      (Some (fl_tuples ?fl ! i), (Suc n, s\<lparr>sc_curr_tplno := int i, sc_position := S_ON\<rparr>, r', w0, S_SUCCESS)) \<and> record_ok r'"
      by (simp add: scan_get_def r(1))
  }
  {
    assume "\<not> i < scan_stop ?fl"
    then have "i = scan_stop ?fl" using r(4) by simp
    then show "\<exists>s'. scan_get err len junk peeks (n, s, r, w, c) =
      (None, (Suc n, s', r, if told_to_stop ?fl \<and> fl_stop_sets_error ?fl then set_error err w0 else w0,
              if told_to_stop ?fl then S_ERROR else S_END))"
      using r(1-3)
      by (auto simp: scan_get_def bloom_qfile_scan_list_next_def Let_def scan_stop_def told_to_stop_def split: if_split_asm)
  }
qed

interpretation scan: cursor "scan_get err len junk peeks" "scan_left w0 k" "scan_readable len junk w0 k" "scan_finished err w0 k"
  for err len junk peeks w0 k
proof
  fix st x st'
  assume ok: "scan_readable len junk w0 k st"
  obtain n s r w c where st: "st = (n, s, r, w, c)" by (cases st) auto
  note cases = scan_get_cases [OF ok [unfolded st] refl, of err peeks]
  let ?i = "nat (sc_curr_tplno s + 1)"
  {
    assume g: "scan_get err len junk peeks st = (Some x, st')"
    then have lt: "?i < scan_stop (g_lists w0 ! k)" using cases(2) by (auto simp: st)
    then obtain r' where e: "x = fl_tuples (g_lists w0 ! k) ! ?i" "st' = (Suc n, s\<lparr>sc_curr_tplno := int ?i, sc_position := S_ON\<rparr>, r', w0, S_SUCCESS)"
      "record_ok r'" using cases(1) g by (auto simp: st)
    have "?i < length (fl_tuples (g_lists w0 ! k))" using lt by (auto simp: scan_stop_def told_to_stop_def split: if_split_asm)
    then have "drop ?i (take (scan_stop (g_lists w0 ! k)) (fl_tuples (g_lists w0 ! k)))
        = x # drop (Suc ?i) (take (scan_stop (g_lists w0 ! k)) (fl_tuples (g_lists w0 ! k)))"
      using lt by (simp add: e(1) Cons_nth_drop_Suc [symmetric])
    moreover have "nat (2 + sc_curr_tplno s) = Suc ?i" using ok by (simp add: st scan_readable_def) linarith
    ultimately show "scan_left w0 k st = x # scan_left w0 k st' \<and> scan_readable len junk w0 k st'"
      using ok lt e(3) by (simp add: st e(2) scan_left_def scan_readable_def)
  }
  {
    assume g: "scan_get err len junk peeks st = (None, st')"
    then have "\<not> ?i < scan_stop (g_lists w0 ! k)" using cases(1) by (auto simp: st)
    then show "scan_left w0 k st = [] \<and> scan_finished err w0 k st'"
      using cases(2) g ok by (auto simp: st scan_left_def scan_finished_def scan_readable_def)
  }
qed

lemma scan_from_start:
  assumes "fake_list_of w l = Some k" "sc_list s = l" "sc_curr_tplno s = - 1" "fl = g_lists w ! k"
    and "record_ok r" "lengths_ok len fl" "junk_ok junk"
  shows "\<exists>s' r'. scan_all err len junk peeks (Suc (scan_stop fl)) s r w =
      Some (take (scan_stop fl) (fl_tuples fl), if told_to_stop fl then S_ERROR else S_END, s', r',
            if told_to_stop fl \<and> fl_stop_sets_error fl then set_error err w else w) \<and> record_ok r'"
proof -
  let ?st = "(0, s, r, w, S_SUCCESS)"
  have left: "scan_left w k ?st = take (scan_stop fl) (fl_tuples fl)" using assms(3,4) by (simp add: scan_left_def)
  have "scan_readable len junk w k ?st" using assms by (simp add: scan_readable_def)
  note scan.drain_left [OF this, of "Suc (scan_stop fl)" err peeks, unfolded left]
  moreover have "length (take (scan_stop fl) (fl_tuples fl)) < Suc (scan_stop fl)" by simp
  ultimately obtain t where "drain (one_by_one (scan_get err len junk peeks)) (Suc (scan_stop fl)) ?st = Some (take (scan_stop fl) (fl_tuples fl), t)"
    "scan_finished err w k t"
    by blast
  then show ?thesis using assms(4) by (cases t) (auto simp: scan_all_def scan_finished_def simp del: drain.simps)
qed

lemma open_scan:
  assumes "bloom_qfile_open_list_scan err l w = ((rc, Some s), w')"
  obtains k where "fake_list_of w l = Some k" "fake_list_of w' l = Some k" "sc_list s = l" "sc_curr_tplno s = - 1"
    "rc = NO_ERROR" "\<not> fl_fail_open (g_lists w ! k)"
    "w' = set_list k (\<lambda>fl. fl\<lparr>fl_open_calls := fl_open_calls fl + 1, fl_opens := fl_opens fl + 1\<rparr>) w"
  using assms that
  by (auto simp: bloom_qfile_open_list_scan_def set_list_def fake_list_of_def Let_def nth_list_update split: option.split_asm if_split_asm)

text \<open>
  C21. A scan of a fake list, each call peeking or copying as it likes into a record of any well-formed state:
  the calls that succeed show the stored tuples in order, as far as the list was told to stop; then the scan
  ends, or fails and sets an error exactly when told to. It always ends, within one call more than tuples;
  no list is changed by it but for the counters of the open, and the record stays well-formed.
\<close>

theorem list_scan_reads:
  assumes "bloom_qfile_open_list_scan err l w = ((rc, Some s), w')" "fake_list_of w l = Some k" "fl = g_lists w ! k"
    and "record_ok r" "lengths_ok len fl" "junk_ok junk"
  shows "\<exists>s' r' w''. scan_all err len junk peeks (Suc (scan_stop fl)) s r w' =
      Some (take (scan_stop fl) (fl_tuples fl), if told_to_stop fl then S_ERROR else S_END, s', r', w'')
    \<and> record_ok r' \<and> map fl_tuples (g_lists w'') = map fl_tuples (g_lists w)
    \<and> er_sets (lw_errs w'') = er_sets (lw_errs w) + (if told_to_stop fl \<and> fl_stop_sets_error fl then 1 else 0)
    \<and> fl_opens (g_lists w'' ! k) = fl_opens fl + 1"
proof -
  from open_scan [OF assms(1)] obtain k' where k': "fake_list_of w l = Some k'" "fake_list_of w' l = Some k'"
    "sc_list s = l" "sc_curr_tplno s = - 1"
    "w' = set_list k' (\<lambda>fl. fl\<lparr>fl_open_calls := fl_open_calls fl + 1, fl_opens := fl_opens fl + 1\<rparr>) w" .
  have "k' = k" using k'(1) assms(2) by simp
  note o = k'(2-5) [unfolded this]
  have k: "k < length (g_lists w)" using assms(2) by (auto simp: fake_list_of_def split: if_split_asm)
  define fl' where "fl' = g_lists w' ! k"
  have fl': "fl' = fl\<lparr>fl_open_calls := fl_open_calls fl + 1, fl_opens := fl_opens fl + 1\<rparr>"
    using k by (simp add: fl'_def o(4) set_list_def assms(3))
  have same: "scan_stop fl' = scan_stop fl" "told_to_stop fl' = told_to_stop fl" "fl_tuples fl' = fl_tuples fl"
    "lengths_ok len fl' = lengths_ok len fl" "fl_stop_sets_error fl' = fl_stop_sets_error fl"
    by (simp_all add: fl' scan_stop_def told_to_stop_def lengths_ok_def)
  have "\<exists>s' r'. scan_all err len junk peeks (Suc (scan_stop fl')) s r w' =
      Some (take (scan_stop fl') (fl_tuples fl'), if told_to_stop fl' then S_ERROR else S_END, s', r',
            if told_to_stop fl' \<and> fl_stop_sets_error fl' then set_error err w' else w') \<and> record_ok r'"
    using scan_from_start [OF o(1-3) fl'_def assms(4)] assms(5) [folded same(4)] assms(6) by blast
  moreover have "map fl_tuples (g_lists w') = map fl_tuples (g_lists w)"
    using k by (intro nth_equalityI) (auto simp: o(4) set_list_def nth_list_update)
  moreover have "fl_opens (g_lists w' ! k) = fl_opens fl + 1" using fl' by (simp add: fl'_def)
  moreover have "lw_errs w' = lw_errs w" by (simp add: o(4) set_list_def)
  ultimately show ?thesis
    unfolding same by (cases "told_to_stop fl \<and> fl_stop_sets_error fl") (fastforce simp: set_error_def fake_er_set_def)+
qed

text \<open>Two tuples whose first byte is their length, a scan told to stop at the second.\<close>

theorem list_scan_reads_witness:
  "\<exists>x. scan_all (- 1) (\<lambda>b. case b of [] \<Rightarrow> 0 | c # _ \<Rightarrow> uint c) (\<lambda>n. replicate n 0) (\<lambda>n. False) 2
      \<lparr>sc_status = S_OPENED, sc_position = S_BEFORE, sc_curr_tplno = - 1, sc_list = 1\<rparr> \<lparr>tr_tpl = Null, tr_size = 0, tr_layout = None\<rparr>
      \<lparr>g_lists = [\<lparr>fl_tuples = [[2, 7], [1]], fl_tuple_cnt = 2, fl_fail_open = False, fl_stop_at = 1, fl_stop_sets_error = True, fl_opens = 1, fl_open_calls = 1\<rparr>],
        lw_errs = \<lparr>er_id = 0, er_sets = 0, er_stack = [], er_pushes = 0\<rparr>\<rparr> = Some ([[2, 7]], S_ERROR, x)"
proof -
  let ?fl = "\<lambda>n. \<lparr>fl_tuples = [[2, 7], [1 :: u8]], fl_tuple_cnt = 2, fl_fail_open = False, fl_stop_at = 1, fl_stop_sets_error = True, fl_opens = n, fl_open_calls = n\<rparr>"
  let ?w = "\<lambda>n. \<lparr>g_lists = [?fl n], lw_errs = \<lparr>er_id = 0, er_sets = 0, er_stack = [], er_pushes = 0\<rparr>\<rparr>"
  let ?len = "\<lambda>b. case b of [] \<Rightarrow> 0 | c # _ \<Rightarrow> uint c"
  have opened: "bloom_qfile_open_list_scan (- 1) 1 (?w 0) = ((NO_ERROR, Some \<lparr>sc_status = S_OPENED, sc_position = S_BEFORE,
      sc_curr_tplno = - 1, sc_list = 1\<rparr>), ?w 1)"
    by (simp add: bloom_qfile_open_list_scan_def fake_list_of_def set_list_def Let_def)
  have l: "fake_list_of (?w 0) 1 = Some 0" by (simp add: fake_list_of_def)
  have fl: "?fl 0 = g_lists (?w 0) ! 0" by simp
  have ok: "record_ok \<lparr>tr_tpl = Null, tr_size = 0, tr_layout = None\<rparr>" "lengths_ok ?len (?fl 0)" "junk_ok (\<lambda>n. replicate n 0)"
    by (simp_all add: record_ok_def lengths_ok_def junk_ok_def)
  have stop: "scan_stop (?fl 0) = 1" "told_to_stop (?fl 0)" by (simp_all add: scan_stop_def told_to_stop_def)
  have "Suc 1 = 2" "take 1 (fl_tuples (?fl 0)) = [[2, 7]]" by simp_all
  with list_scan_reads [OF opened l fl ok, where peeks = "\<lambda>n. False"] show ?thesis
    unfolding stop(1) by (simp only: stop(2) if_True) blast
qed

end
