(* ===== verification/PageWalk.thy ===== *)
theory PageWalk
  imports Prelude
begin

text \<open>
  The fakes under the batch scan of a heap page: \<open>query/z_scan_manager.collect_chunk/test.cpp\<close> (the collection of
  visible records a chunk at a time, the plan that learns representations) and
  \<open>storage/z_heap_file.collect_visible/test.cpp\<close> (the walk over the records of a page, the header reader, the
  snapshot). The engine's collectors are parameters.

  What is shown: whatever a caller does with the fakes -- chunks of any size, representations learned in
  between -- the rows collected are the records of the page, once each and in order, up to the slot the
  walk stands at; what each collection answers; the walk over records ends and meets each once, and the
  snapshot's answer on a header is what was written into the record.
\<close>

section \<open>Collecting a chunk\<close>

datatype scan_code = S_SUCCESS | S_END | S_DOESNT_FIT | S_ERROR

text \<open>A record is its slot and its representation; the globals of the suite.\<close>

type_synonym z_rec = "int \<times> int"

record z_state =
  z_page :: "z_rec list"
  z_known :: "int list"
  z_learnable :: "int list"
  z_gave_up :: bool
  z_collect_calls :: int
  z_learn_calls :: int
  z_rows_held_at_learn :: int

definition z_reset :: "z_rec list \<Rightarrow> int list \<Rightarrow> int list \<Rightarrow> z_state" where
  "z_reset pg known learnable =
     \<lparr>z_page = pg, z_known = known, z_learnable = learnable, z_gave_up = False, z_collect_calls = 0,
      z_learn_calls = 0, z_rows_held_at_learn = - 1\<rparr>"

definition z_rows_of :: "int \<Rightarrow> int \<Rightarrow> int \<Rightarrow> z_rec list" where
  "z_rows_of from_slot to_slot repid = map (\<lambda>s. (s, repid)) [from_slot..to_slot]"

text \<open>
  The loop over the page. \<open>rows\<close> are the rows filled so far, in order; the caller's report of an unknown
  representation is \<open>None\<close> for a NULL pointer. The result: the code, the slot, the rows, the report.
\<close>

fun collect_loop ::
    "int \<Rightarrow> int list \<Rightarrow> int \<Rightarrow> int \<Rightarrow> z_rec list \<Rightarrow> int list \<Rightarrow> int option \<Rightarrow> scan_code \<times> int \<times> int list \<times> int option" where
  "collect_loop null_repid repids slot cap [] rows unknown = (S_END, slot, rows, unknown)"
| "collect_loop null_repid repids slot cap (r # rs) rows unknown =
     (if fst r \<le> slot then collect_loop null_repid repids slot cap rs rows unknown
      else if repids \<noteq> [] \<and> \<not> list_ex (\<lambda>k. k = snd r) repids then
        (if rows \<noteq> [] then S_SUCCESS else S_DOESNT_FIT, fst r - 1, rows,
         if unknown = Some null_repid then Some (snd r) else unknown)
      else (let rows = rows @ [fst r]
            in if int (length rows) = cap then (S_SUCCESS, fst r, rows, unknown)
               else collect_loop null_repid repids slot cap rs rows unknown))"

definition heap_page_collect_visible ::
    "int \<Rightarrow> z_state \<Rightarrow> int \<Rightarrow> int \<Rightarrow> int list \<Rightarrow> int option \<Rightarrow> (scan_code \<times> int \<times> int list \<times> int option) \<times> z_state" where
  "heap_page_collect_visible null_repid st slot cap repids unknown =
     (collect_loop null_repid repids slot cap (z_page st) [] unknown,
      st\<lparr>z_collect_calls := z_collect_calls st + 1\<rparr>)"

text \<open>The plan: the representations it knows, learning one (\<open>True\<close> for \<open>NO_ERROR\<close>) with the rows the batch holds.\<close>

definition expr_batch_plan_gave_up :: "z_state \<Rightarrow> bool" where
  "expr_batch_plan_gave_up st = z_gave_up st"

definition expr_batch_plan_repids :: "z_state \<Rightarrow> int list \<times> int" where
  "expr_batch_plan_repids st = (z_known st, int (length (z_known st)))"

definition expr_batch_plan_learn_repr :: "z_state \<Rightarrow> int \<Rightarrow> int \<Rightarrow> bool \<times> z_state" where
  "expr_batch_plan_learn_repr st n_rows repid =
     (let st = st\<lparr>z_learn_calls := z_learn_calls st + 1, z_rows_held_at_learn := n_rows\<rparr>
      in if list_ex (\<lambda>r. r = repid) (z_learnable st) then (True, st\<lparr>z_known := z_known st @ [repid]\<rparr>) else (False, st))"

text \<open>Any sequence of collections and learnings, as far as the page has not ended: the state, the slot, the rows, whether it ended.\<close>

inductive z_calls :: "int \<Rightarrow> z_state \<Rightarrow> int \<Rightarrow> z_state \<Rightarrow> int \<Rightarrow> int list \<Rightarrow> bool \<Rightarrow> bool"
  for null_repid st0 slot0 where
  z_start: "z_calls null_repid st0 slot0 st0 slot0 [] False"
| z_collect: "z_calls null_repid st0 slot0 st slot rows False \<Longrightarrow> 1 \<le> cap \<Longrightarrow>
    heap_page_collect_visible null_repid st slot cap (fst (expr_batch_plan_repids st)) unknown =
      ((code, slot', new, unknown'), st') \<Longrightarrow>
    z_calls null_repid st0 slot0 st' slot' (rows @ new) (code = S_END)"
| z_learn: "z_calls null_repid st0 slot0 st slot rows ended \<Longrightarrow>
    expr_batch_plan_learn_repr st n_rows repid = (ok, st') \<Longrightarrow>
    z_calls null_repid st0 slot0 st' slot rows ended"

section \<open>What one collection answers\<close>

text \<open>
  A representation the caller decodes: all of them when it names none. The records ahead of the slot, and
  the longest run of them the caller decodes.
\<close>

definition decoded :: "int list \<Rightarrow> z_rec \<Rightarrow> bool" where
  "decoded repids r \<longleftrightarrow> repids = [] \<or> snd r \<in> set repids"

definition ahead :: "z_rec list \<Rightarrow> int \<Rightarrow> z_rec list" where
  "ahead pg slot = filter (\<lambda>r. slot < fst r) pg"

definition run_ahead :: "int list \<Rightarrow> z_rec list \<Rightarrow> int \<Rightarrow> z_rec list" where
  "run_ahead repids pg slot = takeWhile (decoded repids) (ahead pg slot)"

text \<open>The answer in closed form: the run cut at the room left, and why it stops.\<close>

definition chunk_answer ::
    "int \<Rightarrow> int list \<Rightarrow> int \<Rightarrow> nat \<Rightarrow> z_rec list \<Rightarrow> int list \<Rightarrow> int option \<Rightarrow> scan_code \<times> int \<times> int list \<times> int option" where
  "chunk_answer null_repid repids slot room todo rows unknown =
     (let run = takeWhile (decoded repids) todo
      in if room \<le> length run then (S_SUCCESS, fst (run ! (room - 1)), rows @ map fst (take room run), unknown)
         else if length run = length todo then (S_END, slot, rows @ map fst run, unknown)
         else (if rows @ map fst run \<noteq> [] then S_SUCCESS else S_DOESNT_FIT, fst (todo ! length run) - 1, rows @ map fst run,
               if unknown = Some null_repid then Some (snd (todo ! length run)) else unknown))"

lemma collect_loop_skips:
  "collect_loop null_repid repids slot cap pg rows unknown = collect_loop null_repid repids slot cap (ahead pg slot) rows unknown"
  by (induction pg arbitrary: rows) (auto simp: ahead_def Let_def)

lemma collect_loop_answer:
  assumes "\<forall>r \<in> set todo. slot < fst r" "0 < room" "cap = int (length rows + room)"
  shows "collect_loop null_repid repids slot cap todo rows unknown = chunk_answer null_repid repids slot room todo rows unknown"
  using assms
proof (induction todo arbitrary: rows room)
  case Nil
  then show ?case by (simp add: chunk_answer_def)
next
  case (Cons r rs)
  have dec: "(repids \<noteq> [] \<and> \<not> list_ex (\<lambda>k. k = snd r) repids) \<longleftrightarrow> \<not> decoded repids r" by (auto simp: decoded_def list_ex_iff)
  consider (unknown) "\<not> decoded repids r" | (full) "decoded repids r" "room = 1" | (row) j where "decoded repids r" "room = Suc (Suc j)"
    using Cons.prems(2) by (metis One_nat_def not0_implies_Suc not_gr_zero)
  then show ?case
  proof cases
    case row
    have "collect_loop null_repid repids slot cap rs (rows @ [fst r]) unknown
        = chunk_answer null_repid repids slot (Suc j) rs (rows @ [fst r]) unknown"
      using Cons.prems row(2) by (intro Cons.IH) simp_all
    moreover have "collect_loop null_repid repids slot cap (r # rs) rows unknown
        = collect_loop null_repid repids slot cap rs (rows @ [fst r]) unknown"
      using Cons.prems row by (simp add: dec Let_def)
    moreover have "chunk_answer null_repid repids slot (Suc j) rs (rows @ [fst r]) unknown
        = chunk_answer null_repid repids slot room (r # rs) rows unknown"
      using row by (simp add: chunk_answer_def Let_def)
    ultimately show ?thesis by simp
  qed (use Cons.prems in \<open>simp_all add: dec Let_def chunk_answer_def\<close>)
qed

lemma collect_answer:
  assumes "1 \<le> cap"
  shows "fst (heap_page_collect_visible null_repid st slot cap repids unknown)
    = chunk_answer null_repid repids slot (nat cap) (ahead (z_page st) slot) [] unknown"
proof -
  have "collect_loop null_repid repids slot cap (ahead (z_page st) slot) [] unknown
      = chunk_answer null_repid repids slot (nat cap) (ahead (z_page st) slot) [] unknown"
    using assms by (intro collect_loop_answer) (auto simp: ahead_def)
  then show ?thesis using collect_loop_skips by (simp add: heap_page_collect_visible_def)
qed

text \<open>The rows of an answer are the records up to its slot, when the records ascend.\<close>

abbreviation ascending :: "z_rec list \<Rightarrow> bool" where
  "ascending pg \<equiv> sorted_wrt (\<lambda>r r'. fst r < fst r') pg"

lemma ascending_filter: "ascending pg \<Longrightarrow> ascending (filter P pg)"
  by (induction pg) auto

lemma filter_upto:
  assumes "\<And>i. i < length xs \<Longrightarrow> P (xs ! i) \<longleftrightarrow> i < k"
  shows "filter P xs = take k xs"
proof -
  have "filter P (take k xs) = take k xs" "filter P (drop k xs) = []"
    using assms by (auto simp: filter_id_conv filter_empty_conv in_set_conv_nth)
  then have "filter P (take k xs @ drop k xs) = take k xs" by (simp only: filter_append append_Nil2)
  then show ?thesis by simp
qed

lemma ascending_cut:
  assumes "ascending todo" "k < length todo"
  shows "filter (\<lambda>r. fst r \<le> fst (todo ! k)) todo = take (Suc k) todo"
    and "filter (\<lambda>r. fst r \<le> fst (todo ! k) - 1) todo = take k todo"
proof -
  have "fst (todo ! i) \<le> fst (todo ! k) \<longleftrightarrow> i \<le> k" "fst (todo ! i) \<le> fst (todo ! k) - 1 \<longleftrightarrow> i < k" if "i < length todo" for i
    using sorted_wrt_nth_less [OF assms(1), of i k] sorted_wrt_nth_less [OF assms(1), of k i] assms(2) that
    by (cases i k rule: linorder_cases; simp)+
  then show "filter (\<lambda>r. fst r \<le> fst (todo ! k)) todo = take (Suc k) todo"
    "filter (\<lambda>r. fst r \<le> fst (todo ! k) - 1) todo = take k todo"
    using filter_upto [of todo "\<lambda>r. fst r \<le> fst (todo ! k)" "Suc k"] filter_upto [of todo "\<lambda>r. fst r \<le> fst (todo ! k) - 1" k]
    by (simp_all add: less_Suc_eq_le)
qed

lemma chunk_answer_rows:
  assumes "chunk_answer null_repid repids slot room todo [] unknown = (code, slot', new, unknown')"
    and "ascending todo" "\<forall>r \<in> set todo. slot < fst r" "0 < room"
  shows "slot \<le> slot'" "length new \<le> room" "set new \<subseteq> fst ` set (takeWhile (decoded repids) todo)"
    "new = map fst (if code = S_END then todo else filter (\<lambda>r. fst r \<le> slot') todo)"
    "code \<noteq> S_END \<Longrightarrow> code = S_SUCCESS \<and> new \<noteq> [] \<and> slot < slot' \<or> code = S_DOESNT_FIT \<and> new = []"
proof -
  let ?run = "takeWhile (decoded repids) todo"
  have le: "length ?run \<le> length todo" by (rule length_takeWhile_le)
  have pre: "take k ?run = take k todo" if "k \<le> length ?run" for k
    using that by (metis takeWhile_eq_take take_take min.absorb1)
  have run: "?run = take (length ?run) todo" by (rule takeWhile_eq_take)
  have gt: "slot < fst (todo ! i)" if "i < length todo" for i using assms(3) that by simp
  consider (full) "room \<le> length ?run" "slot' = fst (todo ! (room - 1))" "code = S_SUCCESS" "new = map fst (take room todo)"
    | (ends) "length ?run < room" "length ?run = length todo" "slot' = slot" "code = S_END" "new = map fst ?run"
    | (unknown) "length ?run < room" "length ?run < length todo" "slot' = fst (todo ! length ?run) - 1"
        "code = (if ?run \<noteq> [] then S_SUCCESS else S_DOESNT_FIT)" "new = map fst ?run"
    using assms(1,4) le pre [of room] nth_take [of "room - 1" "length ?run" todo] run
    unfolding chunk_answer_def Let_def
    by (smt (verit) Pair_inject append_Nil diff_less le_neq_implies_less less_le_trans less_numeral_extra(1) list.map_disc_iff not_less)
  then have "slot \<le> slot' \<and> length new \<le> room \<and> set new \<subseteq> fst ` set ?run
    \<and> new = map fst (if code = S_END then todo else filter (\<lambda>r. fst r \<le> slot') todo)
    \<and> (code \<noteq> S_END \<longrightarrow> code = S_SUCCESS \<and> new \<noteq> [] \<and> slot < slot' \<or> code = S_DOESNT_FIT \<and> new = [])"
  proof cases
    case full
    then have k: "room - 1 < length todo" "Suc (room - 1) = room" using le assms(4) by simp_all
    have "set (take room todo) \<subseteq> set ?run" using pre [OF full(1)] set_take_subset [of room ?run] by simp
    then show ?thesis
      using full k gt [OF k(1)] ascending_cut(1) [OF assms(2) k(1)] assms(4) by (auto simp: image_mono)
  next
    case ends
    then have t: "?run = todo" using run by (metis order_refl take_all)
    show ?thesis unfolding ends(3-5) t using ends(1) [unfolded ends(2)] by simp
  next
    case unknown
    note k = unknown(2)
    have "slot < slot'" if "?run \<noteq> []"
      using that gt [of 0] sorted_wrt_nth_less [OF assms(2), of 0 "length ?run"] k unknown(3)
      by (cases todo) auto
    then show ?thesis
      using unknown ascending_cut(2) [OF assms(2) k] gt [OF k] run by auto
  qed
  then show "slot \<le> slot'" "length new \<le> room" "set new \<subseteq> fst ` set ?run"
    "new = map fst (if code = S_END then todo else filter (\<lambda>r. fst r \<le> slot') todo)"
    "code \<noteq> S_END \<Longrightarrow> code = S_SUCCESS \<and> new \<noteq> [] \<and> slot < slot' \<or> code = S_DOESNT_FIT \<and> new = []"
    by blast+
qed

lemma collect_loop_rows:
  assumes "heap_page_collect_visible null_repid st slot cap repids unknown = ((code, slot', new, unknown'), st')"
    and "ascending (z_page st)" "1 \<le> cap"
  shows "new = map fst (if code = S_END then ahead (z_page st) slot else filter (\<lambda>r. fst r \<le> slot') (ahead (z_page st) slot))"
    and "slot \<le> slot'" "set new \<subseteq> fst ` set (run_ahead repids (z_page st) slot)"
    and "z_page st' = z_page st \<and> z_known st' = z_known st"
    and "length new \<le> nat cap"
    and "code \<noteq> S_END \<Longrightarrow> code = S_SUCCESS \<and> new \<noteq> [] \<and> slot < slot' \<or> code = S_DOESNT_FIT \<and> new = []"
    and "chunk_answer null_repid repids slot (nat cap) (ahead (z_page st) slot) [] unknown = (code, slot', new, unknown')"
proof -
  show a: "chunk_answer null_repid repids slot (nat cap) (ahead (z_page st) slot) [] unknown = (code, slot', new, unknown')"
    using collect_answer [OF assms(3), of null_repid st slot repids unknown] assms(1) by simp
  have "ascending (ahead (z_page st) slot)" "\<forall>r \<in> set (ahead (z_page st) slot). slot < fst r" "0 < nat cap"
    using assms(2,3) by (auto simp: ahead_def ascending_filter)
  note rows = chunk_answer_rows [OF a this]
  show "new = map fst (if code = S_END then ahead (z_page st) slot else filter (\<lambda>r. fst r \<le> slot') (ahead (z_page st) slot))"
    "slot \<le> slot'" "set new \<subseteq> fst ` set (run_ahead repids (z_page st) slot)" "length new \<le> nat cap"
    "code \<noteq> S_END \<Longrightarrow> code = S_SUCCESS \<and> new \<noteq> [] \<and> slot < slot' \<or> code = S_DOESNT_FIT \<and> new = []"
    using rows by (simp_all add: run_ahead_def)
  show "z_page st' = z_page st \<and> z_known st' = z_known st" using assms(1) by (auto simp: heap_page_collect_visible_def)
qed

text \<open>
  One collection, whatever the page (its records ascending), the slot and the room: it hands out the
  records ahead of the slot up to the slot it leaves, all of representations the caller decodes, at most
  \<open>cap\<close> of them; it answers that the page ended exactly when every record ahead is decoded and they leave
  room, and that nothing fits exactly when the first record ahead is not decoded; the page and what is known
  stay as they were.
\<close>

lemma collect_call_answers:
  assumes "heap_page_collect_visible null_repid st slot cap repids unknown = ((code, slot', new, unknown'), st')"
    and "ascending (z_page st)" "1 \<le> cap"
  shows "new = map fst (if code = S_END then ahead (z_page st) slot else filter (\<lambda>r. fst r \<le> slot') (ahead (z_page st) slot))
    \<and> int (length new) \<le> cap \<and> set new \<subseteq> fst ` set (run_ahead repids (z_page st) slot)
    \<and> (code = S_END \<longleftrightarrow> list_all (decoded repids) (ahead (z_page st) slot) \<and> int (length (ahead (z_page st) slot)) < cap)
    \<and> (code = S_DOESNT_FIT \<longleftrightarrow> ahead (z_page st) slot \<noteq> [] \<and> \<not> decoded repids (hd (ahead (z_page st) slot)))
    \<and> (code = S_SUCCESS \<longrightarrow> new \<noteq> [] \<and> slot < slot') \<and> (code = S_END \<longrightarrow> slot' = slot)
    \<and> st' = st\<lparr>z_collect_calls := z_collect_calls st + 1\<rparr>"
proof -
  let ?todo = "ahead (z_page st) slot"
  let ?run = "takeWhile (decoded repids) ?todo"
  note rows = collect_loop_rows [OF assms]
  have room: "0 < nat cap" using assms(3) by simp
  have le: "length ?run \<le> length ?todo" by (rule length_takeWhile_le)
  have all: "length ?run = length ?todo \<longleftrightarrow> list_all (decoded repids) ?todo"
    by (metis le_refl list_all_iff takeWhile_eq_all_conv takeWhile_eq_take take_all)
  have none: "?run = [] \<longleftrightarrow> ?todo = [] \<or> \<not> decoded repids (hd ?todo)" by (cases ?todo) auto
  have code: "code = S_END \<longleftrightarrow> length ?run = length ?todo \<and> length ?run < nat cap"
    "code = S_DOESNT_FIT \<longleftrightarrow> length ?run < length ?todo \<and> ?run = []"
    "code = S_END \<longrightarrow> slot' = slot"
    using rows(7) le room unfolding chunk_answer_def Let_def by (auto split: if_split_asm)
  have "int (length new) \<le> cap" using rows(5) assms(3) by linarith
  moreover have "code = S_END \<longleftrightarrow> list_all (decoded repids) ?todo \<and> int (length ?todo) < cap"
    using code(1) all by auto
  moreover have "code = S_DOESNT_FIT \<longleftrightarrow> ?todo \<noteq> [] \<and> \<not> decoded repids (hd ?todo)"
    using code(2) none by auto
  moreover have "st' = st\<lparr>z_collect_calls := z_collect_calls st + 1\<rparr>"
    using assms(1) by (simp add: heap_page_collect_visible_def)
  ultimately show ?thesis
    using rows(1,3,6) code(3) by blast
qed

lemma ascending_split:
  "ascending pg \<Longrightarrow> filter (\<lambda>r. fst r \<le> m) pg @ filter (\<lambda>r. m < fst r) pg = pg"
proof (induction pg)
  case (Cons r rs)
  then have IH: "filter (\<lambda>r. fst r \<le> m) rs @ filter (\<lambda>r. m < fst r) rs = rs" by simp
  show ?case
  proof (cases "fst r \<le> m")
    case False
    then have "filter (\<lambda>r. fst r \<le> m) rs = []" using Cons.prems by (force simp: filter_empty_conv)
    then show ?thesis using IH False by simp
  qed (use IH in simp)
qed simp

lemma ascending_inj: "ascending pg \<Longrightarrow> r \<in> set pg \<Longrightarrow> r' \<in> set pg \<Longrightarrow> fst r = fst r' \<Longrightarrow> r = r'"
  by (induction pg) force+

text \<open>Two stretches of the page in a row are one; the second may run to the end of the page.\<close>

lemma ahead_pieces:
  assumes "ascending pg" "slot0 \<le> slot" "slot \<le> slot'"
  shows "filter (\<lambda>r. fst r \<le> slot) (ahead pg slot0) @ ahead pg slot = ahead pg slot0"
    and "filter (\<lambda>r. fst r \<le> slot) (ahead pg slot0) @ filter (\<lambda>r. fst r \<le> slot') (ahead pg slot)
      = filter (\<lambda>r. fst r \<le> slot') (ahead pg slot0)"
proof -
  have "ascending (ahead pg slot0)" using assms(1) by (simp add: ahead_def ascending_filter)
  from ascending_split [OF this, of slot]
  show one: "filter (\<lambda>r. fst r \<le> slot) (ahead pg slot0) @ ahead pg slot = ahead pg slot0"
    using assms(2) by (simp add: ahead_def conj_commute cong: filter_cong) (metis (mono_tags, lifting) filter_cong order.strict_trans1)
  have "filter (\<lambda>r. fst r \<le> slot') (filter (\<lambda>r. fst r \<le> slot) (ahead pg slot0)) = filter (\<lambda>r. fst r \<le> slot) (ahead pg slot0)"
    unfolding filter_filter by (rule filter_cong) (use assms(3) in auto)
  then show "filter (\<lambda>r. fst r \<le> slot) (ahead pg slot0) @ filter (\<lambda>r. fst r \<le> slot') (ahead pg slot)
      = filter (\<lambda>r. fst r \<le> slot') (ahead pg slot0)"
    by (metis filter_append one)
qed

section \<open>A page in chunks\<close>

text \<open>
  A caller that collects until told otherwise, with the room of its choice at each turn: the state of the fakes, the
  turn, the slot, the last answer.
\<close>

definition chunk_pull ::
    "int \<Rightarrow> (nat \<Rightarrow> int) \<Rightarrow> int option \<Rightarrow> z_state \<times> nat \<times> int \<times> scan_code \<Rightarrow> int list \<times> (z_state \<times> nat \<times> int \<times> scan_code) \<times> bool" where
  "chunk_pull null_repid caps unknown = (\<lambda>(st, i, slot, code).
     (case heap_page_collect_visible null_repid st slot (caps i) (fst (expr_batch_plan_repids st)) unknown of
        ((code, slot', new, unknown'), st') \<Rightarrow> (new, (st', Suc i, slot', code), code = S_SUCCESS)))"

definition page_left :: "z_state \<times> nat \<times> int \<times> scan_code \<Rightarrow> int list" where
  "page_left = (\<lambda>(st, i, slot, code). map fst (run_ahead (z_known st) (z_page st) slot))"

definition page_readable :: "z_state \<Rightarrow> int \<Rightarrow> (nat \<Rightarrow> int) \<Rightarrow> z_state \<times> nat \<times> int \<times> scan_code \<Rightarrow> bool" where
  "page_readable st0 slot0 caps = (\<lambda>(st, i, slot, code).
     ascending (z_page st0) \<and> (\<forall>i. 1 \<le> caps i) \<and> z_page st = z_page st0 \<and> z_known st = z_known st0
     \<and> (list_all (decoded (z_known st0)) (ahead (z_page st0) slot0)
          \<longleftrightarrow> list_all (decoded (z_known st0)) (ahead (z_page st0) slot)))"

definition page_finished :: "z_state \<Rightarrow> int \<Rightarrow> z_state \<times> nat \<times> int \<times> scan_code \<Rightarrow> bool" where
  "page_finished st0 slot0 = (\<lambda>(st, i, slot, code). z_page st = z_page st0 \<and> z_known st = z_known st0
     \<and> code = (if list_all (decoded (z_known st0)) (ahead (z_page st0) slot0) then S_END else S_DOESNT_FIT))"

text \<open>The fake collector as a source of rows: a chunk is a prefix of the run ahead, the run ahead of the new slot is the rest.\<close>

lemma chunk_prefix:
  assumes asc: "ascending pg" and le: "slot \<le> slot'"
    and new: "new = map fst (filter (\<lambda>r. fst r \<le> slot') (ahead pg slot))" "set new \<subseteq> fst ` set (run_ahead repids pg slot)"
  shows "map fst (run_ahead repids pg slot) = new @ map fst (run_ahead repids pg slot')"
    and "list_all (decoded repids) (ahead pg slot) \<longleftrightarrow> list_all (decoded repids) (ahead pg slot')"
proof -
  let ?pre = "filter (\<lambda>r. fst r \<le> slot') (ahead pg slot)"
  have split: "?pre @ ahead pg slot' = ahead pg slot" by (rule ahead_pieces(1) [OF asc le order_refl])
  have "decoded repids r" if r: "r \<in> set ?pre" for r
  proof -
    obtain q where q: "q \<in> set (run_ahead repids pg slot)" "fst q = fst r" using new r by fastforce
    have "q \<in> set pg" "r \<in> set pg" using q(1) r by (auto simp: run_ahead_def ahead_def dest: set_takeWhileD)
    then have "q = r" using ascending_inj [OF asc] q(2) by blast
    then show ?thesis using q(1) by (auto simp: run_ahead_def dest: set_takeWhileD)
  qed
  then have dec: "\<forall>r \<in> set ?pre. decoded repids r" by blast
  have "takeWhile (decoded repids) (?pre @ ahead pg slot') = ?pre @ takeWhile (decoded repids) (ahead pg slot')"
    by (rule takeWhile_append2) (use dec in blast)
  then have "run_ahead repids pg slot = ?pre @ run_ahead repids pg slot'" by (simp only: run_ahead_def split)
  then show "map fst (run_ahead repids pg slot) = new @ map fst (run_ahead repids pg slot')" by (simp add: new(1))
  have "list_all (decoded repids) ?pre" unfolding list_all_iff by (rule dec)
  then have "list_all (decoded repids) (?pre @ ahead pg slot') \<longleftrightarrow> list_all (decoded repids) (ahead pg slot')"
    by (simp only: list_all_append simp_thms)
  then show "list_all (decoded repids) (ahead pg slot) \<longleftrightarrow> list_all (decoded repids) (ahead pg slot')" by (simp only: split)
qed

interpretation page: chunked "chunk_pull null_repid caps unknown" page_left "page_readable st0 slot0 caps" "page_finished st0 slot0"
  for null_repid caps unknown st0 slot0
proof
  fix s xs s'
  assume r: "page_readable st0 slot0 caps s"
  obtain st i slot code where s: "s = (st, i, slot, code)" by (cases s) auto
  have pg: "ascending (z_page st)" "1 \<le> caps i" "z_page st = z_page st0" "z_known st = z_known st0"
    using r by (simp_all add: s page_readable_def)
  {
    assume p: "chunk_pull null_repid caps unknown s = (xs, s', True)"
    then obtain slot' unknown' st' where e: "heap_page_collect_visible null_repid st slot (caps i) (z_known st) unknown
        = ((S_SUCCESS, slot', xs, unknown'), st')" and s': "s' = (st', Suc i, slot', S_SUCCESS)"
      by (auto simp: s chunk_pull_def expr_batch_plan_repids_def split: prod.split_asm)
    note k = collect_loop_rows [OF e pg(1,2)]
    have new: "xs = map fst (filter (\<lambda>r. fst r \<le> slot') (ahead (z_page st) slot))" using k(1) by simp
    have more: "xs \<noteq> []" "z_page st' = z_page st" "z_known st' = z_known st" using k(4,6) by simp_all
    from chunk_prefix [OF pg(1) k(2) new k(3)] show "xs \<noteq> [] \<and> page_left s = xs @ page_left s' \<and> page_readable st0 slot0 caps s'"
      using r more by (simp add: s s' page_left_def page_readable_def)
  }
  {
    assume p: "chunk_pull null_repid caps unknown s = (xs, s', False)"
    then obtain c slot' unknown' st' where e: "heap_page_collect_visible null_repid st slot (caps i) (z_known st) unknown
        = ((c, slot', xs, unknown'), st')" and s': "s' = (st', Suc i, slot', c)" and c: "c \<noteq> S_SUCCESS"
      by (auto simp: s chunk_pull_def expr_batch_plan_repids_def split: prod.split_asm)
    note a = collect_call_answers [OF e pg(1,2)]
    note k = collect_loop_rows(6) [OF e pg(1,2)]
    show "page_left s = xs \<and> page_finished st0 slot0 s'"
    proof (cases "c = S_END")
      case True
      then have "list_all (decoded (z_known st)) (ahead (z_page st) slot)" "xs = map fst (ahead (z_page st) slot)" using a by simp_all
      moreover from this(1) have "run_ahead (z_known st) (z_page st) slot = ahead (z_page st) slot"
        by (simp add: run_ahead_def list_all_iff takeWhile_eq_all_conv)
      ultimately show ?thesis using r a True by (simp add: s s' page_left_def page_readable_def page_finished_def)
    next
      case False
      then have d: "c = S_DOESNT_FIT" "xs = []" using k c by auto
      then have n: "ahead (z_page st) slot \<noteq> []" "\<not> decoded (z_known st) (hd (ahead (z_page st) slot))" using a by simp_all
      then have "run_ahead (z_known st) (z_page st) slot = []" "\<not> list_all (decoded (z_known st)) (ahead (z_page st) slot)"
        by (cases "ahead (z_page st) slot"; simp add: run_ahead_def)+
      then show ?thesis using r a d by (simp add: s s' page_left_def page_readable_def page_finished_def)
    qed
  }
qed

text \<open>
  C23. A caller that collects a page in chunks, of any size at each turn, is done after at most one call more
  than records ahead, and has met the longest run of records it can decode, whatever the sizes; the last answer is
  that the page ended exactly when that run is all the records ahead, and that nothing fits otherwise.
\<close>

theorem chunk_walk_ends:
  assumes "ascending (z_page st)" "\<And>i. 1 \<le> caps i"
  shows "\<exists>st' i slot'. drain (chunk_pull null_repid caps unknown) (Suc (length (ahead (z_page st) slot))) (st, 0, slot, S_SUCCESS)
      = Some (map fst (run_ahead (z_known st) (z_page st) slot), st', i, slot',
          if list_all (decoded (z_known st)) (ahead (z_page st) slot) then S_END else S_DOESNT_FIT)
    \<and> z_page st' = z_page st \<and> z_known st' = z_known st"
proof -
  let ?s = "(st, 0, slot, S_SUCCESS)"
  have "page_readable st slot caps ?s" using assms by (simp add: page_readable_def)
  moreover have "length (page_left ?s) < Suc (length (ahead (z_page st) slot))"
    by (simp add: page_left_def run_ahead_def le_imp_less_Suc length_takeWhile_le)
  ultimately obtain t where "drain (chunk_pull null_repid caps unknown) (Suc (length (ahead (z_page st) slot))) ?s = Some (page_left ?s, t)"
    "page_finished st slot t" using page.drain_left by blast
  then show ?thesis by (cases t) (auto simp: page_left_def page_finished_def)
qed

theorem chunk_walk_ends_witness:
  "\<exists>st' i slot'. drain (chunk_pull (- 1) (\<lambda>i. 2) None) 4 (z_reset (z_rows_of 1 3 1) [1] [], 0, 0, S_SUCCESS)
      = Some ([1, 2, 3], st', i, slot', S_END)"
proof -
  let ?st = "z_reset (z_rows_of 1 3 1) [1] []"
  have pg: "z_page ?st = [(1, 1), (2, 1), (3, 1)]" "z_known ?st = [1]" by (simp_all add: z_reset_def z_rows_of_def upto_rec1)
  have "ascending (z_page ?st)" by (simp add: pg)
  note t = chunk_walk_ends [OF this, of "\<lambda>i. 2" "- 1" None 0, unfolded pg]
  have "ahead [(1, 1), (2, 1), (3, 1)] 0 = [(1, 1), (2, 1), (3, 1)]" by (simp add: ahead_def)
  with t show ?thesis by (simp add: run_ahead_def decoded_def eval_nat_numeral del: drain.simps) blast
qed

section \<open>Any sequence of calls\<close>

text \<open>What every sequence of calls keeps.\<close>

definition covered :: "z_state \<Rightarrow> int \<Rightarrow> z_state \<Rightarrow> int \<Rightarrow> int list \<Rightarrow> bool \<Rightarrow> bool" where
  "covered st0 slot0 st slot rows ended \<longleftrightarrow>
     z_page st = z_page st0 \<and> set (z_known st0) \<subseteq> set (z_known st) \<and> slot0 \<le> slot
     \<and> rows = map fst (if ended then ahead (z_page st0) slot0 else filter (\<lambda>r. fst r \<le> slot) (ahead (z_page st0) slot0))
     \<and> (z_known st0 \<noteq> [] \<longrightarrow> (\<forall>r \<in> set (z_page st0). fst r \<in> set rows \<longrightarrow> snd r \<in> set (z_known st)))"

lemma covered_collect:
  assumes I: "covered st0 slot0 st slot rows False" and asc: "ascending (z_page st0)" and cap: "1 \<le> cap"
    and e: "heap_page_collect_visible null_repid st slot cap (z_known st) unknown = ((code, slot', new, unknown'), st')"
  shows "covered st0 slot0 st' slot' (rows @ new) (code = S_END)"
proof -
  let ?pg = "z_page st0"
  have pg: "z_page st = ?pg" using I by (simp add: covered_def)
  have a: "ascending (z_page st)" using asc pg by simp
  note c = collect_loop_rows [OF e a cap, unfolded pg]
  have le: "slot \<le> slot'" "slot0 \<le> slot" using c(2) I by (simp_all add: covered_def)
  note pieces = ahead_pieces [OF asc le(2,1)]
  have "rows @ new = map fst (if code = S_END then ahead ?pg slot0 else filter (\<lambda>r. fst r \<le> slot') (ahead ?pg slot0))"
    using I c(1) pieces by (auto simp: covered_def simp flip: map_append)
  moreover have "snd r \<in> set (z_known st)" if r: "r \<in> set ?pg" "fst r \<in> set (rows @ new)" "z_known st0 \<noteq> []" for r
  proof (cases "fst r \<in> set rows")
    case False
    then obtain q where q: "q \<in> set (run_ahead (z_known st) ?pg slot)" "fst q = fst r" using c(3) r(2) by fastforce
    then have "q \<in> set ?pg" "decoded (z_known st) q"
      by (auto simp: run_ahead_def ahead_def dest: set_takeWhileD)
    then show ?thesis using ascending_inj [OF asc _ r(1) q(2)] r(3) I by (auto simp: decoded_def covered_def)
  qed (use I r in \<open>simp add: covered_def\<close>)
  ultimately show ?thesis using I c(4) le by (simp add: covered_def)
qed

lemma covered_learn:
  assumes "covered st0 slot0 st slot rows ended" "expr_batch_plan_learn_repr st n_rows repid = (ok, st')"
  shows "covered st0 slot0 st' slot rows ended"
  using assms by (auto simp: covered_def expr_batch_plan_learn_repr_def Let_def split: if_split_asm)

text \<open>
  C20. Whatever the calls -- chunks of any size over the representations known at the time, representations
  learned in between, with or without success -- the rows collected are the records of the page behind the
  slot the walk began at up to the slot it stands at, each once and in order, all of the page when it
  ended; every one of them has a representation known by then, and the page is never changed.
\<close>

theorem chunks_cover_page:
  assumes "z_calls null_repid st0 slot0 st slot rows ended" "ascending (z_page st0)"
  shows "z_page st = z_page st0 \<and> slot0 \<le> slot
    \<and> rows = map fst (if ended then ahead (z_page st0) slot0 else filter (\<lambda>r. fst r \<le> slot) (ahead (z_page st0) slot0))
    \<and> (z_known st0 \<noteq> [] \<longrightarrow> (\<forall>r \<in> set (z_page st0). fst r \<in> set rows \<longrightarrow> snd r \<in> set (z_known st)))"
proof -
  from assms(1) have "covered st0 slot0 st slot rows ended"
  proof induction
    case z_start
    have "filter (\<lambda>r. fst r \<le> slot0) (ahead (z_page st0) slot0) = []" by (auto simp: ahead_def filter_empty_conv)
    then show ?case by (simp add: covered_def)
  next
    case z_collect
    then show ?case using covered_collect assms(2) by (simp add: expr_batch_plan_repids_def)
  qed (rule covered_learn)
  then show ?thesis by (simp add: covered_def)
qed

theorem chunks_cover_page_witness:
  "snd (snd (fst (heap_page_collect_visible (- 1) (z_reset (z_rows_of 1 3 1) [1] [2]) 0 2 [1] None))) = ([1, 2], None)
   \<and> [1, 2] = map fst (filter (\<lambda>r. fst r \<le> 2) (ahead (z_rows_of 1 3 1) 0))"
proof -
  let ?st = "z_reset (z_rows_of 1 3 1) [1] [2]"
  have pg: "z_rows_of 1 3 1 = [(1, 1), (2, 1), (3, 1)]" by (simp add: z_rows_of_def upto_rec1)
  have e: "heap_page_collect_visible (- 1) ?st 0 2 (fst (expr_batch_plan_repids ?st)) None
      = ((S_SUCCESS, 2, [1, 2], None), ?st\<lparr>z_collect_calls := z_collect_calls ?st + 1\<rparr>)"
    by (simp add: heap_page_collect_visible_def pg z_reset_def expr_batch_plan_repids_def)
  from z_collect [OF z_start _ e] have "z_calls (- 1) ?st 0 (?st\<lparr>z_collect_calls := z_collect_calls ?st + 1\<rparr>) 2 [1, 2] False" by simp
  from chunks_cover_page [OF this] have "[1, 2] = map fst (filter (\<lambda>r. fst r \<le> 2) (ahead (z_page ?st) 0))"
    by (simp add: pg z_reset_def)
  then show ?thesis using e by (simp add: z_reset_def expr_batch_plan_repids_def)
qed

section \<open>The records of a page\<close>

text \<open>What a record says of its visibility; its header; the types a walk meets.\<close>

datatype z_vis = Z_ALL | Z_SAT | Z_OLD | Z_NEW | Z_NEW_PREV

datatype rec_type = REC_HOME | REC_RELOCATION | REC_BIGONE | REC_NEWHOME | REC_ASSIGN_ADDRESS | REC_UNKNOWN

record z_hdr =
  zh_magic :: int
  zh_vis :: z_vis
  zh_repid :: int

record heap_rec =
  hr_slot :: int
  hr_type :: rec_type
  hr_hdr :: z_hdr

definition z_make_page :: "int \<Rightarrow> int \<Rightarrow> heap_rec list" where
  "z_make_page n_rows repid =
     map (\<lambda>s. \<lparr>hr_slot = s, hr_type = REC_HOME, hr_hdr = \<lparr>zh_magic = 0x5a5a, zh_vis = Z_ALL, zh_repid = repid\<rparr>\<rparr>) [1..n_rows]"

text \<open>\<open>z_at\<close> gives the place of the first record in a slot, for the test to change it there.\<close>

fun z_at :: "heap_rec list \<Rightarrow> int \<Rightarrow> nat option" where
  "z_at [] slot = None"
| "z_at (r # rs) slot = (if hr_slot r = slot then Some 0 else map_option Suc (z_at rs slot))"

text \<open>The next record above a slot: its slot, type and header; \<open>None\<close> at the end of the page.\<close>

fun spage_next_record :: "heap_rec list \<Rightarrow> int \<Rightarrow> (int \<times> rec_type \<times> z_hdr) option" where
  "spage_next_record [] slotid = None"
| "spage_next_record (r # rs) slotid =
     (if slotid < hr_slot r then Some (hr_slot r, hr_type r, hr_hdr r) else spage_next_record rs slotid)"

text \<open>The header read from the record, and the fake snapshot. The id that every transaction sees is the engine's.\<close>

record mvcc_header =
  mh_repid :: int
  mh_valid_insid :: bool
  mh_ins_id :: int
  mh_prev_version :: "(int \<times> int) option"

fun vis_number :: "z_vis \<Rightarrow> int" where
  "vis_number Z_ALL = 0"
| "vis_number Z_SAT = 1"
| "vis_number Z_OLD = 2"
| "vis_number Z_NEW = 3"
| "vis_number Z_NEW_PREV = 4"

definition or_mvcc_get_header :: "int \<Rightarrow> z_hdr \<Rightarrow> mvcc_header option" where
  "or_mvcc_get_header all_visible f =
     (if zh_magic f \<noteq> 0x5a5a then None
      else Some (if zh_vis f = Z_ALL then \<lparr>mh_repid = zh_repid f, mh_valid_insid = False, mh_ins_id = all_visible, mh_prev_version = None\<rparr>
                 else \<lparr>mh_repid = zh_repid f, mh_valid_insid = True, mh_ins_id = 1000 + vis_number (zh_vis f),
                       mh_prev_version = (if zh_vis f = Z_NEW_PREV then Some (12, 34) else None)\<rparr>))"

datatype snapshot_result = SNAPSHOT_SATISFIED | TOO_OLD_FOR_SNAPSHOT | TOO_NEW_FOR_SNAPSHOT

definition z_snapshot :: "mvcc_header \<Rightarrow> snapshot_result" where
  "z_snapshot h =
     (if mh_ins_id h - 1000 = vis_number Z_SAT then SNAPSHOT_SATISFIED
      else if mh_ins_id h - 1000 = vis_number Z_OLD then TOO_OLD_FOR_SNAPSHOT else TOO_NEW_FOR_SNAPSHOT)"

text \<open>
  One call of the engine's collector, of either revision (the older one also lists records for a fetch by
  OID); what it leaves, and the records the row path is handed afterwards.
\<close>

record z_result =
  zr_code :: scan_code
  zr_n :: int
  zr_slot :: int
  zr_unknown :: int
  zr_n_exc :: int
  zr_rows :: "int list"
  zr_rowpath_records :: int

type_synonym new_collector = "heap_rec list \<Rightarrow> int \<Rightarrow> int \<Rightarrow> int list \<Rightarrow> int \<Rightarrow> scan_code \<times> int \<times> int list \<times> int \<times> int"
type_synonym old_collector = "heap_rec list \<Rightarrow> int \<Rightarrow> int \<Rightarrow> int list \<Rightarrow> int \<Rightarrow> scan_code \<times> int \<times> int list \<times> int \<times> int \<times> int"

definition rowpath_records :: "heap_rec list \<Rightarrow> int \<Rightarrow> int" where
  "rowpath_records pg slot = fold (\<lambda>r k. k + (if slot < hr_slot r then 1 else 0)) pg 0"

definition z_collect_rows :: "new_collector + old_collector \<Rightarrow> int \<Rightarrow> heap_rec list \<Rightarrow> int \<Rightarrow> int \<Rightarrow> int list \<Rightarrow> z_result" where
  "z_collect_rows collector null_repid pg slot cap repids =
     (case (case collector of Inl new \<Rightarrow> (case new pg slot cap repids null_repid of (code, slot, rows, n, unknown) \<Rightarrow> (code, slot, rows, n, unknown, 0))
            | Inr old \<Rightarrow> old pg slot cap repids null_repid) of
        (code, slot, rows, n, unknown, n_exc) \<Rightarrow>
          \<lparr>zr_code = code, zr_n = n, zr_slot = slot, zr_unknown = unknown, zr_n_exc = n_exc, zr_rows = take (nat n) rows,
           zr_rowpath_records = rowpath_records pg slot\<rparr>)"

text \<open>The walk a caller makes with the fake, with a bound on its steps.\<close>

definition record_next :: "heap_rec list \<Rightarrow> int \<Rightarrow> (int \<times> rec_type \<times> z_hdr) option \<times> int" where
  "record_next pg slot = (case spage_next_record pg slot of None \<Rightarrow> (None, slot) | Some (s, x) \<Rightarrow> (Some (s, x), s))"

definition record_walk :: "nat \<Rightarrow> heap_rec list \<Rightarrow> int \<Rightarrow> (int \<times> rec_type \<times> z_hdr) list option" where
  "record_walk k pg slot = map_option fst (drain (one_by_one (record_next pg)) k slot)"

definition rec_view :: "heap_rec \<Rightarrow> int \<times> rec_type \<times> z_hdr" where
  "rec_view r = (hr_slot r, hr_type r, hr_hdr r)"

definition records_left :: "heap_rec list \<Rightarrow> int \<Rightarrow> (int \<times> rec_type \<times> z_hdr) list" where
  "records_left pg slot = map rec_view (filter (\<lambda>r. slot < hr_slot r) pg)"

lemma next_record: "spage_next_record pg slot =
    (case filter (\<lambda>r. slot < hr_slot r) pg of [] \<Rightarrow> None | r # rs \<Rightarrow> Some (rec_view r))"
  by (induction pg) (simp_all add: rec_view_def)

text \<open>Behind the next record lie the records after it.\<close>

lemma records_behind:
  assumes "sorted_wrt (\<lambda>r r'. hr_slot r < hr_slot r') pg" "filter (\<lambda>r. slot < hr_slot r) pg = r # rs"
  shows "filter (\<lambda>q. hr_slot r < hr_slot q) pg = rs"
proof -
  have asc: "sorted_wrt (\<lambda>r r'. hr_slot r < hr_slot r') (r # rs)" unfolding assms(2) [symmetric] using assms(1) by (induction pg) auto
  have gt: "slot < hr_slot r" using assms(2) by (auto simp: filter_eq_Cons_iff)
  have "filter (\<lambda>q. hr_slot r < hr_slot q) pg = filter (\<lambda>q. hr_slot r < hr_slot q) (filter (\<lambda>q. slot < hr_slot q) pg)"
    unfolding filter_filter by (rule filter_cong) (use gt in auto)
  also have "\<dots> = rs" unfolding assms(2) using asc by (simp add: filter_id_conv)
  finally show ?thesis .
qed

interpretation walk: cursor "record_next pg" "records_left pg" "\<lambda>_. sorted_wrt (\<lambda>r r'. hr_slot r < hr_slot r') pg" "\<lambda>_. True" for pg
proof
  fix s x s'
  assume asc: "sorted_wrt (\<lambda>r r'. hr_slot r < hr_slot r') pg"
  {
    assume n: "record_next pg s = (Some x, s')"
    obtain r rs where f: "filter (\<lambda>r. s < hr_slot r) pg = r # rs" "x = rec_view r" "s' = hr_slot r"
    proof (cases "filter (\<lambda>r. s < hr_slot r) pg")
      case (Cons r rs)
      then have "x = rec_view r" "s' = hr_slot r" using n by (auto simp: record_next_def next_record rec_view_def)
      then show ?thesis using that Cons by blast
    qed (use n in \<open>simp add: record_next_def next_record\<close>)
    then show "records_left pg s = x # records_left pg s' \<and> sorted_wrt (\<lambda>r r'. hr_slot r < hr_slot r') pg"
      using records_behind [OF asc f(1)] asc by (simp add: records_left_def)
  }
  {
    assume n: "record_next pg s = (None, s')"
    show "records_left pg s = [] \<and> True"
    proof (cases "filter (\<lambda>r. s < hr_slot r) pg")
      case (Cons r rs)
      then show ?thesis using n by (simp add: record_next_def next_record rec_view_def)
    qed (simp add: records_left_def)
  }
qed

lemma record_walk_filter:
  assumes "sorted_wrt (\<lambda>r r'. hr_slot r < hr_slot r') pg" "length (filter (\<lambda>r. slot < hr_slot r) pg) < k"
  shows "record_walk k pg slot = Some (map rec_view (filter (\<lambda>r. slot < hr_slot r) pg))"
  using walk.drain_left [OF assms(1), of slot k] assms(2) by (auto simp: record_walk_def records_left_def)

lemma rowpath_records_count: "rowpath_records pg slot = int (length (filter (\<lambda>r. slot < hr_slot r) pg))"
proof -
  have "fold (\<lambda>r k. k + (if slot < hr_slot r then 1 else 0)) pg z = z + int (length (filter (\<lambda>r. slot < hr_slot r) pg))" for z
    by (induction pg arbitrary: z) simp_all
  then show ?thesis by (simp add: rowpath_records_def)
qed

text \<open>
  C24. The walk over a page of ascending records ends and meets each record above the slot once, in order, with
  its own type and header; the suite's count of what the row path is handed is the length of that walk from
  where the collector, of either revision, stopped. A header read back has the representation written, and the
  snapshot answers of an id what was written: satisfied, too old, too new, and an older version only where
  one was written.
\<close>

theorem record_walk_ends:
  assumes "sorted_wrt (\<lambda>r r'. hr_slot r < hr_slot r') pg"
  shows "record_walk (Suc (length pg)) pg slot = Some (map rec_view (filter (\<lambda>r. slot < hr_slot r) pg))
    \<and> (let z = z_collect_rows collector null_repid pg slot cap repids
       in zr_rowpath_records z = int (length (the (record_walk (Suc (length pg)) pg (zr_slot z)))))
    \<and> (\<forall>h. or_mvcc_get_header all_visible \<lparr>zh_magic = 0x5a5a, zh_vis = v, zh_repid = k\<rparr> = Some h \<longrightarrow>
          mh_repid h = k \<and> (mh_valid_insid h \<longleftrightarrow> v \<noteq> Z_ALL) \<and> (mh_prev_version h \<noteq> None \<longleftrightarrow> v = Z_NEW_PREV)
          \<and> (v \<noteq> Z_ALL \<longrightarrow> z_snapshot h = (if v = Z_SAT then SNAPSHOT_SATISFIED else if v = Z_OLD then TOO_OLD_FOR_SNAPSHOT
                else TOO_NEW_FOR_SNAPSHOT)))
    \<and> or_mvcc_get_header all_visible \<lparr>zh_magic = 0x5a5a, zh_vis = v, zh_repid = k\<rparr> \<noteq> None"
proof -
  have w: "record_walk (Suc (length pg)) pg s = Some (map rec_view (filter (\<lambda>r. s < hr_slot r) pg))" for s
    by (rule record_walk_filter [OF assms]) (simp add: le_imp_less_Suc)
  have "zr_rowpath_records z = int (length (the (record_walk (Suc (length pg)) pg (zr_slot z))))"
    if "z = z_collect_rows collector null_repid pg slot cap repids" for z
    unfolding w that by (simp add: z_collect_rows_def rowpath_records_count split: sum.split prod.split)
  then show ?thesis using w by (cases v) (simp_all add: or_mvcc_get_header_def z_snapshot_def Let_def)
qed

text \<open>A page of made records, and a collector that takes everything.\<close>

theorem record_walk_ends_witness:
  "map fst (the (record_walk 4 (z_make_page 3 1) 1)) = [2, 3]"
proof -
  have pg: "z_make_page 3 1 = map (\<lambda>s. \<lparr>hr_slot = s, hr_type = REC_HOME, hr_hdr = \<lparr>zh_magic = 0x5a5a, zh_vis = Z_ALL, zh_repid = 1\<rparr>\<rparr>) [1, 2, 3]"
    by (simp add: z_make_page_def upto_rec1)
  have "sorted_wrt (\<lambda>r r'. hr_slot r < hr_slot r') (z_make_page 3 1)" by (simp add: pg)
  note t = record_walk_ends [OF this, of 1 "Inl (\<lambda>pg slot cap repids u. (S_END, slot, map hr_slot pg, 3, u))" 0 9 "[]" 0 Z_ALL 0]
  have l: "Suc (length (z_make_page 3 1)) = 4" by (simp add: pg)
  show ?thesis using t [THEN conjunct1, unfolded l] by (simp add: pg) (simp add: rec_view_def)
qed

end
