(* ===== verification/ValHash.thy ===== *)
theory ValHash
  imports NumericOracle
begin

text \<open>
  The hash of NUMERIC values (\<open>base/memory_hash.valhash_numeric/test.cpp\<close>, V1): the forms one number has --
  trailing zeros, negative scales, fixed and floating, a wider domain -- and the loops that compare every
  two of them. The engine's construction of a value, its comparison and its hash are parameters.

  What is shown: every form denotes the number it was made for; the case passes exactly when the forms of
  one number hash alike, its demand for a thousand equal pairs being met by the zeros alone.
\<close>

section \<open>Forms of a number\<close>

text \<open>A NUMERIC made directly: the digits of the coefficient, the precision, the scale, the sign, whether fixed. The engine's limits.\<close>

record num_form =
  nf_digits :: string
  nf_p :: int
  nf_s :: int
  nf_neg :: bool
  nf_fixed :: bool

record numeric_limits =
  max_precision :: nat
  min_scale :: int
  max_scale :: int
  max_fixed_precision :: int

definition made :: "string \<Rightarrow> int \<Rightarrow> int \<Rightarrow> bool \<Rightarrow> bool \<Rightarrow> num_form" where
  "made digits p s neg is_fixed = \<lparr>nf_digits = digits, nf_p = p, nf_s = s, nf_neg = neg, nf_fixed = is_fixed\<rparr>"

text \<open>The forms with \<open>z\<close> trailing zeros; all of them.\<close>

definition forms_with :: "numeric_limits \<Rightarrow> string \<Rightarrow> int \<Rightarrow> bool \<Rightarrow> nat \<Rightarrow> num_form list" where
  "forms_with lm k e neg z =
     (let s = int z - e; p = int (length k + z)
      in if s < min_scale lm \<or> max_scale lm < s then []
         else (let c = k @ replicate z (CHR ''0'')
               in made c p s neg False
                  # (if 0 \<le> s \<and> s \<le> p \<and> p \<le> max_fixed_precision lm then
                       made c p s neg True
                       # (if p < max_fixed_precision lm then [made c (max_fixed_precision lm) s neg True] else [])
                     else [])))"

definition forms :: "numeric_limits \<Rightarrow> string \<Rightarrow> int \<Rightarrow> bool \<Rightarrow> num_form list" where
  "forms lm k e neg = concat (map (forms_with lm k e neg) [0..<Suc (max_precision lm) - length k])"

text \<open>The numbers of the case, and zero at every scale, of both signs.\<close>

definition v1_values :: "(string \<times> int) list" where
  "v1_values =
     [(''1'', 0), (''1'', - 1), (''1'', - 2), (''1'', 2), (''15'', - 1), (''15'', 0), (''12345'', - 3), (''12345'', 3),
      (''7'', - 38), (''34028236692093846346337460743176821145'', - 1), (''9'', 37), (''1'', 39), (''1'', 100),
      (''123'', - 200), (''5'', 0)]"

definition v1_zeros :: "num_form list" where
  "v1_zeros = concat (map (\<lambda>s. made ''0'' 1 s False False # made ''0'' 1 s True False
     # (if 0 \<le> s \<and> s \<le> 38 then [made ''0'' 38 s False True] else [])) [- 3..40])"

section \<open>The comparison of every two\<close>

text \<open>One pair: the pairs that compare equal, and those of them that hash apart.\<close>

definition v1_pair :: "('v \<Rightarrow> 'v \<Rightarrow> bool) \<Rightarrow> ('v \<Rightarrow> 'h) \<Rightarrow> 'v \<Rightarrow> 'v \<Rightarrow> nat \<times> nat \<Rightarrow> nat \<times> nat" where
  "v1_pair num_equal hash a b st =
     (if \<not> num_equal a b then st
      else (Suc (fst st), if hash a \<noteq> hash b then Suc (snd st) else snd st))"

definition v1_list :: "('v \<Rightarrow> 'v \<Rightarrow> bool) \<Rightarrow> ('v \<Rightarrow> 'h) \<Rightarrow> 'v list \<Rightarrow> nat \<times> nat \<Rightarrow> nat \<times> nat" where
  "v1_list num_equal hash f st =
     fold (\<lambda>i. fold (\<lambda>j. v1_pair num_equal hash (f ! i) (f ! j)) [Suc i..<length f]) [0..<length f] st"

text \<open>A list of forms made by the engine and compared; \<open>None\<close> when the engine declines one (the suite's \<open>REQUIRE\<close>).\<close>

definition v1_made :: "(num_form \<Rightarrow> 'v option) \<Rightarrow> ('v \<Rightarrow> 'v \<Rightarrow> bool) \<Rightarrow> ('v \<Rightarrow> 'h) \<Rightarrow> num_form list
    \<Rightarrow> (nat \<times> nat) option \<Rightarrow> (nat \<times> nat) option" where
  "v1_made db_make num_equal hash fs st =
     Option.bind st (\<lambda>st. map_option (\<lambda>f. v1_list num_equal hash f st) (those (map db_make fs)))"

definition v1_run :: "numeric_limits \<Rightarrow> (num_form \<Rightarrow> 'v option) \<Rightarrow> ('v \<Rightarrow> 'v \<Rightarrow> bool) \<Rightarrow> ('v \<Rightarrow> 'h) \<Rightarrow> (nat \<times> nat) option" where
  "v1_run lm db_make num_equal hash =
     v1_made db_make num_equal hash v1_zeros
       (fold (\<lambda>(k, e). fold (\<lambda>neg. v1_made db_make num_equal hash (forms lm k e neg)) [False, True]) v1_values (Some (0, 0)))"

definition v1_passes :: "numeric_limits \<Rightarrow> (num_form \<Rightarrow> 'v option) \<Rightarrow> ('v \<Rightarrow> 'v \<Rightarrow> bool) \<Rightarrow> ('v \<Rightarrow> 'h) \<Rightarrow> bool" where
  "v1_passes lm db_make num_equal hash =
     (case v1_run lm db_make num_equal hash of None \<Rightarrow> False | Some (pairs, bad) \<Rightarrow> 1000 < pairs \<and> bad = 0)"

section \<open>The forms denote the number\<close>

definition form_value :: "num_form \<Rightarrow> real" where
  "form_value f = num_value (nf_neg f) (nf_digits f) (nf_s f)"

lemma forms_denote:
  assumes "f \<in> set (forms lm k e neg)"
  shows "form_value f = (if neg then - 1 else 1) * real (dec_num k) * 10 powi e"
    and "nf_neg f = neg" "length (nf_digits f) \<le> max_precision lm"
    and "min_scale lm \<le> nf_s f" "nf_s f \<le> max_scale lm" "int (length (nf_digits f)) \<le> nf_p f"
    and "nf_fixed f \<Longrightarrow> 0 \<le> nf_s f \<and> nf_s f \<le> nf_p f \<and> nf_p f \<le> max_fixed_precision lm"
proof -
  obtain z where z: "z < Suc (max_precision lm) - length k" and f: "f \<in> set (forms_with lm k e neg z)"
    using assms by (auto simp: forms_def)
  then have d: "nf_digits f = k @ replicate z (CHR ''0'')" "nf_s f = int z - e" "nf_neg f = neg"
    by (auto simp: forms_with_def made_def Let_def split: if_split_asm)
  have "real (dec_num k * 10 ^ z) * 10 powi (- (int z - e)) = real (dec_num k) * 10 powi e"
    by (simp add: power_int_diff power_int_minus field_simps)
  then show "form_value f = (if neg then - 1 else 1) * real (dec_num k) * 10 powi e"
    by (simp add: form_value_def num_value_def d mult.assoc)
  show "nf_neg f = neg" "length (nf_digits f) \<le> max_precision lm" using d z by simp_all
  show "min_scale lm \<le> nf_s f" "nf_s f \<le> max_scale lm" "int (length (nf_digits f)) \<le> nf_p f"
    "nf_fixed f \<Longrightarrow> 0 \<le> nf_s f \<and> nf_s f \<le> nf_p f \<and> nf_p f \<le> max_fixed_precision lm"
    using f by (auto simp: forms_with_def made_def Let_def split: if_split_asm)
qed

lemma zeros_denote: "f \<in> set v1_zeros \<Longrightarrow> form_value f = 0"
  by (auto simp: v1_zeros_def made_def form_value_def num_value_def split: if_split_asm)

section \<open>The case decides\<close>

interpretation v1_bad: tally "\<lambda>(i, j). v1_pair num_equal hash (f ! i) (f ! j)" snd
    "\<lambda>(i, j). num_equal (f ! i) (f ! j) \<and> hash (f ! i) \<noteq> hash (f ! j)" for num_equal hash f
  by unfold_locales (simp add: v1_pair_def case_prod_beta)

interpretation v1_equal: tally "\<lambda>(i, j). v1_pair num_equal hash (f ! i) (f ! j)" fst
    "\<lambda>(i, j). num_equal (f ! i) (f ! j)" for num_equal hash f
  by unfold_locales (simp add: v1_pair_def case_prod_beta)

lemma v1_list_pairs:
  "v1_list num_equal hash f st
    = fold (\<lambda>(i, j). v1_pair num_equal hash (f ! i) (f ! j)) (pairs_of (\<lambda>i. [Suc i..<length f]) [0..<length f]) st"
  unfolding v1_list_def by (rule fold_pairs)

text \<open>Over values that all compare equal: every pair counts, and none is bad exactly when all hash alike.\<close>

lemma v1_list_equal:
  assumes "\<And>a b. a \<in> set f \<Longrightarrow> b \<in> set f \<Longrightarrow> num_equal a b"
  shows "fst (v1_list num_equal hash f st) = fst st + length (pairs_of (\<lambda>i. [Suc i..<length f]) [0..<length f])"
    and "snd (v1_list num_equal hash f st) = 0 \<longleftrightarrow> snd st = 0 \<and> (\<forall>a \<in> set f. \<forall>b \<in> set f. hash a = hash b)"
proof -
  let ?ps = "pairs_of (\<lambda>i. [Suc i..<length f]) [0..<length f]"
  have eq: "num_equal (f ! i) (f ! j)" if "(i, j) \<in> set ?ps" for i j using that assms by auto
  then have "filter (\<lambda>(i, j). num_equal (f ! i) (f ! j)) ?ps = ?ps" by (auto simp: filter_id_conv)
  then show "fst (v1_list num_equal hash f st) = fst st + length ?ps"
    unfolding v1_list_pairs v1_equal.counter_fold by simp
  have "(\<forall>i j. i < length f \<and> i < j \<and> j < length f \<longrightarrow> hash (f ! i) = hash (f ! j))
      \<longleftrightarrow> (\<forall>a \<in> set f. \<forall>b \<in> set f. hash a = hash b)" (is "?l \<longleftrightarrow> ?r")
  proof
    assume l: ?l
    have "hash (f ! i) = hash (f ! j)" if "i < length f" "j < length f" for i j
    proof (cases i j rule: linorder_cases)
      case greater
      then have "hash (f ! j) = hash (f ! i)" using l that by blast
      then show ?thesis by (rule sym)
    qed (use l that in auto)
    then show ?r by (metis in_set_conv_nth)
  qed simp
  moreover have "(\<forall>(i, j) \<in> set ?ps. \<not> (num_equal (f ! i) (f ! j) \<and> hash (f ! i) \<noteq> hash (f ! j)))
      \<longleftrightarrow> (\<forall>i j. i < length f \<and> i < j \<and> j < length f \<longrightarrow> hash (f ! i) = hash (f ! j))"
    using assms by (auto simp: Suc_le_eq)
  ultimately show "snd (v1_list num_equal hash f st) = 0 \<longleftrightarrow> snd st = 0 \<and> (\<forall>a \<in> set f. \<forall>b \<in> set f. hash a = hash b)"
    unfolding v1_list_pairs v1_bad.counter_zero by (simp add: case_prod_beta)
qed

lemma those_Some: "those (map (\<lambda>x. Some (g x)) xs) = Some (map g xs)"
  by (induction xs) simp_all

text \<open>One list of forms of one number.\<close>

definition alike :: "('v \<Rightarrow> 'h) \<Rightarrow> (num_form \<Rightarrow> 'v) \<Rightarrow> num_form list \<Rightarrow> bool" where
  "alike hash mk fs \<longleftrightarrow> (\<forall>f \<in> set fs. \<forall>g \<in> set fs. hash (mk f) = hash (mk g))"

lemma v1_made_step:
  assumes "\<And>f g. f \<in> set fs \<Longrightarrow> g \<in> set fs \<Longrightarrow> num_equal (mk f) (mk g)"
  shows "\<exists>b'. v1_made (\<lambda>f. Some (mk f)) num_equal hash fs (Some (p, b))
      = Some (p + length (pairs_of (\<lambda>i. [Suc i..<length fs]) [0..<length fs]), b') \<and> (b' = 0 \<longleftrightarrow> b = 0 \<and> alike hash mk fs)"
proof -
  have eq: "num_equal a c" if "a \<in> set (map mk fs)" "c \<in> set (map mk fs)" for a c using that assms by auto
  let ?r = "v1_list num_equal hash (map mk fs) (p, b)"
  have "v1_made (\<lambda>f. Some (mk f)) num_equal hash fs (Some (p, b)) = Some (fst ?r, snd ?r)"
    by (simp add: v1_made_def those_Some)
  moreover have "fst ?r = p + length (pairs_of (\<lambda>i. [Suc i..<length fs]) [0..<length fs])"
    using v1_list_equal(1) [of "map mk fs" num_equal hash "(p, b)", OF eq] by simp
  moreover have "snd ?r = 0 \<longleftrightarrow> b = 0 \<and> alike hash mk fs"
    using v1_list_equal(2) [of "map mk fs" num_equal hash "(p, b)", OF eq] by (simp add: alike_def)
  ultimately show ?thesis by metis
qed

lemma v1_values_run:
  assumes all: "\<forall>k e neg. \<forall>f \<in> set (forms lm k e neg). \<forall>g \<in> set (forms lm k e neg). num_equal (mk f) (mk g)"
  shows "\<exists>p' b'. fold (\<lambda>(k, e). fold (\<lambda>neg. v1_made (\<lambda>f. Some (mk f)) num_equal hash (forms lm k e neg)) [False, True]) vs
      (Some (p, b)) = Some (p', b') \<and> (b' = 0 \<longleftrightarrow> b = 0 \<and> (\<forall>(k, e) \<in> set vs. \<forall>neg. alike hash mk (forms lm k e neg)))"
proof (induction vs arbitrary: p b)
  case (Cons v vs)
  obtain k e where v: "v = (k, e)" by fastforce
  have eq: "num_equal (mk f) (mk g)" if "f \<in> set (forms lm k e neg)" "g \<in> set (forms lm k e neg)" for neg f g
    using all that by blast
  from v1_made_step [of "forms lm k e False" num_equal mk hash p b, OF eq [where neg = False]] obtain p1 b1 where
    1: "v1_made (\<lambda>f. Some (mk f)) num_equal hash (forms lm k e False) (Some (p, b)) = Some (p1, b1)"
    "b1 = 0 \<longleftrightarrow> b = 0 \<and> alike hash mk (forms lm k e False)" by blast
  from v1_made_step [of "forms lm k e True" num_equal mk hash p1 b1, OF eq [where neg = True]] obtain p2 b2 where
    2: "v1_made (\<lambda>f. Some (mk f)) num_equal hash (forms lm k e True) (Some (p1, b1)) = Some (p2, b2)"
    "b2 = 0 \<longleftrightarrow> b1 = 0 \<and> alike hash mk (forms lm k e True)" by blast
  have both: "(\<forall>neg. alike hash mk (forms lm k e neg)) \<longleftrightarrow> alike hash mk (forms lm k e False) \<and> alike hash mk (forms lm k e True)"
    by (metis (full_types))
  obtain p' b' where 3: "fold (\<lambda>(k, e). fold (\<lambda>neg. v1_made (\<lambda>f. Some (mk f)) num_equal hash (forms lm k e neg)) [False, True]) vs
      (Some (p2, b2)) = Some (p', b')" "b' = 0 \<longleftrightarrow> b2 = 0 \<and> (\<forall>(k, e) \<in> set vs. \<forall>neg. alike hash mk (forms lm k e neg))"
    using Cons [of p2 b2] by blast
  have run: "fold (\<lambda>(k, e). fold (\<lambda>neg. v1_made (\<lambda>f. Some (mk f)) num_equal hash (forms lm k e neg)) [False, True]) (v # vs)
      (Some (p, b)) = Some (p', b')"
    unfolding v using 3(1) by (simp add: 1(1) 2(1))
  have "b' = 0 \<longleftrightarrow> b = 0 \<and> (\<forall>(k, e) \<in> set (v # vs). \<forall>neg. alike hash mk (forms lm k e neg))"
    unfolding 3(2) 2(2) 1(2) v list.set ball_simps prod.case both by blast
  with run show ?case by blast
qed simp

lemma pairs_count: "2 * length (pairs_of (\<lambda>i. [Suc i..<n]) [0..<n]) = n * (n - 1)"
proof -
  have "2 * sum_list (map (\<lambda>i. n - Suc i) [0..<n]) = n * (n - 1)"
  proof (induction n)
    case (Suc n)
    have "[0..<Suc n] = 0 # map Suc [0..<n]" by (simp add: map_Suc_upt upt_conv_Cons del: upt_Suc)
    then have "sum_list (map (\<lambda>i. Suc n - Suc i) [0..<Suc n]) = n + sum_list (map (\<lambda>i. n - Suc i) [0..<n])"
      by (simp add: comp_def)
    then show ?case using Suc by (cases n) (simp_all add: algebra_simps)
  qed simp
  then show ?thesis by (simp add: pairs_of_def length_concat comp_def)
qed

lemma zeros_length: "length v1_zeros = 127"
  by (simp add: v1_zeros_def upto_rec1)

text \<open>
  C22. With an engine that makes every form and compares forms as the numbers they denote, the case runs
  to its end, and it passes exactly when, for each number of the table and each sign, all its forms hash
  alike, and all the zeros do: each form denotes the number it was made for, so that every two of a list
  are compared, and the zeros alone are over a thousand pairs.
\<close>

theorem v1_decides:
  assumes "\<And>f. db_make f = Some (mk f)" "\<And>f g. num_equal (mk f) (mk g) \<longleftrightarrow> form_value f = form_value g"
  shows "v1_run lm db_make num_equal hash \<noteq> None
    \<and> (v1_passes lm db_make num_equal hash \<longleftrightarrow>
         (\<forall>(k, e) \<in> set v1_values. \<forall>neg. alike hash mk (forms lm k e neg)) \<and> alike hash mk v1_zeros)
    \<and> (\<forall>k e neg f. f \<in> set (forms lm k e neg) \<longrightarrow> form_value f = (if neg then - 1 else 1) * real (dec_num k) * 10 powi e)"
proof -
  have mk: "db_make = (\<lambda>f. Some (mk f))" using assms(1) by (rule ext)
  have eq: "\<forall>k e neg. \<forall>f \<in> set (forms lm k e neg). \<forall>g \<in> set (forms lm k e neg). num_equal (mk f) (mk g)"
    using forms_denote(1) by (simp add: assms(2))
  have eq0: "num_equal (mk f) (mk g)" if "f \<in> set v1_zeros" "g \<in> set v1_zeros" for f g
    using that by (simp add: assms(2) zeros_denote)
  from v1_values_run [of lm num_equal mk hash v1_values 0 0, OF eq]
  obtain p b where v: "fold (\<lambda>(k, e). fold (\<lambda>neg. v1_made db_make num_equal hash (forms lm k e neg)) [False, True]) v1_values
      (Some (0, 0)) = Some (p, b)" "b = 0 \<longleftrightarrow> (\<forall>(k, e) \<in> set v1_values. \<forall>neg. alike hash mk (forms lm k e neg))"
    unfolding mk by (simp only: simp_thms) blast
  obtain p' b' where z: "v1_made db_make num_equal hash v1_zeros (Some (p, b)) = Some (p', b')"
    "p' = p + length (pairs_of (\<lambda>i. [Suc i..<length v1_zeros]) [0..<length v1_zeros])" "b' = 0 \<longleftrightarrow> b = 0 \<and> alike hash mk v1_zeros"
    unfolding mk using v1_made_step [of v1_zeros num_equal mk hash p b, OF eq0] by blast
  have "2 * length (pairs_of (\<lambda>i. [Suc i..<127]) [0..<127]) = 127 * (127 - 1)" by (rule pairs_count)
  then have "1000 < p'" using z(2) unfolding zeros_length by linarith
  moreover have "v1_run lm db_make num_equal hash = Some (p', b')" unfolding v1_run_def v(1) by (rule z(1))
  ultimately show ?thesis using v(2) z(3) forms_denote(1) by (auto simp: v1_passes_def)
qed

text \<open>Values that are their forms, compared as numbers; a hash that keeps nothing passes, one that keeps the scale does not.\<close>

theorem v1_decides_witness:
  "v1_passes \<lparr>max_precision = 2, min_scale = 0, max_scale = 3, max_fixed_precision = 2\<rparr> Some
      (\<lambda>f g. form_value f = form_value g) (\<lambda>f. 0 :: nat)
   \<and> \<not> v1_passes \<lparr>max_precision = 2, min_scale = 0, max_scale = 3, max_fixed_precision = 2\<rparr> Some
      (\<lambda>f g. form_value f = form_value g) nf_s"
proof -
  let ?lm = "\<lparr>max_precision = 2, min_scale = 0, max_scale = 3, max_fixed_precision = 2\<rparr>"
  note d = v1_decides [of Some "\<lambda>f. f" "\<lambda>f g. form_value f = form_value g" ?lm, OF refl refl]
  have "v1_passes ?lm Some (\<lambda>f g. form_value f = form_value g) (\<lambda>f. 0 :: nat)"
    using d [of "\<lambda>f. 0 :: nat"] by (simp add: alike_def case_prod_beta)
  moreover have "made ''0'' 1 0 False False \<in> set v1_zeros" "made ''0'' 1 1 False False \<in> set v1_zeros"
    by (auto simp: v1_zeros_def)
  then have "\<not> alike nf_s (\<lambda>f. f) v1_zeros" by (force simp: alike_def made_def)
  then have "\<not> v1_passes ?lm Some (\<lambda>f g. form_value f = form_value g) nf_s"
    using d [of nf_s] by blast
  ultimately show ?thesis ..
qed

end
