(* ===== verification/Spec2Isabelle.thy ===== *)
theory Spec2Isabelle
  imports NumericCases FkOracle RtfClone GbyCache KeptTrees BloomHooks NumBatch HashMerge RevisionHooks WalkHooks
    ForwardHooks CellKernels SketchMix WordMag CnfModel EngineFakes GroupSizes HistBlob
    ListScan PageWalk ValHash
begin

text \<open>
  \<^bold>\<open>The program.\<close> The repository holds the C++ unit suites of a review of the CUBRID engine, under
  \<^verbatim>\<open>src/unit/<module>/<suite>/\<close>: a \<^verbatim>\<open>hooks.cpp\<close> is compiled at the end of an
  engine file, reaches its local functions and drives them over hand-built state; a \<^verbatim>\<open>test.cpp\<close>
  holds oracles, fakes, case tables and the test cases. The engine's own files are not in the
  repository. The development models the parts of the suites that have logic of their own. An engine
  function that they call is a parameter; what a suite relies on of it is a named hypothesis of the
  theorem that needs it, and each such theorem is applied to a concrete function by its witness.

  \<^bold>\<open>Theories.\<close>
  \<^item> \<^verbatim>\<open>Prelude\<close>: word and list types, the bounded mismatch list of the numeric suite
    (\<^verbatim>\<open>struct mismatches\<close>), and the locale \<^verbatim>\<open>tally\<close> of loops that count: a loop that counts a bad
    item per iteration counts zero exactly when no item is bad. Every comparison loop interprets it. The
    locales \<^verbatim>\<open>chunked\<close> and \<^verbatim>\<open>cursor\<close> are the contract of a source read to its end, a chunk or an element a
    call; the scans and page walks of the suites interpret them.
  \<^item> \<^verbatim>\<open>Decimal\<close>, \<^verbatim>\<open>NumericOracle\<close>, \<^verbatim>\<open>NumericGrids\<close>, \<^verbatim>\<open>NumericCases\<close>
    (\<^verbatim>\<open>query/numeric_opfunc.exact_paths/test.cpp\<close>): digit-string arithmetic and the 17-byte buffer; the
    exact order of two NUMERIC values, the models of ROUND, TRUNC, FLOOR and CEIL and what the
    128-bit path takes; the grids of values; the loops and case tables X1 to X3, I, R1 to R3, F1, F2,
    H2 and H3. The lemmas relate every oracle to the rational number a value denotes.
  \<^item> \<^verbatim>\<open>FkWorld\<close>, \<^verbatim>\<open>FkLedger\<close>, \<^verbatim>\<open>FkOracle\<close>
    (\<^verbatim>\<open>transaction/locator_sr.check_foreign_key/test.cpp\<close>): the scripted world and every fake the
    engine's foreign-key check calls; the ledgers as a step relation over any sequence of those calls,
    with the invariants that make the closing check exact (locale \<^verbatim>\<open>pool\<close> for live addresses); the
    oracle, the random generator (over an arbitrary random engine) and the acceptance loops.
  \<^item> \<^verbatim>\<open>Ring\<close>: linear probing in a power-of-two table, shared by the next theories.
  \<^item> \<^verbatim>\<open>RtfClone\<close> (\<^verbatim>\<open>query/query_hash_join.rtf_clone/hooks.cpp\<close>): building the runtime filter with 64-bit
    wrap-around and attaching it to two plan nodes that may be one.
  \<^item> \<^verbatim>\<open>GbyEvict\<close> (\<^verbatim>\<open>query/query_executor.gby_cache_evicted/hooks.cpp\<close>): the one-cluster cache and the
    eviction scenario.
  \<^item> \<^verbatim>\<open>GbyFlush\<close>, \<^verbatim>\<open>GbyCache\<close> (\<^verbatim>\<open>query/query_executor.h_gby_flush_replay/hooks.cpp\<close>): the recording
    fakes, the flush scenario with its report, and the two cache scenarios.
  \<^item> \<^verbatim>\<open>KeptTrees\<close> (\<^verbatim>\<open>compat/db_vdb.kept_tree_registry\<close>): the two shapes of the registry of prepared
    trees, and the random statement sequences as a step relation with the four invariants.
  \<^item> \<^verbatim>\<open>BloomHooks\<close> (\<^verbatim>\<open>query/query_hash_join.bloom_filter/hooks.cpp\<close>): one view over every layout of the join's
    bloom filter, the calls on it, the early check, and the keys of the join itself.
  \<^item> \<^verbatim>\<open>NumBatch\<close> (\<^verbatim>\<open>query/e_expr_batch.num_leaf_constant\<close> and \<^verbatim>\<open>num_step_scale\<close>): the plan, vectors and
    batch the two hooks build, and the reference that decides which rows a leaf has to keep, down to
    the printing of 128-bit coefficients.
  \<^item> \<^verbatim>\<open>HashMerge\<close> (\<^verbatim>\<open>query/k_query_executor.hash_merge_errors\<close>): the fakes that hand out list ids, scan
    numbered tuples and hash their keys, the three scenarios, and the engine's runs as sequences of
    calls of the fakes.
  \<^item> \<^verbatim>\<open>RevisionHooks\<close>: the hooks that stand in for functions a revision lacks (\<^verbatim>\<open>parallel_cost\<close>,
    \<^verbatim>\<open>plan_cmp\<close>, \<^verbatim>\<open>session_variable_peek\<close>, \<^verbatim>\<open>having_selectivity\<close>, \<^verbatim>\<open>prefix_value_hash\<close>, \<^verbatim>\<open>share_string\<close>,
    \<^verbatim>\<open>px_scan_checker.worker_sp\<close>); a jump out of the engine is a constructor of a sum, and the
    \<^verbatim>\<open>#else\<close> branch of each hook is a definition of its own (\<^verbatim>\<open>absent_\<close>...).
  \<^item> \<^verbatim>\<open>WalkHooks\<close>: the hooks that let the engine take one step and read back what it left
    (\<^verbatim>\<open>char_keys\<close>, \<^verbatim>\<open>unique_pinned\<close>, \<^verbatim>\<open>group_size_selectivity\<close>, \<^verbatim>\<open>bind_watch_check\<close>,
    \<^verbatim>\<open>xasl_cache.bind_variant\<close>, \<^verbatim>\<open>operand_arith\<close>, \<^verbatim>\<open>slab_sketch\<close>, \<^verbatim>\<open>cell_kernels\<close>, \<^verbatim>\<open>recompile_chain\<close>).
  \<^item> \<^verbatim>\<open>ForwardHooks\<close>: the hooks that are one call of the engine (twelve suites, among them
    \<^verbatim>\<open>db_vdb.bind_variant_key\<close>, \<^verbatim>\<open>bind_variant.distance\<close>, \<^verbatim>\<open>join_snapshot_selectivity\<close>); the fake prepare
    that names a cache entry by the key on the statement, and the loop of starts over a scripted advance.
  \<^item> \<^verbatim>\<open>CellKernels\<close> (\<^verbatim>\<open>query/expr_batch.cell_kernels/test.cpp\<close>): the string equalities of the collations as
    equality of normal forms, the length-first variant over raw memory, the contracts that run the
    kernels over every pair of short strings and the readers over NUMERIC cells.
  \<^item> \<^verbatim>\<open>SketchMix\<close> (\<^verbatim>\<open>query/g_query_aggregate.slab_sketch/test.cpp\<close>): the re-mix of a hash and its inverse,
    the branchless rank, the alignment of a record.
  \<^item> \<^verbatim>\<open>WordMag\<close> (\<^verbatim>\<open>query/numeric_opfunc.word_path_arith/test.cpp\<close>): 17-byte magnitudes and the random operand
    generator in the state monad of the library.
  \<^item> \<^verbatim>\<open>CnfModel\<close> (\<^verbatim>\<open>parser/cnf.keep_or_whole/test.cpp\<close>): the searches through a converted condition and the
    depth of the predicate the planner makes of it.
  \<^item> \<^verbatim>\<open>EngineFakes\<close>: the C heap, the private allocator as three hooks forward it and as three suites fake it
    (locale \<^verbatim>\<open>ledger\<close>: a ledger that every defined call keeps), and the error manager with its levels.
  \<^item> \<^verbatim>\<open>GroupSizes\<close> (\<^verbatim>\<open>optimizer/query_planner.having_selectivity\<close>, \<^verbatim>\<open>histogram_cl.group_size_selectivity\<close>,
    \<^verbatim>\<open>histogram_cl.equal_selectivity_sum\<close>, each \<^verbatim>\<open>test.cpp\<close>): the model of geometric group sizes, the fake
    column and its reader, the fakes under the HAVING estimate, the oracles over a histogram; each formula is
    shown to be the expectation it stands for.
  \<^item> \<^verbatim>\<open>HistBlob\<close> (the same \<^verbatim>\<open>equal_selectivity_sum\<close>): the writer of histogram blobs, every field at its place.
  \<^item> \<^verbatim>\<open>ListScan\<close> (\<^verbatim>\<open>query/query_hash_join.bloom_filter/test.cpp\<close>): the fake lists and the scan over them, peeking
    or copying, with the knobs that make it fail; a record owns its buffer or names a stored tuple.
  \<^item> \<^verbatim>\<open>PageWalk\<close> (\<^verbatim>\<open>query/z_scan_manager.collect_chunk\<close>, \<^verbatim>\<open>storage/z_heap_file.collect_visible\<close>): the collection
    of a page's rows a chunk at a time, with any sequence of collections and learned representations as a
    relation; the walk over records, the header reader and the snapshot.
  \<^item> \<^verbatim>\<open>ValHash\<close> (\<^verbatim>\<open>base/memory_hash.valhash_numeric\<close>): the forms of one number and the comparison of every two.

  \<^bold>\<open>Conventions.\<close> A pointer is what it names: an index, a slot, an address, with \<^verbatim>\<open>None\<close> for NULL. A
  32- or 64-bit integer whose wrap-around matters is a word, another integer an \<^verbatim>\<open>int\<close>. Compile-time
  tests of the hooks (\<^verbatim>\<open>#if\<close>, \<^verbatim>\<open>if constexpr\<close>, overload resolution) are case distinctions on a
  value that says what the revision has. Memory the program does not set is arbitrary. Loops that
  may not end return an option; the probe of a table of \<open>2 ^ k\<close> slots runs at most \<open>2 ^ k\<close> steps and the
  theorems show that it always finds a free slot; the capacity loop of the runtime filter runs at most
  64 steps, after which the shifted word is zero and the loop is known not to end. A read outside a
  block of memory is \<^verbatim>\<open>None\<close>; the address of a block is the library's choice, reuse included; an
  allocation fails when the heap has no room, and a call of \<^verbatim>\<open>free\<close> or
  \<^verbatim>\<open>realloc\<close> on anything but a live block has no meaning and is excluded. A double of a formula is read as
  the real number it stands for (the suites compare such numbers up to a relative error).

  \<^bold>\<open>Not modelled.\<close> Test cases that are single calls of engine code against literal values, printing
  and coverage output, the digests folded over the engine's own answers, the interleaving of the two
  worker threads of one case (the fakes they share are modelled call by call), and the tools and
  documents of the review process, which are not C++.
\<close>

end
